(* ===== verification/Xk_Prelude.thy ===== *)
theory Xk_Prelude
  imports Main "HOL-Library.Word"
begin

text \<open>
  Shared vocabulary of the development: the kernel's fixed-width integer types
  (include/types.h), the page arithmetic that the memory-management code writes as
  \<open>x & ~(PAGE_SIZE - 1)\<close>, and the generic facts on lists and words that the component
  theories use.

  The collections: \<open>page_simps\<close> holds the arithmetic reading of the page masks, \<open>array_simps\<close>
  the facts on C arrays represented by lists.
\<close>

unbundle bit_operations_syntax

named_theorems page_simps "arithmetic reading of page masks"
named_theorems array_simps "C arrays as lists"

type_synonym u8 = "8 word"
type_synonym u16 = "16 word"
type_synonym u32 = "32 word"
type_synonym u64 = "64 word"

text \<open>A kernel string without its terminating NUL, as bytes.\<close>

type_synonym cstr = "u8 list"

definition bytes_of :: "string \<Rightarrow> cstr" where
  "bytes_of s = map of_char s"

subsection \<open>Page arithmetic (include/pmm.h)\<close>

abbreviation PAGE_SIZE :: u64 where
  "PAGE_SIZE \<equiv> 4096"

definition page_down :: "u64 \<Rightarrow> u64" where
  "page_down a = a AND NOT (PAGE_SIZE - 1)"

definition page_aligned :: "u64 \<Rightarrow> bool" where
  "page_aligned a \<longleftrightarrow> a AND (PAGE_SIZE - 1) = 0"

lemma mask_12: "(4095 :: u64) = mask 12"
  by (simp add: mask_eq_exp_minus_1)

lemma unat_and_mask [page_simps]: "unat ((a :: 'a::len word) AND mask n) = unat a mod 2 ^ n"
  by (simp only: take_bit_eq_mask [symmetric] unsigned_take_bit_eq) (simp add: take_bit_eq_mod)

lemma word_and_plus_and_not: "((x :: 'a::len word) AND w) + (x AND NOT w) = x"
proof -
  have "(x AND w) + (x AND NOT w) = (x AND w) OR (x AND NOT w)"
    by (rule disjunctive_add) (auto simp: bit_simps)
  also have "\<dots> = x"
    by (rule bit_eqI) (auto simp: bit_simps)
  finally show ?thesis .
qed

lemma unat_and_not_mask: "unat ((a :: 'a::len word) AND NOT (mask n)) = unat a - unat a mod 2 ^ n"
proof -
  have "a AND NOT (mask n) = a - (a AND mask n)"
    using word_and_plus_and_not [of a "mask n"] by (simp add: algebra_simps)
  moreover have "a AND mask n \<le> a"
    by (simp add: word_le_nat_alt unat_and_mask)
  ultimately show ?thesis
    by (simp add: unat_sub unat_and_mask)
qed

lemma unat_page_down [page_simps]: "unat (page_down a) = unat a - unat a mod 4096"
  by (simp add: page_down_def mask_12 unat_and_not_mask)

lemma page_aligned_unat [page_simps]: "page_aligned a \<longleftrightarrow> unat a mod 4096 = 0"
proof -
  have "page_aligned a \<longleftrightarrow> unat (a AND mask 12) = 0"
    by (simp add: page_aligned_def mask_12 unat_eq_0)
  then show ?thesis
    by (simp add: unat_and_mask)
qed

lemma page_down_aligned [simp, intro]: "page_aligned (page_down a)"
  by (simp add: page_simps)

lemma page_down_le: "page_down a \<le> a"
  by (simp add: word_le_nat_alt page_simps)

lemma page_down_id [simp]: "page_aligned a \<Longrightarrow> page_down a = a"
  by (simp add: word_unat_eq_iff page_simps)

lemma page_aligned_add:
  assumes "page_aligned a" "page_aligned b"
  shows "page_aligned (a + b)"
proof -
  have "4096 dvd (2 :: nat) ^ 64"
    by simp
  then have "(unat a + unat b) mod 2 ^ 64 mod 4096 = (unat a + unat b) mod 4096"
    by (rule mod_mod_cancel)
  moreover have "(unat a + unat b) mod 4096 = 0"
    using assms by (auto simp: page_simps mod_eq_0_iff_dvd)
  ultimately show ?thesis
    by (simp add: page_simps unat_word_ariths)
qed

lemma page_aligned_mult [simp, intro]: "page_aligned (4096 * x)"
proof -
  have "unat (4096 * x) mod 4096 = (4096 * unat x) mod 2 ^ 64 mod (4096 :: nat)"
    by (simp add: unat_word_ariths)
  also have "\<dots> = 0"
    by (subst mod_mod_cancel) simp_all
  finally show ?thesis
    by (simp add: page_aligned_unat)
qed

lemma page_alignedE:
  assumes "page_aligned b"
  obtains x where "b = 4096 * x"
proof -
  obtain k where "unat b = 4096 * k"
    using assms by (auto simp: page_simps mod_eq_0_iff_dvd elim!: dvdE)
  then have "(of_nat (unat b) :: u64) = of_nat (4096 * k)"
    by (simp only:)
  then have "b = 4096 * of_nat k"
    by simp
  with that show ?thesis .
qed

lemma page_aligned_sub: "page_aligned a \<Longrightarrow> page_aligned b \<Longrightarrow> page_aligned (a - b)"
proof (elim page_alignedE)
  fix x y
  assume "a = 4096 * x" "b = 4096 * y"
  then have "a - b = 4096 * (x - y)"
    by (simp only: right_diff_distrib)
  then show "page_aligned (a - b)"
    by (simp only: page_aligned_mult)
qed

lemma page_aligned_step [simp, intro]: "page_aligned a \<Longrightarrow> page_aligned (a + 4096)"
  by (rule page_aligned_add) (simp_all add: page_aligned_def)

text \<open>
  The loops \<open>for (a = start; a < end; a += PAGE_SIZE)\<close>. A bound that leaves room for one more
  page keeps the counter from wrapping around; every page-aligned bound does.
\<close>

definition loop_bound :: "u64 \<Rightarrow> bool" where
  "loop_bound b \<longleftrightarrow> unat b + 4096 \<le> 2 ^ 64"

lemma aligned_loop_bound [simp, intro]:
  assumes "page_aligned b"
  shows "loop_bound b"
proof -
  have "unat b < 2 ^ LENGTH(64)"
    by (rule unsigned_less)
  moreover obtain m where "unat b = 4096 * m"
    using assms by (auto simp: page_simps mod_eq_0_iff_dvd elim!: dvdE)
  moreover have "(2 :: nat) ^ 64 = 4096 * 2 ^ 52"
    by simp
  ultimately show ?thesis
    by (simp add: loop_bound_def)
qed

lemma page_step_no_wrap:
  assumes "loop_bound b" "a < b"
  shows "unat (a + 4096) = unat a + 4096"
proof -
  have "unat a + 4096 < 2 ^ 64"
    using assms by (simp add: loop_bound_def word_less_nat_alt)
  then show ?thesis
    by (simp add: unat_word_ariths)
qed

lemma page_step_le:
  assumes "page_aligned a" "page_aligned b" "a < b"
  shows "a + 4096 \<le> b"
proof -
  obtain k m where km: "unat a = 4096 * k" "unat b = 4096 * m"
    using assms by (auto simp: page_simps mod_eq_0_iff_dvd elim!: dvdE)
  with assms(3) have "k < m"
    by (simp add: word_less_nat_alt)
  with km show ?thesis
    using page_step_no_wrap [of b a] assms by (auto simp: word_le_nat_alt)
qed

lemma page_loop_induct [consumes 1, case_names stop step]:
  assumes "loop_bound b"
    and stop: "\<And>a. \<not> a < b \<Longrightarrow> P a"
    and step: "\<And>a. a < b \<Longrightarrow> P (a + 4096) \<Longrightarrow> P a"
  shows "P (a :: u64)"
proof (induction "unat b - unat a" arbitrary: a rule: less_induct)
  case less
  show ?case
  proof (cases "a < b")
    case True
    then have "unat b - unat (a + 4096) < unat b - unat a"
      using page_step_no_wrap [OF assms(1)] by (simp add: word_less_nat_alt)
    with less step True show ?thesis
      by blast
  qed (rule stop)
qed

definition page_range :: "u64 \<Rightarrow> u64 \<Rightarrow> u64 list" where
  "page_range a b = map (\<lambda>i. a + of_nat i * 4096) [0..<(unat b - unat a + 4095) div 4096]"

lemma page_range_Nil [simp]: "\<not> a < b \<Longrightarrow> page_range a b = []"
  by (simp add: page_range_def word_less_nat_alt)

lemma page_count_step: "0 < d \<Longrightarrow> (d + 4095) div 4096 = Suc ((d - 4096 + 4095) div (4096 :: nat))"
  by (cases "d \<le> 4096") (simp_all add: div_nat_eqI div_if)

lemma page_range_Cons:
  assumes "loop_bound b" "a < b"
  shows "page_range a b = a # page_range (a + 4096) b"
proof -
  define n where "n = (unat b - unat (a + 4096) + 4095) div 4096"
  have "(unat b - unat a + 4095) div 4096 = Suc n"
    using assms page_step_no_wrap [OF assms] page_count_step [of "unat b - unat a"]
    by (simp add: n_def word_less_nat_alt)
  then have "page_range a b = map (\<lambda>i. a + of_nat i * 4096) (0 # map Suc [0..<n])"
    by (simp only: page_range_def map_Suc_upt) (simp add: upt_conv_Cons del: upt_Suc)
  also have "\<dots> = a # map (\<lambda>i. a + 4096 + of_nat i * 4096) [0..<n]"
    by (simp add: algebra_simps)
  finally show ?thesis
    by (simp add: page_range_def n_def)
qed

lemma set_page_range:
  assumes "loop_bound b" "page_aligned a"
  shows "set (page_range a b) = {x. page_aligned x \<and> a \<le> x \<and> x < b}"
  using assms
proof (induction a rule: page_loop_induct)
  case (stop a)
  then show ?case by auto
next
  case (step a)
  have al: "page_aligned a"
    using step by blast
  then have IH: "set (page_range (a + 4096) b) = {x. page_aligned x \<and> a + 4096 \<le> x \<and> x < b}"
    using step by blast
  have up: "x = a \<or> a + 4096 \<le> x" if "page_aligned x" "a \<le> x" for x
    using that al page_step_le [of a x] by (cases "a = x") auto
  have down: "a \<le> x" if "a + 4096 \<le> x" for x
    using that page_step_no_wrap [OF assms(1) step(1)] by (simp add: word_le_nat_alt)
  show ?case
    unfolding page_range_Cons [OF assms(1) step(1)] list.set IH
    using al up down step(1) by blast
qed

lemma distinct_page_range:
  assumes "loop_bound b" "page_aligned a"
  shows "distinct (page_range a b)"
  using assms
proof (induction a rule: page_loop_induct)
  case (stop a)
  then show ?case by simp
next
  case (step a)
  have "\<not> a + 4096 \<le> a"
    using page_step_no_wrap [OF assms(1) step(1)] by (simp add: word_le_nat_alt)
  with step show ?case
    by (auto simp: page_range_Cons [OF assms(1)] set_page_range [OF assms(1)])
qed


section \<open>Further word facts\<close>

lemma unat_drop_bit: "unat (drop_bit n x) = unat x div 2 ^ n"
  for x :: "'a::len word"
  by (simp only: unat_drop_bit_eq) (simp add: drop_bit_eq_div)

lemma unat_less_iff_uint: "unat x < n \<longleftrightarrow> uint x < int n"
  for x :: "'a::len word"
  by (simp add: nat_less_iff flip: nat_uint_eq)

lemma bit_top_u64: "bit (uint (x :: u64)) 63 \<longleftrightarrow> 2 ^ 63 \<le> uint x"
proof -
  have x: "0 \<le> uint x" "uint x < 2 ^ 64"
    using unsigned_less [of x, where ?'a = int] by simp_all
  show ?thesis
  proof (cases "2 ^ 63 \<le> uint x")
    case True
    then have "uint x div 2 ^ 63 = 1"
      using x by (intro int_div_pos_eq [where r = "uint x - 2 ^ 63"]) simp_all
    with True show ?thesis by (simp add: bit_iff_odd)
  next
    case False
    then have "uint x div 2 ^ 63 = 0"
      using x by simp
    with False show ?thesis by (simp add: bit_iff_odd)
  qed
qed

lemma sint_u64: "sint (x :: u64) = (if uint x < 2 ^ 63 then uint x else uint x - 2 ^ 64)"
proof -
  have "0 \<le> uint x" "uint x < 2 ^ 64"
    using unsigned_less [of x, where ?'a = int] by simp_all
  then show ?thesis
    using bit_top_u64 [of x]
    by (simp add: sint_uint signed_take_bit_eq_take_bit_minus take_bit_eq_mod)
qed

end
