(* ===== verification/Xk_Bytes.thy ===== *)
theory Xk_Bytes
  imports Xk_Prelude "HOL-Library.Monad_Syntax"
begin

text \<open>
  Numbers in buffers: 16-bit and 32-bit fields read and written at an offset of a list of bytes, in the
  byte order of the machine. The network protocols and the file systems use them. The reads that may
  leave the buffer have the result \<open>None\<close> if they do.
\<close>

definition put16 :: "u16 \<Rightarrow> u8 list" where
  "put16 x = [ucast x, ucast (drop_bit 8 x)]"

definition put32 :: "u32 \<Rightarrow> u8 list" where
  "put32 x = [ucast x, ucast (drop_bit 8 x), ucast (drop_bit 16 x), ucast (drop_bit 24 x)]"

definition get16 :: "u8 list \<Rightarrow> nat \<Rightarrow> u16" where
  "get16 bs i = ucast (bs ! i) OR push_bit 8 (ucast (bs ! (i + 1)))"

definition get32 :: "u8 list \<Rightarrow> nat \<Rightarrow> u32" where
  "get32 bs i = ucast (bs ! i) OR push_bit 8 (ucast (bs ! (i + 1))) OR push_bit 16 (ucast (bs ! (i + 2))) OR
     push_bit 24 (ucast (bs ! (i + 3)))"

text \<open>Checked reads.\<close>

definition read8 :: "u8 list \<Rightarrow> nat \<Rightarrow> u8 option" where
  "read8 bs i = (if i < length bs then Some (bs ! i) else None)"

definition read16 :: "u8 list \<Rightarrow> nat \<Rightarrow> u16 option" where
  "read16 bs i = (if i + 2 \<le> length bs then Some (get16 bs i) else None)"

definition read32 :: "u8 list \<Rightarrow> nat \<Rightarrow> u32 option" where
  "read32 bs i = (if i + 4 \<le> length bs then Some (get32 bs i) else None)"

definition read_bytes :: "u8 list \<Rightarrow> nat \<Rightarrow> nat \<Rightarrow> u8 list option" where
  "read_bytes bs i n = (if i + n \<le> length bs then Some (take n (drop i bs)) else None)"

text \<open>A number in network order.\<close>

definition be32 :: "u32 \<Rightarrow> u8 list" where
  "be32 x = [ucast (drop_bit 24 x), ucast (drop_bit 16 x), ucast (drop_bit 8 x), ucast x]"

text \<open>Overwriting part of a buffer.\<close>

definition splice :: "nat \<Rightarrow> u8 list \<Rightarrow> u8 list \<Rightarrow> u8 list" where
  "splice i xs bs = take i bs @ xs @ drop (i + length xs) bs"

lemma length_put [simp]: "length (put16 x) = 2" "length (put32 y) = 4" "length (be32 y) = 4"
  by (simp_all add: put16_def put32_def be32_def)

lemma read_Some [simp]:
  "i < length bs \<Longrightarrow> read8 bs i = Some (bs ! i)" "i + 2 \<le> length bs \<Longrightarrow> read16 bs i = Some (get16 bs i)"
  "i + 4 \<le> length bs \<Longrightarrow> read32 bs i = Some (get32 bs i)" "i + n \<le> length bs \<Longrightarrow> read_bytes bs i n = Some (take n (drop i bs))"
  by (simp_all add: read8_def read16_def read32_def read_bytes_def)

lemma word16_halves: "ucast (ucast x :: u8) OR push_bit 8 (ucast (ucast (drop_bit 8 x) :: u8)) = (x :: u16)"
  by (rule bit_word_eqI) (auto simp: bit_simps)

lemma word32_bytes:
  "ucast (ucast x :: u8) OR push_bit 8 (ucast (ucast (drop_bit 8 x) :: u8)) OR
     push_bit 16 (ucast (ucast (drop_bit 16 x) :: u8)) OR push_bit 24 (ucast (ucast (drop_bit 24 x) :: u8)) = (x :: u32)"
proof (rule bit_word_eqI)
  fix n assume "n < LENGTH(32)"
  then consider "n < 8" | "8 \<le> n" "n < 16" | "16 \<le> n" "n < 24" | "24 \<le> n" "n < 32"
    unfolding len_bit0 by (cases "n < 8"; cases "n < 16"; cases "n < 24") simp_all
  then show "bit (ucast (ucast x :: u8) OR push_bit 8 (ucast (ucast (drop_bit 8 x) :: u8)) OR
     push_bit 16 (ucast (ucast (drop_bit 16 x) :: u8)) OR push_bit 24 (ucast (ucast (drop_bit 24 x) :: u8)) :: u32) n = bit x n"
    by cases (auto simp: bit_simps)
qed

lemma get16_put16 [simp]: "i = length xs \<Longrightarrow> get16 (xs @ put16 x @ ys) i = x"
  by (simp add: get16_def put16_def nth_append word16_halves)

lemma get32_put32 [simp]: "i = length xs \<Longrightarrow> get32 (xs @ put32 x @ ys) i = x"
  by (simp add: get32_def put32_def nth_append word32_bytes)

lemma put16_get16:
  assumes "i + 2 \<le> length bs"
  shows "put16 (get16 bs i) = take 2 (drop i bs)"
proof -
  have b: "ucast (ucast a OR push_bit 8 (ucast b) :: u16) = a"
    "ucast (drop_bit 8 (ucast a OR push_bit 8 (ucast b) :: u16)) = b" for a b :: u8
    by (rule bit_word_eqI; auto simp: bit_simps dest: bit_imp_le_length)+
  have "take 2 (drop i bs) = [bs ! i, bs ! (i + 1)]"
    using assms by (intro nth_equalityI) (auto simp: less_Suc_eq numeral_eq_Suc)
  then show ?thesis
    unfolding put16_def get16_def b by simp
qed

lemma put32_get32:
  assumes "i + 4 \<le> length bs"
  shows "put32 (get32 bs i) = take 4 (drop i bs)"
proof -
  have b: "ucast (ucast a OR push_bit 8 (ucast b) OR push_bit 16 (ucast c) OR push_bit 24 (ucast d) :: u32) = a"
    "ucast (drop_bit 8 (ucast a OR push_bit 8 (ucast b) OR push_bit 16 (ucast c) OR push_bit 24 (ucast d) :: u32)) = b"
    "ucast (drop_bit 16 (ucast a OR push_bit 8 (ucast b) OR push_bit 16 (ucast c) OR push_bit 24 (ucast d) :: u32)) = c"
    "ucast (drop_bit 24 (ucast a OR push_bit 8 (ucast b) OR push_bit 16 (ucast c) OR push_bit 24 (ucast d) :: u32)) = d"
    for a b c d :: u8
    by (rule bit_word_eqI; auto simp: bit_simps dest: bit_imp_le_length)+
  have "take 4 (drop i bs) = [bs ! i, bs ! (i + 1), bs ! (i + 2), bs ! (i + 3)]"
    using assms by (intro nth_equalityI) (auto simp: less_Suc_eq numeral_eq_Suc)
  then show ?thesis
    unfolding put32_def get32_def b by simp
qed

lemma put32_inject: "put32 x = put32 y \<longleftrightarrow> x = y"
proof -
  have "get32 (put32 z) 0 = z" for z
    using get32_put32 [of 0 "[]" z "[]"] by simp
  then show ?thesis
    by metis
qed

end
