(* ===== verification/Vm_Pmm.thy ===== *)
theory Vm_Pmm
  imports Xk_Prelude "HOL-Library.Multiset"
begin

text \<open>
  The physical frame allocator, osfmk/vm/pmm.c. The static array \<open>pmm_stack\<close> with its
  \<open>pmm_stack_top\<close> is the list of its live prefix: the element at index \<open>i\<close> of the list is
  \<open>pmm_stack[i]\<close> and the length of the list is \<open>pmm_stack_top\<close>. The linker symbols
  \<open>_kernel_start\<close> and \<open>_kernel_end\<close> are the arguments \<open>ks\<close> and \<open>ke\<close>. The loops over
  addresses are partial functions into \<open>option\<close>, so a loop that runs forever has the value
  \<open>None\<close>; the lemmas state where they return.
\<close>

section \<open>Model\<close>

record e820_entry =
  e_base :: u64
  e_length :: u64
  e_type :: u32
  e_attr :: u32

record pmm =
  pmm_stack :: "u64 list"
  pmm_total_memory :: u64

abbreviation PMM_STACK_SIZE :: nat where
  "PMM_STACK_SIZE \<equiv> 65536"

abbreviation PMM_MAX_ADDR :: u64 where
  "PMM_MAX_ADDR \<equiv> 0xC0000000"

abbreviation PMM_TOP_GUARD :: u64 where
  "PMM_TOP_GUARD \<equiv> 0x1000000"

abbreviation MULTIBOOT_MEMORY_AVAILABLE :: u32 where
  "MULTIBOOT_MEMORY_AVAILABLE \<equiv> 1"

definition pmm_free :: "u64 \<Rightarrow> pmm \<Rightarrow> pmm" where
  "pmm_free addr s =
     (if addr = 0 then s
      else if length (pmm_stack s) < PMM_STACK_SIZE
      then s\<lparr>pmm_stack := pmm_stack s @ [addr]\<rparr>
      else s)"

definition pmm_alloc :: "pmm \<Rightarrow> u64 \<times> pmm" where
  "pmm_alloc s =
     (if pmm_stack s = [] then (0, s)
      else (last (pmm_stack s), s\<lparr>pmm_stack := butlast (pmm_stack s)\<rparr>))"

text \<open>The inner loop of \<open>pmm_reserve\<close>: the first slot holding \<open>a\<close> is overwritten with the top.\<close>

primrec frame_index :: "u64 \<Rightarrow> u64 list \<Rightarrow> nat option" where
  "frame_index a [] = None"
| "frame_index a (x # xs) = (if x = a then Some 0 else map_option Suc (frame_index a xs))"

definition pmm_unlink :: "u64 \<Rightarrow> u64 list \<Rightarrow> u64 list" where
  "pmm_unlink a xs =
     (case frame_index a xs of None \<Rightarrow> xs | Some i \<Rightarrow> (butlast xs)[i := last xs])"

partial_function (option) pmm_reserve_loop :: "u64 \<Rightarrow> u64 \<Rightarrow> u64 list \<Rightarrow> u64 list option" where
  "pmm_reserve_loop a e xs =
     (if a < e then pmm_reserve_loop (a + PAGE_SIZE) e (pmm_unlink a xs) else Some xs)"

definition pmm_reserve :: "u64 \<Rightarrow> u64 \<Rightarrow> pmm \<Rightarrow> pmm option" where
  "pmm_reserve addr sz s =
     map_option (\<lambda>xs. s\<lparr>pmm_stack := xs\<rparr>)
       (pmm_reserve_loop (page_down addr) (addr + sz) (pmm_stack s))"

definition pmm_is_kernel_region :: "u64 \<Rightarrow> u64 \<Rightarrow> u64 \<Rightarrow> bool" where
  "pmm_is_kernel_region ks ke addr \<longleftrightarrow> ks \<le> addr \<and> addr < ke"

text \<open>The loop of \<open>pmm_init\<close> that pushes the frames of one range.\<close>

partial_function (option) pmm_fill ::
  "u64 \<Rightarrow> u64 \<Rightarrow> u64 \<Rightarrow> u64 \<Rightarrow> pmm \<Rightarrow> pmm option" where
  "pmm_fill ks ke addr stop s =
     (if addr < stop
      then pmm_fill ks ke (addr + PAGE_SIZE) stop
             (if \<not> pmm_is_kernel_region ks ke addr then pmm_free addr s else s)
      else Some s)"

definition range_start :: "u64 \<Rightarrow> u64" where
  "range_start base = page_down (base + PAGE_SIZE - 1)"

definition clip_length :: "u64 \<Rightarrow> u64 \<Rightarrow> u64" where
  "clip_length base len = (if base + len > PMM_MAX_ADDR then PMM_MAX_ADDR - base else len)"

definition range_stop :: "u64 \<Rightarrow> u64 \<Rightarrow> u64" where
  "range_stop start end =
     (let stop = page_down end
      in if stop - start > PMM_TOP_GUARD * 2 then stop - PMM_TOP_GUARD else stop)"

fun pmm_init_loop :: "u64 \<Rightarrow> u64 \<Rightarrow> e820_entry list \<Rightarrow> pmm \<Rightarrow> pmm option" where
  "pmm_init_loop ks ke [] s = Some s"
| "pmm_init_loop ks ke (e # es) s =
     (if e_base e \<ge> PMM_MAX_ADDR then pmm_init_loop ks ke es s
      else
        let len = clip_length (e_base e) (e_length e)
        in if e_type e = MULTIBOOT_MEMORY_AVAILABLE
           then case pmm_fill ks ke (range_start (e_base e))
                       (range_stop (range_start (e_base e)) (e_base e + len)) s of
                  None \<Rightarrow> None
                | Some s' \<Rightarrow>
                    pmm_init_loop ks ke es
                      (s'\<lparr>pmm_total_memory := pmm_total_memory s' + len\<rparr>)
           else pmm_init_loop ks ke es s)"

definition pmm_init :: "u64 \<Rightarrow> u64 \<Rightarrow> e820_entry list \<Rightarrow> pmm option" where
  "pmm_init ks ke mp = pmm_init_loop ks ke mp \<lparr>pmm_stack = [], pmm_total_memory = 0\<rparr>"

definition pmm_get_total_memory :: "pmm \<Rightarrow> u64" where
  "pmm_get_total_memory s = pmm_total_memory s"

definition pmm_get_free_pages :: "pmm \<Rightarrow> u32" where
  "pmm_get_free_pages s = of_nat (length (pmm_stack s))"

section \<open>The allocator as an interface\<close>

text \<open>
  What the clients of the allocator rely on: a state that satisfies the invariant holds a set
  of free frames, allocation hands out one of them and nothing else changes, and a freed frame
  is back in the set while there is room.
\<close>

locale frame_allocator =
  fixes alloc :: "'s \<Rightarrow> u64 \<times> 's"
    and free :: "u64 \<Rightarrow> 's \<Rightarrow> 's"
    and frames :: "'s \<Rightarrow> u64 set"
    and room :: "'s \<Rightarrow> bool"
    and ok :: "'s \<Rightarrow> bool"
  assumes alloc_empty: "ok s \<Longrightarrow> frames s = {} \<Longrightarrow> alloc s = (0, s)"
    and alloc_frame: "ok s \<Longrightarrow> frames s \<noteq> {} \<Longrightarrow> fst (alloc s) \<in> frames s"
    and alloc_rest: "ok s \<Longrightarrow> frames (snd (alloc s)) = frames s - {fst (alloc s)}"
    and alloc_ok: "ok s \<Longrightarrow> ok (snd (alloc s))"
    and frame_valid: "ok s \<Longrightarrow> f \<in> frames s \<Longrightarrow> f \<noteq> 0 \<and> page_aligned f"
    and free_frames: "ok s \<Longrightarrow> room s \<Longrightarrow> f \<noteq> 0 \<Longrightarrow> frames (free f s) = insert f (frames s)"
    and free_ok: "ok s \<Longrightarrow> f \<notin> frames s \<Longrightarrow> page_aligned f \<Longrightarrow> ok (free f s)"
    and alloc_room: "ok s \<Longrightarrow> frames s \<noteq> {} \<Longrightarrow> room (snd (alloc s))"
begin

lemma alloc_success:
  assumes "ok s" and "alloc s = (f, s')" and "f \<noteq> 0"
  shows "f \<in> frames s" "frames s' = frames s - {f}" "ok s'" "page_aligned f" "room s'"
proof -
  have ne: "frames s \<noteq> {}"
    using assms alloc_empty by force
  then show "f \<in> frames s"
    using alloc_frame [OF assms(1)] assms(2) by simp
  then show "page_aligned f"
    using frame_valid assms(1) by blast
  show "frames s' = frames s - {f}" "ok s'" "room s'"
    using alloc_rest [OF assms(1)] alloc_ok [OF assms(1)] alloc_room [OF assms(1) ne] assms(2)
    by simp_all
qed

lemma alloc_zero_iff: "ok s \<Longrightarrow> fst (alloc s) = 0 \<longleftrightarrow> frames s = {}"
  using alloc_empty alloc_frame frame_valid by (metis fst_conv)

lemma alloc_fail: "ok s \<Longrightarrow> alloc s = (0, s') \<Longrightarrow> s' = s"
  using alloc_empty alloc_zero_iff by (metis fst_conv prod.inject)

lemma alloc_twice_distinct:
  assumes "ok s" "alloc s = (f, s')" "alloc s' = (g, s'')" "f \<noteq> 0" "g \<noteq> 0"
  shows "f \<noteq> g"
  using alloc_success(1,2,3) assms by (metis Diff_iff singletonI)

lemma alloc_free_frames:
  assumes "ok s" "alloc s = (f, s')" "f \<noteq> 0"
  shows "frames (free f s') = frames s" "ok (free f s')"
proof -
  note f = alloc_success [OF assms]
  show "frames (free f s') = frames s"
    using f free_frames [OF f(3,5) assms(3)] by auto
  show "ok (free f s')"
    using f by (intro free_ok) auto
qed

end

section \<open>The stack implements the interface\<close>

definition pmm_frames :: "pmm \<Rightarrow> u64 set" where
  "pmm_frames s = set (pmm_stack s)"

definition pmm_room :: "pmm \<Rightarrow> bool" where
  "pmm_room s \<longleftrightarrow> length (pmm_stack s) < PMM_STACK_SIZE"

definition pmm_ok :: "pmm \<Rightarrow> bool" where
  "pmm_ok s \<longleftrightarrow> length (pmm_stack s) \<le> PMM_STACK_SIZE \<and> distinct (pmm_stack s) \<and>
     (\<forall>f \<in> set (pmm_stack s). f \<noteq> 0 \<and> page_aligned f)"

lemmas pmm_defs = pmm_frames_def pmm_room_def pmm_ok_def pmm_alloc_def pmm_free_def

lemma set_butlast_last: "xs \<noteq> [] \<Longrightarrow> distinct xs \<Longrightarrow> set (butlast xs) = set xs - {last xs}"
  by (induction xs rule: rev_induct) auto

interpretation pm: frame_allocator pmm_alloc pmm_free pmm_frames pmm_room pmm_ok
proof unfold_locales
  fix s
  assume ok: "pmm_ok s" and "pmm_frames s \<noteq> {}"
  then have "pmm_stack s \<noteq> []"
    by (auto simp: pmm_frames_def)
  with ok show "pmm_room (snd (pmm_alloc s))"
    by (cases "pmm_stack s" rule: rev_cases) (auto simp: pmm_defs)
qed (auto simp: pmm_defs set_butlast_last distinct_butlast dest: in_set_butlastD)

section \<open>The fill loop and pmm_init\<close>

definition free_all :: "u64 list \<Rightarrow> pmm \<Rightarrow> pmm" where
  "free_all xs s = fold pmm_free xs s"

lemma free_all_simps [simp]:
  "free_all [] s = s"
  "free_all (x # xs) s = free_all xs (pmm_free x s)"
  by (simp_all add: free_all_def)

lemma free_all_append: "free_all (xs @ ys) s = free_all ys (free_all xs s)"
  by (simp add: free_all_def)

lemma pmm_total_free [simp]: "pmm_total_memory (pmm_free f s) = pmm_total_memory s"
  by (simp add: pmm_free_def)

lemma pmm_free_total_update:
  "pmm_free x (s\<lparr>pmm_total_memory := t\<rparr>) = (pmm_free x s)\<lparr>pmm_total_memory := t\<rparr>"
  by (simp add: pmm_free_def)

lemma free_all_total_update [simp]:
  "free_all xs (s\<lparr>pmm_total_memory := t\<rparr>) = (free_all xs s)\<lparr>pmm_total_memory := t\<rparr>"
  by (induction xs arbitrary: s) (simp_all add: pmm_free_total_update)

lemma pmm_total_free_all [simp]: "pmm_total_memory (free_all xs s) = pmm_total_memory s"
  by (induction xs arbitrary: s) simp_all

lemma pmm_fill_eq:
  assumes "loop_bound stop"
  shows "pmm_fill ks ke a stop s =
    Some (free_all (filter (\<lambda>x. \<not> pmm_is_kernel_region ks ke x) (page_range a stop)) s)"
  using assms
proof (induction a arbitrary: s rule: page_loop_induct)
  case (stop a)
  then show ?case by (simp add: pmm_fill.simps [of _ _ a])
next
  case (step a)
  then show ?case
    by (simp add: pmm_fill.simps [of _ _ a] page_range_Cons [OF assms])
qed

lemma stack_free_all:
  assumes "length (pmm_stack s) \<le> PMM_STACK_SIZE"
  shows "pmm_stack (free_all xs s) = take PMM_STACK_SIZE (pmm_stack s @ filter (\<lambda>x. x \<noteq> 0) xs)"
  using assms
proof (induction xs arbitrary: s)
  case Nil
  then show ?case by simp
next
  case (Cons x xs)
  have "length (pmm_stack (pmm_free x s)) \<le> PMM_STACK_SIZE"
    using Cons.prems by (simp add: pmm_free_def)
  from Cons.IH [OF this] Cons.prems show ?case
    by (auto simp: pmm_free_def take_Cons')
qed

text \<open>
  A range entry the firmware may report: it does not wrap around the address space, and the first
  page boundary at or above its start is not above its end.
\<close>

definition sane_entry :: "e820_entry \<Rightarrow> bool" where
  "sane_entry e \<longleftrightarrow> unat (e_base e) + unat (e_length e) + 4096 \<le> 2 ^ 64 \<and>
     (unat (e_base e) + 4095) div 4096 * 4096 \<le> unat (e_base e) + unat (e_length e)"

definition entry_bytes :: "e820_entry \<Rightarrow> nat set" where
  "entry_bytes e = {unat (e_base e) ..< unat (e_base e) + unat (e_length e)}"

definition frame_bytes :: "u64 \<Rightarrow> nat set" where
  "frame_bytes f = {unat f ..< unat f + 4096}"

definition available :: "e820_entry \<Rightarrow> bool" where
  "available e \<longleftrightarrow> e_type e = MULTIBOOT_MEMORY_AVAILABLE \<and> e_base e < PMM_MAX_ADDR"

definition entry_frames :: "u64 \<Rightarrow> u64 \<Rightarrow> e820_entry \<Rightarrow> u64 list" where
  "entry_frames ks ke e =
     (if available e
      then filter (\<lambda>x. \<not> pmm_is_kernel_region ks ke x)
             (page_range (range_start (e_base e))
               (range_stop (range_start (e_base e))
                 (e_base e + clip_length (e_base e) (e_length e))))
      else [])"

lemma range_start_aligned [simp, intro]: "page_aligned (range_start b)"
  by (simp add: range_start_def)

lemma range_stop_aligned [simp, intro]: "page_aligned (range_stop a b)"
  by (auto simp: range_stop_def Let_def intro!: page_aligned_sub)
     (simp add: page_aligned_def)

lemma pmm_init_loop_eq:
  "pmm_init_loop ks ke es s =
     Some \<lparr>pmm_stack = pmm_stack (free_all (concat (map (entry_frames ks ke) es)) s),
           pmm_total_memory = pmm_total_memory s +
             sum_list (map (\<lambda>e. clip_length (e_base e) (e_length e)) (filter available es))\<rparr>"
proof (induction es arbitrary: s)
  case Nil
  then show ?case by (cases s) simp
next
  case (Cons e es)
  show ?case
  proof (cases "available e")
    case True
    then have "\<not> PMM_MAX_ADDR \<le> e_base e" "e_type e = MULTIBOOT_MEMORY_AVAILABLE"
      by (auto simp: available_def linorder_not_le)
    with True show ?thesis
      by (simp add: entry_frames_def Let_def pmm_fill_eq Cons.IH free_all_append add.assoc)
  next
    case False
    then show ?thesis
      by (auto simp: available_def entry_frames_def Let_def not_le Cons.IH)
  qed
qed

lemma pmm_init_eq:
  "pmm_init ks ke es =
     Some \<lparr>pmm_stack = take PMM_STACK_SIZE
             (filter (\<lambda>x. x \<noteq> 0) (concat (map (entry_frames ks ke) es))),
           pmm_total_memory =
             sum_list (map (\<lambda>e. clip_length (e_base e) (e_length e)) (filter available es))\<rparr>"
  by (simp add: pmm_init_def pmm_init_loop_eq stack_free_all)


lemma unat_clip_end:
  assumes "sane_entry e" "available e"
  shows "unat (e_base e + clip_length (e_base e) (e_length e)) =
    min (unat (e_base e) + unat (e_length e)) 0xC0000000"
proof -
  have b: "unat (e_base e) < 0xC0000000"
    using assms(2) by (simp add: available_def word_less_nat_alt)
  have s: "unat (e_base e + e_length e) = unat (e_base e) + unat (e_length e)"
    using assms(1) by (simp add: sane_entry_def unat_word_ariths)
  show ?thesis
  proof (cases "e_base e + e_length e > PMM_MAX_ADDR")
    case True
    then have "0xC0000000 < unat (e_base e) + unat (e_length e)"
      by (simp add: word_less_nat_alt s)
    with True show ?thesis
      by (simp add: clip_length_def)
  next
    case False
    then have "\<not> 0xC0000000 < unat (e_base e) + unat (e_length e)"
      by (simp add: word_less_nat_alt s)
    with False show ?thesis
      by (simp add: clip_length_def s)
  qed
qed

lemma unat_range_start:
  assumes "available e"
  shows "unat (range_start (e_base e)) = (unat (e_base e) + 4095) div 4096 * 4096"
proof -
  have "unat (e_base e) < 0xC0000000"
    using assms by (simp add: available_def word_less_nat_alt)
  then have "unat (e_base e + PAGE_SIZE - 1) = unat (e_base e) + 4095"
    by (simp add: unat_word_ariths)
  then show ?thesis
    by (simp add: range_start_def unat_page_down div_mult_mod_eq minus_mod_eq_div_mult)
qed

lemma range_stop_le:
  assumes "start \<le> page_down end"
  shows "range_stop start end \<le> page_down end"
proof (cases "page_down end - start > PMM_TOP_GUARD * 2")
  case True
  have "unat (page_down end - start) = unat (page_down end) - unat start"
    using assms by (rule unat_sub)
  with True have "0x1000000 \<le> unat (page_down end)"
    by (simp add: word_less_nat_alt)
  then have "PMM_TOP_GUARD \<le> page_down end"
    by (simp add: word_le_nat_alt)
  then have "unat (page_down end - PMM_TOP_GUARD) \<le> unat (page_down end)"
    by (simp add: unat_sub)
  then have "page_down end - PMM_TOP_GUARD \<le> page_down end"
    by (simp add: word_le_nat_alt)
  then show ?thesis
    by (simp add: range_stop_def Let_def)
next
  case False
  then show ?thesis
    by (simp add: range_stop_def Let_def)
qed

lemma entry_frames_inside:
  assumes "sane_entry e" "f \<in> set (entry_frames ks ke e)"
  shows "available e" "frame_bytes f \<subseteq> entry_bytes e" "unat f + 4096 \<le> 0xC0000000"
proof -
  show av: "available e"
    using assms(2) by (auto simp: entry_frames_def split: if_splits)
  define E where "E = e_base e + clip_length (e_base e) (e_length e)"
  have E: "unat E = min (unat (e_base e) + unat (e_length e)) 0xC0000000"
    using unat_clip_end [OF assms(1) av] by (simp add: E_def)
  have len: "unat (e_base e + e_length e) = unat (e_base e) + unat (e_length e)"
    using assms(1) by (simp add: sane_entry_def unat_word_ariths)
  have b: "unat (e_base e) < 0xC0000000"
    using av by (simp add: available_def word_less_nat_alt)
  have "unat (range_start (e_base e)) \<le> (unat (e_base e) + unat (e_length e)) div 4096 * 4096"
    using assms(1) div_le_mono [of "(unat (e_base e) + 4095) div 4096 * 4096" "unat (e_base e) + unat (e_length e)" 4096]
    by (simp add: sane_entry_def unat_range_start [OF av])
  moreover have "unat (range_start (e_base e)) \<le> 0xC0000000"
    using b unat_range_start [OF av] by simp
  ultimately have "range_start (e_base e) \<le> page_down E"
    by (simp add: word_le_nat_alt unat_page_down E minus_mod_eq_div_mult min_def)
  from range_stop_le [OF this] have stop: "range_stop (range_start (e_base e)) E \<le> page_down E" .
  have f: "page_aligned f" "range_start (e_base e) \<le> f" "f < range_stop (range_start (e_base e)) E"
    using assms(2) av by (simp_all add: entry_frames_def E_def set_page_range)
  have "f + 4096 \<le> page_down E"
    using f stop by (intro page_step_le) auto
  moreover have "unat (f + 4096) = unat f + 4096"
    using f(3) by (intro page_step_no_wrap) auto
  ultimately have "unat f + 4096 \<le> unat E"
    using page_down_le [of E] by (simp add: word_le_nat_alt)
  moreover have "unat (e_base e) \<le> unat f"
    using f(2) unat_range_start [OF av] by (simp add: word_le_nat_alt)
  ultimately show "frame_bytes f \<subseteq> entry_bytes e" "unat f + 4096 \<le> 0xC0000000"
    using E by (auto simp: frame_bytes_def entry_bytes_def)
qed

lemma entry_frames_facts:
  "distinct (entry_frames ks ke e)"
  "f \<in> set (entry_frames ks ke e) \<Longrightarrow> page_aligned f \<and> \<not> pmm_is_kernel_region ks ke f"
  by (auto simp: entry_frames_def distinct_page_range set_page_range)

fun disjoint_entries :: "e820_entry list \<Rightarrow> bool" where
  "disjoint_entries [] = True"
| "disjoint_entries (e # es) \<longleftrightarrow>
     (\<forall>e' \<in> set es. available e \<longrightarrow> available e' \<longrightarrow> entry_bytes e \<inter> entry_bytes e' = {}) \<and>
     disjoint_entries es"

lemma frame_bytes_ne [simp]: "unat f \<in> frame_bytes f"
  by (simp add: frame_bytes_def)

lemma distinct_entry_frames:
  assumes "\<forall>e \<in> set es. available e \<longrightarrow> sane_entry e" "disjoint_entries es"
  shows "distinct (concat (map (entry_frames ks ke) es))"
  using assms
proof (induction es)
  case (Cons e es)
  have "False" if "f \<in> set (entry_frames ks ke e)" "e' \<in> set es" "f \<in> set (entry_frames ks ke e')"
    for f e'
  proof -
    have av: "available e" "available e'"
      using that by (auto simp: entry_frames_def split: if_splits)
    then have "sane_entry e" "sane_entry e'"
      using Cons.prems(1) that(2) by auto
    with that have "frame_bytes f \<subseteq> entry_bytes e \<inter> entry_bytes e'"
      using entry_frames_inside(2) by blast
    with Cons.prems(2) that(2) av show False
      using frame_bytes_ne [of f] by auto
  qed
  with Cons show ?case
    by (auto simp: entry_frames_facts)
qed simp

lemma kernel_region_bytes:
  assumes "page_aligned f" "page_aligned ks"
  shows "pmm_is_kernel_region ks ke f \<longleftrightarrow> frame_bytes f \<inter> {unat ks ..< unat ke} \<noteq> {}"
proof -
  have up: "unat f + 4096 \<le> unat ks" if "unat f < unat ks"
    using that assms by (auto simp: page_simps mod_eq_0_iff_dvd elim!: dvdE)
  have "pmm_is_kernel_region ks ke f \<longleftrightarrow> unat ks \<le> unat f \<and> unat f < unat ke"
    by (simp add: pmm_is_kernel_region_def word_le_nat_alt word_less_nat_alt)
  also have "\<dots> \<longleftrightarrow> (\<exists>x. unat f \<le> x \<and> x < unat f + 4096 \<and> unat ks \<le> x \<and> x < unat ke)"
  proof
    assume "unat ks \<le> unat f \<and> unat f < unat ke"
    then show "\<exists>x. unat f \<le> x \<and> x < unat f + 4096 \<and> unat ks \<le> x \<and> x < unat ke"
      by (intro exI [of _ "unat f"]) simp
  next
    assume "\<exists>x. unat f \<le> x \<and> x < unat f + 4096 \<and> unat ks \<le> x \<and> x < unat ke"
    with up show "unat ks \<le> unat f \<and> unat f < unat ke"
      by (cases "unat f < unat ks") (elim exE conjE, simp)+
  qed
  also have "\<dots> \<longleftrightarrow> (\<exists>x. x \<in> frame_bytes f \<inter> {unat ks ..< unat ke})"
    by (simp add: frame_bytes_def conj_ac)
  finally show ?thesis
    by blast
qed

lemma range_stop_ge:
  assumes "unat f + 4096 + unat PMM_TOP_GUARD \<le> unat end" "page_aligned f" "start \<le> f"
  shows "f < range_stop start end"
proof -
  obtain k where k: "unat f = 4096 * k"
    using assms(2) by (auto simp: page_simps mod_eq_0_iff_dvd elim!: dvdE)
  have "k + 4097 \<le> unat end div 4096"
    using assms(1) k div_le_mono [of "4096 * (k + 4097)" "unat end" 4096] by simp
  then have e: "unat f + 4096 + 0x1000000 \<le> unat (page_down end)"
    by (simp add: unat_page_down minus_mod_eq_div_mult k)
  then have "unat (page_down end - PMM_TOP_GUARD) = unat (page_down end) - 0x1000000"
    by (simp add: unat_sub word_le_nat_alt)
  with e show ?thesis
    by (cases "page_down end - start > PMM_TOP_GUARD * 2") (simp_all add: range_stop_def word_less_nat_alt)
qed

lemma entry_frames_complete:
  assumes "sane_entry e" "available e" "page_aligned f" "\<not> pmm_is_kernel_region ks ke f"
    and "unat (e_base e) \<le> unat f"
    and "unat f + 4096 + unat PMM_TOP_GUARD \<le> min (unat (e_base e) + unat (e_length e)) (unat PMM_MAX_ADDR)"
  shows "f \<in> set (entry_frames ks ke e)"
proof -
  define E where "E = e_base e + clip_length (e_base e) (e_length e)"
  obtain k where k: "unat f = 4096 * k"
    using assms(3) by (auto simp: page_simps mod_eq_0_iff_dvd elim!: dvdE)
  have "(unat (e_base e) + 4095) div 4096 \<le> (4096 * k + 4095) div 4096"
    using assms(5) k by (intro div_le_mono) simp
  then have start: "range_start (e_base e) \<le> f"
    by (simp add: word_le_nat_alt unat_range_start [OF assms(2)] k)
  have "f < range_stop (range_start (e_base e)) E"
    using assms(6) unat_clip_end [OF assms(1,2)] start assms(3) by (intro range_stop_ge) (simp_all add: E_def)
  with start show ?thesis
    using assms(2,3,4) by (simp add: entry_frames_def E_def set_page_range)
qed

section \<open>Reserving a region\<close>

lemma frame_index_None: "frame_index a xs = None \<longleftrightarrow> a \<notin> set xs"
  by (induction xs) auto

lemma frame_index_Some: "frame_index a xs = Some i \<Longrightarrow> i < length xs \<and> xs ! i = a"
  by (induction xs arbitrary: i) (auto split: if_splits)

lemma pmm_unlink_notin: "a \<notin> set xs \<Longrightarrow> pmm_unlink a xs = xs"
  by (simp add: pmm_unlink_def frame_index_None [THEN iffD2])

lemma pmm_unlink_mset:
  assumes "a \<in> set xs"
  shows "mset (pmm_unlink a xs) = mset xs - {#a#}"
proof -
  obtain i where i: "frame_index a xs = Some i"
    using assms by (metis frame_index_None not_None_eq)
  note ix = frame_index_Some [OF i]
  obtain ys y where xs: "xs = ys @ [y]"
    using assms by (cases xs rule: rev_cases) auto
  show ?thesis
  proof (cases "i = length ys")
    case True
    with i ix xs show ?thesis
      by (simp add: pmm_unlink_def list_update_beyond)
  next
    case False
    with i ix xs have "i < length ys" "ys ! i = a"
      by (auto simp: nth_append)
    then have "a \<in># mset ys"
      by auto
    with i xs \<open>i < length ys\<close> \<open>ys ! i = a\<close> show ?thesis
      by (simp add: pmm_unlink_def mset_update)
  qed
qed

lemma pmm_unlink_facts:
  assumes "distinct xs"
  shows "distinct (pmm_unlink a xs)" "set (pmm_unlink a xs) = set xs - {a}"
    "length (pmm_unlink a xs) \<le> length xs"
proof -
  have "distinct (pmm_unlink a xs) \<and> set (pmm_unlink a xs) = set xs - {a} \<and>
        length (pmm_unlink a xs) \<le> length xs"
  proof (cases "a \<in> set xs")
    case True
    have "distinct (remove1 a xs)" "mset (pmm_unlink a xs) = mset (remove1 a xs)"
      using assms pmm_unlink_mset [OF True] by simp_all
    then show ?thesis
      using assms mset_eq_imp_distinct_iff [of "pmm_unlink a xs" "remove1 a xs"]
        mset_eq_length [of "pmm_unlink a xs" "remove1 a xs"]
        mset_eq_setD [of "pmm_unlink a xs" "remove1 a xs"]
      by (simp add: length_remove1)
  next
    case False
    with assms show ?thesis
      by (simp add: pmm_unlink_notin)
  qed
  then show "distinct (pmm_unlink a xs)" "set (pmm_unlink a xs) = set xs - {a}"
    "length (pmm_unlink a xs) \<le> length xs"
    by auto
qed

lemma pmm_reserve_loop_spec:
  assumes "loop_bound e" "distinct xs"
  shows "\<exists>ys. pmm_reserve_loop a e xs = Some ys \<and> distinct ys \<and>
    set ys = set xs - set (page_range a e) \<and> length ys \<le> length xs"
  using assms
proof (induction a arbitrary: xs rule: page_loop_induct)
  case (stop a)
  then show ?case by (simp add: pmm_reserve_loop.simps [of a])
next
  case (step a)
  then show ?case
    using step.IH [of "pmm_unlink a xs"] pmm_unlink_facts [of xs a]
    by (fastforce simp: pmm_reserve_loop.simps [of a] page_range_Cons [OF assms(1)])
qed


lemma frame_meets_region:
  assumes "page_aligned f" "0 < sz" "unat addr + unat sz < 2 ^ 64"
  shows "page_down addr \<le> f \<and> f < addr + sz \<longleftrightarrow>
    frame_bytes f \<inter> {unat addr ..< unat addr + unat sz} \<noteq> {}"
proof -
  obtain k where k: "unat f = 4096 * k"
    using assms(1) by (auto simp: page_simps mod_eq_0_iff_dvd elim!: dvdE)
  have sz: "0 < unat sz"
    using assms(2) by (simp add: word_less_nat_alt)
  have e: "unat (addr + sz) = unat addr + unat sz"
    using assms(3) by (simp add: unat_word_ariths)
  have "page_down addr \<le> f \<longleftrightarrow> unat addr div 4096 * 4096 \<le> unat f"
    by (simp add: word_le_nat_alt unat_page_down minus_mod_eq_div_mult)
  also have "\<dots> \<longleftrightarrow> unat addr < unat f + 4096"
    using div_less_iff_less_mult [of 4096 "unat addr" "Suc k"] by (simp add: k algebra_simps less_Suc_eq_le)
  finally have "page_down addr \<le> f \<and> f < addr + sz \<longleftrightarrow>
      unat addr < unat f + 4096 \<and> unat f < unat addr + unat sz"
    by (simp add: word_less_nat_alt e)
  also have "\<dots> \<longleftrightarrow> frame_bytes f \<inter> {unat addr ..< unat addr + unat sz} \<noteq> {}"
    using sz by (auto simp: frame_bytes_def set_eq_iff intro!: exI [of _ "max (unat addr) (unat f)"])
  finally show ?thesis .
qed

section \<open>Clients of the allocator\<close>

text \<open>
  The states a client can reach from \<open>s0\<close> by allocating frames and freeing frames it holds, in
  any order; the last argument is the set of frames the client holds.
\<close>

inductive pmm_client :: "pmm \<Rightarrow> pmm \<Rightarrow> u64 set \<Rightarrow> bool" for s0 where
  client_start: "pmm_client s0 s0 {}"
| client_alloc: "pmm_client s0 s H \<Longrightarrow> pmm_alloc s = (f, s') \<Longrightarrow> f \<noteq> 0 \<Longrightarrow>
    pmm_client s0 s' (insert f H)"
| client_alloc_fail: "pmm_client s0 s H \<Longrightarrow> pmm_alloc s = (0, s') \<Longrightarrow> pmm_client s0 s' H"
| client_free: "pmm_client s0 s H \<Longrightarrow> f \<in> H \<Longrightarrow> pmm_client s0 (pmm_free f s) (H - {f})"

inductive_cases pmm_client_holds: "pmm_client s0 s (insert f H)"

lemma pmm_ok_card: "pmm_ok s \<Longrightarrow> card (pmm_frames s) = length (pmm_stack s)"
  by (simp add: pmm_ok_def pmm_frames_def distinct_card)

lemma pmm_client_inv:
  assumes "pmm_client s0 s H" "pmm_ok s0"
  shows "pmm_ok s \<and> pmm_frames s \<inter> H = {} \<and> pmm_frames s \<union> H = pmm_frames s0"
  using assms
proof (induction rule: pmm_client.induct)
  case (client_alloc s H f s')
  then show ?case
    using pm.alloc_success [of s f s'] by auto
next
  case (client_alloc_fail s H s')
  then show ?case
    using pm.alloc_fail [of s s'] by auto
next
  case (client_free s H f)
  then have f: "f \<in> pmm_frames s0" "f \<notin> pmm_frames s" and ok: "pmm_ok s"
    by auto
  have "pmm_frames s \<subset> pmm_frames s0"
    using client_free f by blast
  then have "card (pmm_frames s) < card (pmm_frames s0)"
    by (simp add: pmm_frames_def psubset_card_mono)
  then have room: "pmm_room s"
    using ok client_free.prems by (simp add: pmm_ok_card pmm_room_def pmm_ok_def)
  have "f \<noteq> 0" "page_aligned f"
    using pm.frame_valid [OF client_free.prems f(1)] by auto
  then show ?case
    using client_free f pm.free_frames [OF ok room] pm.free_ok [OF ok f(2)] by auto
qed simp

section \<open>Properties\<close>

text \<open>
  C2. \<open>pmm_init\<close> is right for every map whose available entries are sane and do not overlap, and a
  kernel image that starts at a page boundary, as linker.ld places it: it returns; the stack it builds
  satisfies the allocator's invariant (within its capacity, no frame twice, no zero and no unaligned
  frame); every frame in it lies inside one available entry and below the 3 GiB limit, and shares no
  byte with the kernel image; and unless the stack is full, every other frame that does so and ends
  16 MiB below the end of its entry and below the limit is in it.
\<close>

theorem pmm_init_sound:
  assumes "\<forall>e \<in> set mp. available e \<longrightarrow> sane_entry e" "disjoint_entries mp" "page_aligned ks"
  shows "\<exists>s. pmm_init ks ke mp = Some s \<and> pmm_ok s \<and>
    (\<forall>f \<in> pmm_frames s. frame_bytes f \<inter> {unat ks ..< unat ke} = {} \<and> unat f + 4096 \<le> unat PMM_MAX_ADDR \<and>
       (\<exists>e \<in> set mp. available e \<and> frame_bytes f \<subseteq> entry_bytes e)) \<and>
    (\<forall>e \<in> set mp. \<forall>f. pmm_room s \<and> available e \<and> f \<noteq> 0 \<and> page_aligned f \<and>
       frame_bytes f \<inter> {unat ks ..< unat ke} = {} \<and> unat (e_base e) \<le> unat f \<and>
       unat f + 4096 + unat PMM_TOP_GUARD \<le> min (unat (e_base e) + unat (e_length e)) (unat PMM_MAX_ADDR)
       \<longrightarrow> f \<in> pmm_frames s)"
proof -
  define fs where "fs = filter (\<lambda>x. x \<noteq> 0) (concat (map (entry_frames ks ke) mp))"
  define s where "s = \<lparr>pmm_stack = take PMM_STACK_SIZE fs, pmm_total_memory =
      sum_list (map (\<lambda>e. clip_length (e_base e) (e_length e)) (filter available mp))\<rparr>"
  have init: "pmm_init ks ke mp = Some s"
    by (simp add: pmm_init_eq s_def fs_def)
  have "distinct fs"
    unfolding fs_def using assms by (intro distinct_filter distinct_entry_frames)
  moreover have inside: "f \<noteq> 0 \<and> page_aligned f \<and> frame_bytes f \<inter> {unat ks ..< unat ke} = {} \<and>
      unat f + 4096 \<le> unat PMM_MAX_ADDR \<and>
      (\<exists>e \<in> set mp. available e \<and> frame_bytes f \<subseteq> entry_bytes e)" if "f \<in> set fs" for f
  proof -
    from that obtain e where e: "e \<in> set mp" "f \<in> set (entry_frames ks ke e)" "f \<noteq> 0"
      by (auto simp: fs_def)
    then have "available e"
      by (auto simp: entry_frames_def split: if_splits)
    with e assms(1) have "sane_entry e"
      by blast
    then show ?thesis
      using e entry_frames_inside [OF _ e(2)] entry_frames_facts(2) [OF e(2)] kernel_region_bytes [OF _ assms(3)] by auto
  qed
  ultimately have "pmm_ok s"
    by (auto simp: s_def pmm_ok_def dest: in_set_takeD)
  moreover have complete: "f \<in> pmm_frames s"
    if "pmm_room s" "e \<in> set mp" "available e" "f \<noteq> 0" "page_aligned f"
      "frame_bytes f \<inter> {unat ks ..< unat ke} = {}" "unat (e_base e) \<le> unat f"
      "unat f + 4096 + unat PMM_TOP_GUARD \<le> min (unat (e_base e) + unat (e_length e)) (unat PMM_MAX_ADDR)" for e f
  proof -
    have "f \<in> set (entry_frames ks ke e)"
      using that assms(1) kernel_region_bytes [OF that(5) assms(3)] by (intro entry_frames_complete) auto
    then have "f \<in> set fs"
      using that(2,4) by (auto simp: fs_def)
    moreover have "length fs < PMM_STACK_SIZE"
      using that(1) by (simp add: s_def pmm_room_def)
    ultimately show ?thesis
      by (simp add: s_def pmm_frames_def)
  qed
  moreover have "f \<in> set fs" if "f \<in> pmm_frames s" for f
    using that by (auto simp: s_def pmm_frames_def dest: in_set_takeD)
  then have "\<forall>f \<in> pmm_frames s. frame_bytes f \<inter> {unat ks ..< unat ke} = {} \<and> unat f + 4096 \<le> unat PMM_MAX_ADDR \<and>
      (\<exists>e \<in> set mp. available e \<and> frame_bytes f \<subseteq> entry_bytes e)"
    using inside by blast
  ultimately show ?thesis
    by (intro exI [of _ s] conjI init) (assumption, assumption, intro ballI allI impI, elim conjE, rule complete)
qed

theorem pmm_init_sound_witness:
  "\<exists>s. pmm_init 0x100000 0x102000 [\<lparr>e_base = 0x100000, e_length = 0x2000000, e_type = 1, e_attr = 0\<rparr>,
        \<lparr>e_base = 0x2200000, e_length = 0x1000, e_type = 2, e_attr = 0\<rparr>] = Some s \<and> pmm_ok s \<and>
     0x101000 \<notin> pmm_frames s"
proof -
  let ?mp = "[\<lparr>e_base = 0x100000, e_length = 0x2000000, e_type = 1, e_attr = 0\<rparr>, \<lparr>e_base = 0x2200000, e_length = 0x1000, e_type = 2, e_attr = 0\<rparr>]"
  have "\<forall>e \<in> set ?mp. available e \<longrightarrow> sane_entry e" "disjoint_entries ?mp" "page_aligned 0x100000"
    by (simp_all add: available_def sane_entry_def page_aligned_def)
  from pmm_init_sound [OF this, of "0x102000"] obtain s where s: "pmm_init 0x100000 0x102000 ?mp = Some s" "pmm_ok s"
      "\<forall>f \<in> pmm_frames s. frame_bytes f \<inter> {unat (0x100000 :: u64) ..< unat (0x102000 :: u64)} = {} \<and>
        unat f + 4096 \<le> unat PMM_MAX_ADDR \<and> (\<exists>e \<in> set ?mp. available e \<and> frame_bytes f \<subseteq> entry_bytes e)"
      "\<forall>e \<in> set ?mp. \<forall>f. pmm_room s \<and> available e \<and> f \<noteq> 0 \<and> page_aligned f \<and>
       frame_bytes f \<inter> {unat (0x100000 :: u64) ..< unat (0x102000 :: u64)} = {} \<and> unat (e_base e) \<le> unat f \<and>
       unat f + 4096 + unat PMM_TOP_GUARD \<le> min (unat (e_base e) + unat (e_length e)) (unat PMM_MAX_ADDR)
       \<longrightarrow> f \<in> pmm_frames s"
    by (elim exE conjE) (rule that)
  have "0x101000 \<notin> pmm_frames s"
  proof
    assume "0x101000 \<in> pmm_frames s"
    with s(3) have "frame_bytes 0x101000 \<inter> {unat (0x100000 :: u64) ..< unat (0x102000 :: u64)} = {}"
      by blast
    moreover have "unat (0x101000 :: u64) \<in> {unat (0x100000 :: u64) ..< unat (0x102000 :: u64)}"
      by simp
    ultimately show False
      using frame_bytes_ne by blast
  qed
  then show ?thesis
    using s(1,2) by blast
qed

text \<open>
  C4. Reserving a region removes from the free frames exactly those that overlap the region by
  at least one byte, keeps the invariant, and returns, for every non-empty region that ends a
  page below the top of the address space.
\<close>

theorem pmm_reserve_exact:
  assumes "pmm_ok s" "0 < sz" "unat addr + unat sz + 4096 \<le> 2 ^ 64"
  shows "\<exists>s'. pmm_reserve addr sz s = Some s' \<and> pmm_ok s' \<and>
    pmm_frames s' =
      {f \<in> pmm_frames s. frame_bytes f \<inter> {unat addr ..< unat addr + unat sz} = {}}"
proof -
  have lb: "loop_bound (addr + sz)"
    using assms(3) by (simp add: loop_bound_def unat_word_ariths)
  obtain ys where ys: "pmm_reserve_loop (page_down addr) (addr + sz) (pmm_stack s) = Some ys"
      "distinct ys" "set ys = pmm_frames s - set (page_range (page_down addr) (addr + sz))"
      "length ys \<le> length (pmm_stack s)"
    using pmm_reserve_loop_spec [OF lb, of "pmm_stack s" "page_down addr"] assms(1)
    by (auto simp: pmm_ok_def pmm_frames_def)
  have "set ys = {f \<in> pmm_frames s. \<not> (page_down addr \<le> f \<and> f < addr + sz)}"
    using assms(1) by (auto simp: ys(3) set_page_range [OF lb] pmm_ok_def pmm_frames_def)
  also have "\<dots> = {f \<in> pmm_frames s. frame_bytes f \<inter> {unat addr ..< unat addr + unat sz} = {}}"
    using assms frame_meets_region [of _ sz addr] by (auto simp: pmm_ok_def pmm_frames_def)
  finally show ?thesis
    using ys assms(1) by (auto simp: pmm_reserve_def pmm_ok_def pmm_frames_def)
qed

theorem pmm_reserve_exact_witness:
  "\<exists>s'. pmm_reserve 0x2800 0x1000 \<lparr>pmm_stack = [0x1000, 0x2000, 0x3000, 0x4000],
      pmm_total_memory = 0\<rparr> = Some s' \<and> pmm_ok s' \<and> pmm_frames s' = {0x1000, 0x4000}"
proof -
  let ?s = "\<lparr>pmm_stack = [0x1000, 0x2000, 0x3000, 0x4000], pmm_total_memory = 0\<rparr>"
  have "pmm_ok ?s"
    by (simp add: pmm_ok_def page_aligned_def)
  then obtain s' where "pmm_reserve 0x2800 0x1000 ?s = Some s'" "pmm_ok s'"
    "pmm_frames s' = {f \<in> pmm_frames ?s. frame_bytes f \<inter> {10240 ..< 14336} = {}}"
    using pmm_reserve_exact [of ?s "0x1000" "0x2800"] by auto
  moreover have "{f \<in> pmm_frames ?s. frame_bytes f \<inter> {10240 ..< 14336} = {}} = {0x1000, 0x4000}"
    by (auto simp: pmm_frames_def frame_bytes_def)
  ultimately show ?thesis
    by auto
qed


text \<open>
  C3. No frame is lost and none is handed out twice: whatever sequence of allocations and frees
  a client performs, the frames it holds and the frames the allocator holds stay disjoint and
  together are exactly the frames the allocator started with.
\<close>

theorem pmm_client_conserves:
  assumes "pmm_ok s0" "pmm_client s0 s H"
  shows "pmm_ok s \<and> pmm_frames s \<inter> H = {} \<and> pmm_frames s \<union> H = pmm_frames s0"
  using pmm_client_inv [OF assms(2,1)] .

theorem pmm_client_conserves_witness:
  "pmm_frames \<lparr>pmm_stack = [0x2000, 0x5000], pmm_total_memory = 0\<rparr> \<union> {0x3000} =
     pmm_frames \<lparr>pmm_stack = [0x2000, 0x3000, 0x5000], pmm_total_memory = 0\<rparr>"
proof -
  let ?s0 = "\<lparr>pmm_stack = [0x2000, 0x3000, 0x5000], pmm_total_memory = 0\<rparr>"
  have "pmm_client ?s0 \<lparr>pmm_stack = [0x2000, 0x3000], pmm_total_memory = 0\<rparr> {0x5000}"
    by (rule client_alloc [OF client_start]) (simp_all add: pmm_alloc_def)
  then have "pmm_client ?s0 \<lparr>pmm_stack = [0x2000], pmm_total_memory = 0\<rparr> {0x3000, 0x5000}"
    by (rule client_alloc) (simp_all add: pmm_alloc_def)
  then have "pmm_client ?s0 (pmm_free 0x5000 \<lparr>pmm_stack = [0x2000], pmm_total_memory = 0\<rparr>)
      ({0x3000, 0x5000} - {0x5000})"
    by (rule client_free) simp
  then have "pmm_client ?s0 \<lparr>pmm_stack = [0x2000, 0x5000], pmm_total_memory = 0\<rparr> {0x3000}"
    by (simp add: pmm_free_def insert_Diff_if)
  moreover have "pmm_ok ?s0"
    by (simp add: pmm_ok_def page_aligned_def)
  ultimately show ?thesis
    using pmm_client_conserves by blast
qed

text \<open>
  An available entry that contains no page boundary escapes the clipping: its rounded start is
  above its rounded end, the unsigned difference wraps, and \<open>pmm_init\<close> pushes frames that lie
  outside of the entry.
\<close>

theorem pmm_init_subpage_entry:
  "\<exists>s. pmm_init 0 0 [\<lparr>e_base = 0x1100, e_length = 0x100, e_type = 1, e_attr = 0\<rparr>] = Some s \<and>
     0x2000 \<in> pmm_frames s \<and>
     frame_bytes 0x2000 \<inter>
       entry_bytes \<lparr>e_base = 0x1100, e_length = 0x100, e_type = 1, e_attr = 0\<rparr> = {}"
proof -
  have "page_range 0x2000 (- 16773120) = 0x2000 # page_range (0x2000 + 4096) (- 16773120)"
    by (rule page_range_Cons) (simp_all add: loop_bound_def)
  then have "hd (entry_frames 0 0 \<lparr>e_base = 0x1100, e_length = 0x100, e_type = 1, e_attr = 0\<rparr>)
      = 0x2000 \<and> entry_frames 0 0 \<lparr>e_base = 0x1100, e_length = 0x100, e_type = 1, e_attr = 0\<rparr> \<noteq> []"
    by (simp add: entry_frames_def available_def range_start_def range_stop_def clip_length_def
        page_down_def pmm_is_kernel_region_def Let_def)
  then show ?thesis
    by (cases "entry_frames 0 0 \<lparr>e_base = 0x1100, e_length = 0x100, e_type = 1, e_attr = 0\<rparr>")
       (auto simp: pmm_init_eq pmm_frames_def frame_bytes_def entry_bytes_def)
qed

end
