(* ===== verification/Vm_Paging.thy ===== *)
theory Vm_Paging
  imports Vm_Pmm
begin

text \<open>
  Four-level paging, osfmk/vm/paging.c. Physical memory is a store of 64-bit words indexed by
  physical address (every table page is reached through the identity map, so a physical
  pointer is dereferenced as it stands); the machine state adds \<open>CR3\<close>, the interrupt bit of
  \<open>RFLAGS\<close>, the frame allocator and the log of addresses given to \<open>invlpg\<close>. Log output is
  left out. The translation the processor performs is the specification \<open>mmu\<close>; it is written
  from the architecture, with its own address mask, and not from the code.
\<close>

section \<open>Model\<close>

record vm_state =
  vm_mem :: "u64 \<Rightarrow> u64"
  vm_cr3 :: u64
  vm_rflags :: u64
  vm_inv :: "u64 list"
  vm_pmm :: pmm

abbreviation PAGE_PRESENT :: u64 where "PAGE_PRESENT \<equiv> 0x01"
abbreviation PAGE_WRITE :: u64 where "PAGE_WRITE \<equiv> 0x02"
abbreviation PAGE_USER :: u64 where "PAGE_USER \<equiv> 0x04"
abbreviation PAGE_PWT :: u64 where "PAGE_PWT \<equiv> 0x08"
abbreviation PAGE_PCD :: u64 where "PAGE_PCD \<equiv> 0x10"
abbreviation PAGE_PS :: u64 where "PAGE_PS \<equiv> 0x80"
abbreviation PT_FLAG_MASK :: u64 where "PT_FLAG_MASK \<equiv> 0xFFF"

definition PML4_INDEX :: "u64 \<Rightarrow> u64" where "PML4_INDEX v = drop_bit 39 v AND 0x1FF"
definition PDPT_INDEX :: "u64 \<Rightarrow> u64" where "PDPT_INDEX v = drop_bit 30 v AND 0x1FF"
definition PD_INDEX :: "u64 \<Rightarrow> u64" where "PD_INDEX v = drop_bit 21 v AND 0x1FF"
definition PT_INDEX :: "u64 \<Rightarrow> u64" where "PT_INDEX v = drop_bit 12 v AND 0x1FF"

definition pt_ptr :: "u64 \<Rightarrow> u64" where
  "pt_ptr table_phys = table_phys AND NOT PT_FLAG_MASK"

text \<open>The array accesses \<open>pt_ptr(t)[i]\<close> and \<open>pt_ptr(t)[i] = v\<close>.\<close>

definition rd :: "u64 \<Rightarrow> u64 \<Rightarrow> vm_state \<Rightarrow> u64" where
  "rd t i s = vm_mem s (pt_ptr t + 8 * i)"

definition wr :: "u64 \<Rightarrow> u64 \<Rightarrow> u64 \<Rightarrow> vm_state \<Rightarrow> vm_state" where
  "wr t i v s = s\<lparr>vm_mem := (vm_mem s)(pt_ptr t + 8 * i := v)\<rparr>"

definition present :: "u64 \<Rightarrow> bool" where "present e \<longleftrightarrow> e AND PAGE_PRESENT \<noteq> 0"
definition large :: "u64 \<Rightarrow> bool" where "large e \<longleftrightarrow> e AND PAGE_PS \<noteq> 0"

definition cli_save :: "vm_state \<Rightarrow> u64 \<times> vm_state" where
  "cli_save s = (vm_rflags s, s\<lparr>vm_rflags := vm_rflags s AND NOT 0x200\<rparr>)"

definition if_restore :: "u64 \<Rightarrow> vm_state \<Rightarrow> vm_state" where
  "if_restore f s = (if f AND 0x200 \<noteq> 0 then s\<lparr>vm_rflags := vm_rflags s OR 0x200\<rparr> else s)"

definition paging_cr3 :: "vm_state \<Rightarrow> u64" where
  "paging_cr3 s = vm_cr3 s"

definition paging_load_cr3 :: "u64 \<Rightarrow> vm_state \<Rightarrow> vm_state" where
  "paging_load_cr3 phys s = s\<lparr>vm_cr3 := phys\<rparr>"

definition invlpg :: "u64 \<Rightarrow> vm_state \<Rightarrow> vm_state" where
  "invlpg va s = s\<lparr>vm_inv := va # vm_inv s\<rparr>"

definition vm_alloc :: "vm_state \<Rightarrow> u64 \<times> vm_state" where
  "vm_alloc s = (case pmm_alloc (vm_pmm s) of (t, p) \<Rightarrow> (t, s\<lparr>vm_pmm := p\<rparr>))"

definition zero_page_table :: "u64 \<Rightarrow> vm_state \<Rightarrow> vm_state" where
  "zero_page_table phys s = fold (\<lambda>i. wr phys (of_nat i) 0) [0..<512] s"

text \<open>
  The first two levels of \<open>paging_map_page\<close>, and the absent case of the third: a slot that is
  not present gets a zeroed table. The result says whether the function continues.
\<close>

definition ensure_table :: "u64 \<Rightarrow> u64 \<Rightarrow> vm_state \<Rightarrow> bool \<times> vm_state" where
  "ensure_table tbl i s =
     (if present (rd tbl i s) then (True, s)
      else case vm_alloc s of (t, s1) \<Rightarrow>
        if t = 0 then (False, s1)
        else (True, wr tbl i (t OR PAGE_PRESENT OR PAGE_WRITE) (zero_page_table t s1)))"

text \<open>The entry of the new table that stands for page \<open>i\<close> of the 2 MiB leaf \<open>pde\<close>.\<close>

definition split_entry :: "u64 \<Rightarrow> u32 \<Rightarrow> u64 \<Rightarrow> u64" where
  "split_entry pde flags i =
     (let two_mb_base = pde AND NOT (push_bit 21 1 - 1);
          leaf_flags = pde AND (PAGE_PRESENT OR PAGE_WRITE OR PAGE_USER OR PAGE_PWT OR PAGE_PCD);
          caching = ucast flags AND (PAGE_PWT OR PAGE_PCD);
          e = (two_mb_base + push_bit 12 i) OR leaf_flags
      in if caching \<noteq> 0 then (e AND NOT (PAGE_PWT OR PAGE_PCD)) OR caching else e)"

definition split_leaf :: "u64 \<Rightarrow> u64 \<Rightarrow> u32 \<Rightarrow> u64 \<Rightarrow> vm_state \<Rightarrow> bool \<times> vm_state" where
  "split_leaf pd c flags va s =
     (let pde = rd pd c s;
          leaf_flags = pde AND (PAGE_PRESENT OR PAGE_WRITE OR PAGE_USER OR PAGE_PWT OR PAGE_PCD)
      in case vm_alloc s of (t, s1) \<Rightarrow>
        if t = 0 then (False, s1)
        else
          let s2 = fold (\<lambda>i. wr t (of_nat i) (split_entry pde flags (of_nat i))) [0..<512]
                     (zero_page_table t s1);
              s3 = wr pd c (t OR PAGE_PRESENT OR PAGE_WRITE OR (leaf_flags AND NOT PAGE_PRESENT)) s2
          in (True, invlpg va s3))"

definition ensure_pt :: "u64 \<Rightarrow> u64 \<Rightarrow> u32 \<Rightarrow> u64 \<Rightarrow> vm_state \<Rightarrow> bool \<times> vm_state" where
  "ensure_pt pd c flags va s =
     (if \<not> present (rd pd c s) then ensure_table pd c s
      else if large (rd pd c s) then split_leaf pd c flags va s
      else (True, s))"

definition pte_value :: "u64 \<Rightarrow> u32 \<Rightarrow> u64" where
  "pte_value physical_addr flags =
     (physical_addr AND NOT PT_FLAG_MASK) OR
     (ucast (flags AND 0xFFF) AND NOT PAGE_PS) OR PAGE_PRESENT"

definition paging_map_page :: "u64 \<Rightarrow> u64 \<Rightarrow> u32 \<Rightarrow> vm_state \<Rightarrow> vm_state" where
  "paging_map_page va pa flags s =
     (let a = PML4_INDEX va; b = PDPT_INDEX va; c = PD_INDEX va; d = PT_INDEX va;
          pml4 = paging_cr3 s AND NOT PT_FLAG_MASK
      in case ensure_table pml4 a s of
           (False, s1) \<Rightarrow> s1
         | (True, s1) \<Rightarrow>
             let pdpt = rd pml4 a s1
             in case ensure_table pdpt b s1 of
                  (False, s2) \<Rightarrow> s2
                | (True, s2) \<Rightarrow>
                    let pd = rd pdpt b s2
                    in case ensure_pt pd c flags va s2 of
                         (False, s3) \<Rightarrow> s3
                       | (True, s3) \<Rightarrow>
                           let pt = rd pd c s3
                           in invlpg va (wr pt d (pte_value pa flags) s3))"

partial_function (option) map_region_loop ::
  "u64 \<Rightarrow> u64 \<Rightarrow> u64 \<Rightarrow> u32 \<Rightarrow> vm_state \<Rightarrow> vm_state option" where
  "map_region_loop v p e flags s =
     (if v < e
      then map_region_loop (v + PAGE_SIZE) (p + PAGE_SIZE) e flags (paging_map_page v p flags s)
      else Some s)"

definition paging_map_region :: "u64 \<Rightarrow> u64 \<Rightarrow> u64 \<Rightarrow> u32 \<Rightarrow> vm_state \<Rightarrow> vm_state option" where
  "paging_map_region va pa sz flags s = map_region_loop va pa (va + sz) flags s"

definition paging_alloc_and_map :: "u64 \<Rightarrow> u32 \<Rightarrow> vm_state \<Rightarrow> u64 \<times> vm_state" where
  "paging_alloc_and_map va flags s =
     (case vm_alloc s of (phys, s1) \<Rightarrow>
        if phys = 0 then (0, s1) else (phys, paging_map_page va phys flags s1))"

definition copy_entries :: "u64 \<Rightarrow> u64 \<Rightarrow> nat \<Rightarrow> nat \<Rightarrow> vm_state \<Rightarrow> vm_state" where
  "copy_entries src dst m n s =
     fold (\<lambda>i s. wr dst (of_nat i) (rd src (of_nat i) s) s) [m..<n] s"

definition paging_clone_pd :: "vm_state \<Rightarrow> u64 \<times> vm_state" where
  "paging_clone_pd s =
     (case cli_save s of (eflags, s1) \<Rightarrow>
      case vm_alloc s1 of (new_pml4, s2) \<Rightarrow>
        if new_pml4 = 0 then (0, if_restore eflags s2)
        else
          let src = paging_cr3 s2;
              s3 = copy_entries src new_pml4 256 511 (zero_page_table new_pml4 s2);
              s4 = wr new_pml4 0 (rd src 0 s3) s3;
              s5 = wr new_pml4 511 (new_pml4 OR PAGE_PRESENT OR PAGE_WRITE) s4
          in (new_pml4, if_restore eflags s5))"

definition paging_vfork_clone :: "vm_state \<Rightarrow> u64 \<times> vm_state" where
  "paging_vfork_clone s =
     (let parent_cr3 = paging_cr3 s
      in case cli_save s of (eflags, s1) \<Rightarrow>
         case vm_alloc s1 of (new_pml4, s2) \<Rightarrow>
           if new_pml4 = 0 then (0, if_restore eflags s2)
           else
             let s3 = copy_entries parent_cr3 new_pml4 0 511 s2;
                 s4 = wr new_pml4 511 (new_pml4 OR PAGE_PRESENT OR PAGE_WRITE) s3
             in (new_pml4, if_restore eflags s4))"

definition paging_init :: "vm_state \<Rightarrow> vm_state" where
  "paging_init s =
     (case vm_alloc s of (new_pml4, s1) \<Rightarrow>
        let src = paging_cr3 s1;
            s2 = zero_page_table new_pml4 s1;
            s3 = wr new_pml4 0 (rd src 0 s2) s2;
            s4 = copy_entries src new_pml4 256 511 s3;
            s5 = wr new_pml4 511 (new_pml4 OR PAGE_PRESENT OR PAGE_WRITE) s4
        in paging_load_cr3 new_pml4 s5)"

section \<open>The translation of the processor\<close>

definition PHYS_MASK :: u64 where "PHYS_MASK = 0x000FFFFFFFFFF000"

text \<open>
  The physical address of the byte at \<open>va\<close>, the rights (write and user, which every level has
  to grant) and the caching bits of the leaf.
\<close>

definition mmu :: "u64 \<Rightarrow> vm_state \<Rightarrow> u64 \<Rightarrow> (u64 \<times> u64 \<times> u64) option" where
  "mmu cr3 s va =
     (let e4 = rd (cr3 AND PHYS_MASK) (PML4_INDEX va) s in
      if \<not> present e4 then None else
      let e3 = rd (e4 AND PHYS_MASK) (PDPT_INDEX va) s in
      if \<not> present e3 then None
      else if large e3
      then Some ((e3 AND PHYS_MASK AND NOT (mask 30)) OR (va AND mask 30), e4 AND e3 AND 6, e3 AND 0x18)
      else
      let e2 = rd (e3 AND PHYS_MASK) (PD_INDEX va) s in
      if \<not> present e2 then None
      else if large e2
      then Some ((e2 AND PHYS_MASK AND NOT (mask 21)) OR (va AND mask 21),
                 e4 AND e3 AND e2 AND 6, e2 AND 0x18)
      else
      let e1 = rd (e2 AND PHYS_MASK) (PT_INDEX va) s in
      if \<not> present e1 then None
      else Some ((e1 AND PHYS_MASK) OR (va AND mask 12), e4 AND e3 AND e2 AND e1 AND 6, e1 AND 0x18))"


section \<open>Reading and writing entries\<close>

lemma pt_ptr_page_down: "pt_ptr t = page_down t"
  by (simp add: pt_ptr_def page_down_def)

lemma pt_ptr_aligned [simp, intro]: "page_aligned (pt_ptr t)"
  by (simp add: pt_ptr_page_down)

lemma pt_ptr_id [simp]: "page_aligned t \<Longrightarrow> pt_ptr t = t"
  by (simp add: pt_ptr_page_down page_down_id)

lemma unat_entry_addr:
  assumes "page_aligned t" "i < 512"
  shows "unat (t + 8 * i) = unat t + 8 * unat i"
proof -
  have i: "unat i < 512"
    using assms(2) by (simp add: word_less_nat_alt)
  have "unat t + 4096 \<le> 2 ^ 64"
    using assms(1) aligned_loop_bound by (simp add: loop_bound_def)
  with i show ?thesis
    by (simp add: unat_word_ariths)
qed

lemma entry_addr_inj:
  assumes "page_aligned t" "page_aligned u" "i < 512" "j < 512"
  shows "t + 8 * i = u + 8 * j \<longleftrightarrow> t = u \<and> i = j"
proof -
  obtain k m where km: "unat t = 4096 * k" "unat u = 4096 * m"
    using assms by (auto simp: page_simps mod_eq_0_iff_dvd elim!: dvdE)
  have ij: "unat i < 512" "unat j < 512"
    using assms by (simp_all add: word_less_nat_alt)
  have "t + 8 * i = u + 8 * j \<longleftrightarrow> 4096 * k + 8 * unat i = 4096 * m + 8 * unat j"
    using assms by (simp add: word_unat_eq_iff unat_entry_addr km)
  also have "\<dots> \<longleftrightarrow> k = m \<and> unat i = unat j"
  proof
    assume eq: "4096 * k + 8 * unat i = 4096 * m + 8 * unat j"
    then have "(4096 * k + 8 * unat i) div 4096 = (4096 * m + 8 * unat j) div 4096"
      by (rule arg_cong)
    with ij have "k = m"
      by simp
    with eq show "k = m \<and> unat i = unat j"
      by simp
  qed simp
  finally show ?thesis
    by (simp add: word_unat_eq_iff km)
qed

lemma rd_pt_ptr [simp]: "rd (pt_ptr t) i s = rd t i s"
  by (simp add: rd_def)

lemma rd_wr:
  assumes "i < 512" "j < 512"
  shows "rd t i (wr u j v s) = (if pt_ptr t = pt_ptr u \<and> i = j then v else rd t i s)"
  using entry_addr_inj [OF pt_ptr_aligned pt_ptr_aligned assms] by (simp add: rd_def wr_def)

lemma of_nat_less_512: "n < 512 \<Longrightarrow> (of_nat n :: u64) < 512"
  by (simp add: word_less_nat_alt unat_of_nat)

lemma rd_fold_wr:
  assumes "i < 512" "n \<le> 512"
  shows "rd t i (fold (\<lambda>k. wr u (of_nat k) (f k)) [0..<n] s) =
    (if pt_ptr t = pt_ptr u \<and> unat i < n then f (unat i) else rd t i s)"
  using assms(2)
proof (induction n)
  case (Suc n)
  then have "i = of_nat n \<longleftrightarrow> unat i = n"
    by (auto simp: word_unat_eq_iff unat_of_nat)
  with Suc show ?case
    by (auto simp: rd_wr [OF assms(1)] of_nat_less_512)
qed simp

lemma rd_zero_page_table:
  "i < 512 \<Longrightarrow> rd t i (zero_page_table u s) = (if pt_ptr t = pt_ptr u then 0 else rd t i s)"
  by (simp add: zero_page_table_def rd_fold_wr word_less_nat_alt)

lemma rd_copy_entries:
  assumes "i < 512" "n \<le> 512" "pt_ptr src \<noteq> pt_ptr dst"
  shows "rd t i (copy_entries src dst m n s) =
    (if pt_ptr t = pt_ptr dst \<and> m \<le> unat i \<and> unat i < n then rd src i s else rd t i s)"
  using assms(2) unfolding copy_entries_def
proof (induction n arbitrary: t)
  case (Suc n)
  show ?case
  proof (cases "m \<le> n")
    case True
    have "i = of_nat n \<longleftrightarrow> unat i = n"
      using Suc.prems by (auto simp: word_unat_eq_iff unat_of_nat)
    with Suc True assms show ?thesis
      by (auto simp: rd_wr [OF assms(1)] of_nat_less_512)
  qed (use Suc.prems in auto)
qed simp

lemma fold_wr_fields:
  "vm_cr3 (fold (\<lambda>k. wr u (g k) (f k)) ks s) = vm_cr3 s"
  "vm_pmm (fold (\<lambda>k. wr u (g k) (f k)) ks s) = vm_pmm s"
  "vm_rflags (fold (\<lambda>k. wr u (g k) (f k)) ks s) = vm_rflags s"
  by (induction ks arbitrary: s) (simp_all add: wr_def)

lemma copy_entries_fields:
  "vm_cr3 (copy_entries src dst m n s) = vm_cr3 s"
  "vm_pmm (copy_entries src dst m n s) = vm_pmm s"
  "vm_rflags (copy_entries src dst m n s) = vm_rflags s"
proof -
  have "vm_cr3 (fold (\<lambda>i s. wr dst (of_nat i) (rd src (of_nat i) s) s) ks s) = vm_cr3 s \<and>
    vm_pmm (fold (\<lambda>i s. wr dst (of_nat i) (rd src (of_nat i) s) s) ks s) = vm_pmm s \<and>
    vm_rflags (fold (\<lambda>i s. wr dst (of_nat i) (rd src (of_nat i) s) s) ks s) = vm_rflags s" for ks
    by (induction ks arbitrary: s) (simp_all add: wr_def)
  then show "vm_cr3 (copy_entries src dst m n s) = vm_cr3 s"
    "vm_pmm (copy_entries src dst m n s) = vm_pmm s"
    "vm_rflags (copy_entries src dst m n s) = vm_rflags s"
    by (simp_all add: copy_entries_def)
qed

lemma vm_fields [simp]:
  "vm_cr3 (wr t i v s) = vm_cr3 s" "vm_pmm (wr t i v s) = vm_pmm s"
  "vm_rflags (wr t i v s) = vm_rflags s"
  "vm_cr3 (zero_page_table t s) = vm_cr3 s" "vm_pmm (zero_page_table t s) = vm_pmm s"
  "vm_rflags (zero_page_table t s) = vm_rflags s"
  "vm_cr3 (invlpg a s) = vm_cr3 s" "vm_pmm (invlpg a s) = vm_pmm s"
  "rd t i (invlpg a s) = rd t i s"
  "rd t i (s\<lparr>vm_pmm := p\<rparr>) = rd t i s" "rd t i (s\<lparr>vm_rflags := r\<rparr>) = rd t i s"
  "rd t i (s\<lparr>vm_cr3 := r\<rparr>) = rd t i s"
  by (simp_all add: wr_def zero_page_table_def fold_wr_fields invlpg_def rd_def)

lemma index_bounds [simp]:
  "PML4_INDEX v < 512" "PDPT_INDEX v < 512" "PD_INDEX v < 512" "PT_INDEX v < 512"
proof -
  have "x AND 0x1FF < (512 :: u64)" for x
    using unat_and_mask [of x 9] by (simp add: word_less_nat_alt mask_eq_exp_minus_1)
  then show "PML4_INDEX v < 512" "PDPT_INDEX v < 512" "PD_INDEX v < 512" "PT_INDEX v < 512"
    by (simp_all add: PML4_INDEX_def PDPT_INDEX_def PD_INDEX_def PT_INDEX_def)
qed


section \<open>The tables as a tree of entries\<close>

text \<open>
  \<open>tab s p\<close> is the table at the index path \<open>p\<close> (last index first) and \<open>ent s p i\<close> its entry
  \<open>i\<close>, zero when there is no table. Paths through the recursive slot 511 of the root are left
  out. The invariant: the tables of different paths are different pages, none of them is a
  free frame, and all of them lie in the physical address space.
\<close>

fun tab :: "vm_state \<Rightarrow> u64 list \<Rightarrow> u64 option" where
  "tab s [] = Some (pt_ptr (vm_cr3 s))"
| "tab s (i # p) =
     (case tab s p of None \<Rightarrow> None
      | Some t \<Rightarrow> if present (rd t i s) \<and> \<not> large (rd t i s) then Some (pt_ptr (rd t i s)) else None)"

definition ent :: "vm_state \<Rightarrow> u64 list \<Rightarrow> u64 \<Rightarrow> u64" where
  "ent s p i = (case tab s p of None \<Rightarrow> 0 | Some t \<Rightarrow> rd t i s)"

definition vpath :: "u64 list \<Rightarrow> bool" where
  "vpath p \<longleftrightarrow> length p \<le> 3 \<and> (\<forall>i \<in> set p. i < 512) \<and> (p \<noteq> [] \<longrightarrow> last p \<noteq> 511)"

definition phys_ok :: "u64 \<Rightarrow> bool" where
  "phys_ok t \<longleftrightarrow> t AND PHYS_MASK = t"

definition vm_wf :: "vm_state \<Rightarrow> bool" where
  "vm_wf s \<longleftrightarrow> pmm_ok (vm_pmm s) \<and> (\<forall>f \<in> pmm_frames (vm_pmm s). phys_ok f) \<and>
     (\<forall>p t. vpath p \<longrightarrow> tab s p = Some t \<longrightarrow> phys_ok t \<and> t \<notin> pmm_frames (vm_pmm s)) \<and>
     (\<forall>p q t. vpath p \<longrightarrow> vpath q \<longrightarrow> tab s p = Some t \<longrightarrow> tab s q = Some t \<longrightarrow> p = q) \<and>
     (\<forall>p i. vpath (i # p) \<longrightarrow> length p \<le> 1 \<longrightarrow> present (ent s p i) \<longrightarrow> \<not> large (ent s p i))"

lemma not_present_0 [simp]: "\<not> present 0" "\<not> large 0"
  by (simp_all add: present_def large_def)

lemma tab_Cons: "tab s (i # p) =
    (if present (ent s p i) \<and> \<not> large (ent s p i) then Some (pt_ptr (ent s p i)) else None)"
  by (simp add: ent_def split: option.split)

lemma tab_aligned: "tab s p = Some t \<Longrightarrow> page_aligned t"
  by (cases p) (auto split: option.splits if_splits)

lemma vpath_Cons: "vpath (i # p) \<longleftrightarrow> length p < 3 \<and> i < 512 \<and> (p = [] \<longrightarrow> i \<noteq> 511) \<and> vpath p"
  by (auto simp: vpath_def)

lemma vpath_Nil [simp]: "vpath []"
  by (simp add: vpath_def)

lemma vm_wfD:
  assumes "vm_wf s"
  shows "pmm_ok (vm_pmm s)"
    "f \<in> pmm_frames (vm_pmm s) \<Longrightarrow> phys_ok f"
    "vpath p \<Longrightarrow> tab s p = Some t \<Longrightarrow> phys_ok t"
    "vpath p \<Longrightarrow> tab s p = Some t \<Longrightarrow> t \<notin> pmm_frames (vm_pmm s)"
    "vpath p \<Longrightarrow> vpath q \<Longrightarrow> tab s p = Some t \<Longrightarrow> tab s q = Some t \<Longrightarrow> p = q"
    "vpath (i # p) \<Longrightarrow> length p \<le> 1 \<Longrightarrow> present (ent s p i) \<Longrightarrow> \<not> large (ent s p i)"
  using assms unfolding vm_wf_def by blast+

lemma aligned_and_low:
  assumes "page_aligned t" "m AND 0xFFF = m"
  shows "t AND m = 0"
proof -
  have "t AND m = (t AND 0xFFF) AND m"
    using assms(2) by (metis and.assoc and.commute)
  with assms(1) show ?thesis
    by (simp add: page_aligned_def)
qed

lemma and_out:
  fixes x y m :: "'a::len word"
  shows "(x OR y) AND m = (x AND m) OR (y AND m)"
  by (simp add: bit.conj_disj_distrib2)

lemma aligned_or_flags:
  assumes "page_aligned t" "f AND 0xFFF = f"
  shows "pt_ptr (t OR f) = t" "present (t OR f) = present f" "large (t OR f) = large f"
proof -
  have "f AND NOT 0xFFF = 0"
    using assms(2) by (metis and.assoc bit.conj_cancel_right bit.conj_zero_right)
  moreover have "t AND NOT 0xFFF = t"
    using pt_ptr_id [OF assms(1)] by (simp add: pt_ptr_def)
  ultimately show "pt_ptr (t OR f) = t"
    by (simp add: pt_ptr_def bit.conj_disj_distrib2)
  show "present (t OR f) = present f" "large (t OR f) = large f"
    using aligned_and_low [OF assms(1)]
    by (simp_all add: present_def large_def bit.conj_disj_distrib2)
qed

text \<open>The effect on the tree of writing one slot, possibly linking a new table there.\<close>

definition slot_write ::
  "vm_state \<Rightarrow> vm_state \<Rightarrow> u64 list \<Rightarrow> u64 \<Rightarrow> u64 \<Rightarrow> u64 \<Rightarrow> (u64 \<Rightarrow> u64) \<Rightarrow> bool" where
  "slot_write s s' p i v t g \<longleftrightarrow>
     vm_wf s \<and> vpath p \<and> i < 512 \<and> vm_cr3 s' = vm_cr3 s \<and> tab s p \<noteq> None \<and>
     (\<forall>q j y. vpath q \<longrightarrow> j < 512 \<longrightarrow> tab s q = Some y \<longrightarrow>
        rd y j s' = (if q = p \<and> j = i then v else rd y j s)) \<and>
     (if length p < 3
      then tab s (i # p) = None \<and> present v \<and> \<not> large v \<and> pt_ptr v = t \<and>
           (\<forall>j < 512. rd t j s' = g j) \<and> (length p < 2 \<longrightarrow> (\<forall>j. g j = 0)) \<and>
           t \<in> pmm_frames (vm_pmm s) \<and> pmm_ok (vm_pmm s') \<and>
           pmm_frames (vm_pmm s') = pmm_frames (vm_pmm s) - {t}
      else vm_pmm s' = vm_pmm s)"

lemma tab_slot_write:
  assumes "slot_write s s' p i v t g"
  shows "vpath q \<Longrightarrow> tab s' q = (if q = i # p then Some t else tab s q)"
proof (induction q)
  case Nil
  then show ?case using assms by (simp add: slot_write_def)
next
  case (Cons j q)
  then have q: "vpath q" "j < 512" "length q < 3"
    by (simp_all add: vpath_Cons)
  show ?case
  proof (cases "q = i # p")
    case True
    then have "rd t j s' = 0" "tab s (i # p) = None"
      using assms q by (simp_all add: slot_write_def)
    with True Cons q show ?thesis by simp
  next
    case False
    then have tq: "tab s' q = tab s q"
      using Cons q by simp
    show ?thesis
    proof (cases "tab s q")
      case None
      with tq assms show ?thesis by (auto simp: slot_write_def)
    next
      case (Some y)
      with assms q have "rd y j s' = (if q = p \<and> j = i then v else rd y j s)"
        by (simp add: slot_write_def)
      with tq Some q assms show ?thesis
        by (auto simp: slot_write_def split: if_splits)
    qed
  qed
qed

lemma ent_slot_write:
  assumes "slot_write s s' p i v t g" "vpath q" "j < 512"
  shows "ent s' q j =
    (if q = p \<and> j = i then v else if q = i # p \<and> length p < 3 then g j else ent s q j)"
proof (cases "q = i # p")
  case True
  then have "length p < 3" "tab s' q = Some t"
    using assms tab_slot_write [OF assms(1,2)] by (simp_all add: vpath_Cons)
  with True assms show ?thesis
    by (simp add: ent_def [of s'] slot_write_def)
next
  case False
  then have tq: "tab s' q = tab s q"
    using tab_slot_write [OF assms(1,2)] by simp
  show ?thesis
  proof (cases "tab s q")
    case None
    with tq False assms(1) show ?thesis
      by (auto simp: ent_def slot_write_def)
  next
    case (Some y)
    with assms have "rd y j s' = (if q = p \<and> j = i then v else rd y j s)"
      by (simp add: slot_write_def)
    with tq Some False show ?thesis
      by (simp add: ent_def)
  qed
qed

lemma wf_slot_write:
  assumes "slot_write s s' p i v t g"
  shows "vm_wf s'"
proof -
  have "vm_wf s"
    using assms by (simp add: slot_write_def)
  note w = vm_wfD [OF this]
  note tab' = tab_slot_write [OF assms] and ent' = ent_slot_write [OF assms]
  have fr: "pmm_ok (vm_pmm s')" "pmm_frames (vm_pmm s') \<subseteq> pmm_frames (vm_pmm s)"
    using assms w(1) by (auto simp: slot_write_def split: if_splits)
  have t: "length p < 3" "t \<in> pmm_frames (vm_pmm s)" "t \<notin> pmm_frames (vm_pmm s')" if "vpath (i # p)"
    using that assms by (simp_all add: slot_write_def vpath_Cons)
  show ?thesis
    unfolding vm_wf_def
  proof (intro conjI allI ballI impI)
    fix q y assume q: "vpath q" "tab s' q = Some y"
    then show "phys_ok y" "y \<notin> pmm_frames (vm_pmm s')"
      using w(2-4) t fr by (auto simp: tab' split: if_splits)
  next
    fix q r y assume "vpath q" "vpath r" "tab s' q = Some y" "tab s' r = Some y"
    then show "q = r"
      using w(4,5) t by (auto simp: tab' split: if_splits)
  next
    fix q j assume a: "vpath (j # q)" "length q \<le> 1" "present (ent s' q j)"
    then have "vpath q" "j < 512"
      by (simp_all add: vpath_Cons)
    with a show "\<not> large (ent s' q j)"
      using w(6) [of j q] assms by (auto simp: ent' slot_write_def split: if_splits)
  qed (use fr w(2) in auto)
qed


declare tab.simps(2) [simp del]

section \<open>The walk of the processor on the tree\<close>

definition leaf_of :: "u64 \<Rightarrow> u64 \<Rightarrow> u64 \<Rightarrow> u64 \<Rightarrow> u64 \<Rightarrow> (u64 \<times> u64 \<times> u64) option" where
  "leaf_of va e4 e3 e2 e1 =
     (if \<not> present e2 then None
      else if large e2
      then Some ((e2 AND PHYS_MASK AND NOT (mask 21)) OR (va AND mask 21),
                 e4 AND e3 AND e2 AND 6, e2 AND 0x18)
      else if \<not> present e1 then None
      else Some ((e1 AND PHYS_MASK) OR (va AND mask 12), e4 AND e3 AND e2 AND e1 AND 6, e1 AND 0x18))"

definition kernel_va :: "u64 \<Rightarrow> bool" where
  "kernel_va va \<longleftrightarrow> PML4_INDEX va \<noteq> 511"

lemma rd_phys_ok:
  assumes "phys_ok (pt_ptr e)"
  shows "rd (e AND PHYS_MASK) i s = rd e i s"
proof -
  have "pt_ptr (e AND PHYS_MASK) = pt_ptr e AND PHYS_MASK"
    unfolding pt_ptr_def by (simp only: and.assoc and.commute and.left_commute)
  with assms have "pt_ptr (e AND PHYS_MASK) = pt_ptr e"
    by (simp only: phys_ok_def)
  then show ?thesis
    by (simp add: rd_def)
qed

lemma walk_paths [simp]:
  "kernel_va va \<Longrightarrow> vpath [PML4_INDEX va]"
  "kernel_va va \<Longrightarrow> vpath [PDPT_INDEX va, PML4_INDEX va]"
  "kernel_va va \<Longrightarrow> vpath [PD_INDEX va, PDPT_INDEX va, PML4_INDEX va]"
  by (simp_all add: vpath_Cons kernel_va_def)

lemma rd_tab:
  assumes "vm_wf s" "vpath (i # p)" "tab s (i # p) = Some t"
  shows "rd (ent s p i AND PHYS_MASK) j s = ent s (i # p) j"
proof -
  have "t = pt_ptr (ent s p i)"
    using assms(3) by (simp add: tab_Cons split: if_splits)
  with vm_wfD(3) [OF assms] show ?thesis
    using assms(3) by (simp add: rd_phys_ok ent_def [of s "i # p"])
qed

lemma ent_absent: "\<not> present (ent s p i) \<or> large (ent s p i) \<Longrightarrow> ent s (i # p) j = 0"
  by (auto simp: ent_def [of s "i # p"] tab_Cons)

lemma mmu_ent:
  assumes "vm_wf s" "kernel_va va"
  shows "mmu (vm_cr3 s) s va =
    (let a = PML4_INDEX va; b = PDPT_INDEX va; c = PD_INDEX va; d = PT_INDEX va
     in leaf_of va (ent s [] a) (ent s [a] b) (ent s [b, a] c) (ent s [c, b, a] d))"
proof -
  define a b c d where ix: "a = PML4_INDEX va" "b = PDPT_INDEX va" "c = PD_INDEX va" "d = PT_INDEX va"
  have vp: "vpath [a]" "vpath [b, a]" "vpath [c, b, a]"
    using assms(2) by (simp_all add: ix)
  have root: "rd (vm_cr3 s AND PHYS_MASK) i s = ent s [] i" for i
    using vm_wfD(3) [OF assms(1) vpath_Nil] by (simp add: rd_phys_ok ent_def)
  have step: "rd (ent s p i AND PHYS_MASK) j s = ent s (i # p) j"
    if "vpath (i # p)" "present (ent s p i)" "\<not> large (ent s p i)" for p i j
    using that rd_tab [OF assms(1)] by (simp add: tab_Cons)
  have l: "\<not> large (ent s [] a)" if "present (ent s [] a)"
    using that vm_wfD(6) [OF assms(1) vp(1)] by simp
  have l': "\<not> large (ent s [a] b)" if "present (ent s [a] b)"
    using that vm_wfD(6) [OF assms(1) vp(2)] by simp
  show ?thesis
  proof (cases "present (ent s [] a) \<and> present (ent s [a] b)")
    case True
    then show ?thesis
      using l l' by (simp add: mmu_def Let_def leaf_of_def ix [symmetric] root step vp)
  next
    case False
    then have "ent s [b, a] c = 0"
      using ent_absent [of s "[]" a b] ent_absent [of s "[a]" b c] by auto
    with False l show ?thesis
      by (auto simp add: mmu_def Let_def leaf_of_def ix [symmetric] root step vp)
  qed
qed

text \<open>
  What a step that only prepares tables guarantees: the invariant, the same root, frames only
  taken from the allocator (at most \<open>n\<close>), and the translation of every address outside of the
  recursive window kept.
\<close>

definition keeps :: "(u64 \<times> u64 \<times> u64 \<Rightarrow> 'a) \<Rightarrow> vm_state \<Rightarrow> vm_state \<Rightarrow> bool" where
  "keeps h s s' \<longleftrightarrow> (\<forall>va. kernel_va va \<longrightarrow>
     map_option h (mmu (vm_cr3 s) s' va) = map_option h (mmu (vm_cr3 s) s va))"

definition prepared :: "nat \<Rightarrow> vm_state \<Rightarrow> vm_state \<Rightarrow> bool" where
  "prepared n s s' \<longleftrightarrow> vm_wf s' \<and> vm_cr3 s' = vm_cr3 s \<and>
     pmm_frames (vm_pmm s') \<subseteq> pmm_frames (vm_pmm s) \<and>
     card (pmm_frames (vm_pmm s)) \<le> card (pmm_frames (vm_pmm s')) + n"

lemma keeps_refl [simp]: "keeps h s s"
  by (simp add: keeps_def)

lemma keeps_trans: "keeps h s s' \<Longrightarrow> keeps h s' s'' \<Longrightarrow> vm_cr3 s' = vm_cr3 s \<Longrightarrow> keeps h s s''"
  by (simp add: keeps_def)

lemma keeps_id: "keeps id s s' \<Longrightarrow> keeps h s s'"
  by (simp add: keeps_def option.map_id)

lemma prepared_refl [simp]: "vm_wf s \<Longrightarrow> prepared n s s"
  by (simp add: prepared_def)

lemma prepared_trans: "prepared m s s' \<Longrightarrow> prepared n s' s'' \<Longrightarrow> prepared (m + n) s s''"
  by (auto simp: prepared_def)

lemma prepared_slot_write:
  assumes "slot_write s s' p i v t g"
  shows "prepared 1 s s'"
proof -
  have "card (pmm_frames (vm_pmm s)) \<le> card (pmm_frames (vm_pmm s) - {x}) + 1" for x
    by (simp add: pmm_frames_def card_Diff_singleton_if) arith
  with assms wf_slot_write [OF assms] show ?thesis
    by (auto simp: prepared_def slot_write_def split: if_splits)
qed

lemma keeps_link:
  assumes w: "slot_write s s' p i v t (\<lambda>_. 0)" and absent: "\<not> present (ent s p i)" "length p < 3"
  shows "keeps id s s'"
  unfolding keeps_def option.map_id id_apply
proof (intro allI impI)
  fix va assume k: "kernel_va va"
  let ?a = "PML4_INDEX va" and ?b = "PDPT_INDEX va" and ?c = "PD_INDEX va" and ?d = "PT_INDEX va"
  have wf: "vm_wf s" "vm_cr3 s' = vm_cr3 s" and v: "present v" "\<not> large v"
    using w absent(2) by (simp_all add: slot_write_def)
  note ent' = ent_slot_write [OF w]
  have m: "mmu (vm_cr3 s) s' va = leaf_of va (ent s' [] ?a) (ent s' [?a] ?b) (ent s' [?b, ?a] ?c)
      (ent s' [?c, ?b, ?a] ?d)"
    using mmu_ent [OF wf_slot_write [OF w] k] wf(2) by (simp add: Let_def)
  have m0: "mmu (vm_cr3 s) s va = leaf_of va (ent s [] ?a) (ent s [?a] ?b) (ent s [?b, ?a] ?c)
      (ent s [?c, ?b, ?a] ?d)"
    using mmu_ent [OF wf(1) k] by (simp add: Let_def)
  have z: "ent s (i # p) j = 0" for j
    using absent ent_absent by blast
  consider "p = []" "i = ?a" | "p = [?a]" "i = ?b" | "p = [?b, ?a]" "i = ?c"
    | "\<not> (p = [] \<and> i = ?a \<or> p = [?a] \<and> i = ?b \<or> p = [?b, ?a] \<and> i = ?c)"
    by blast
  then show "mmu (vm_cr3 s) s' va = mmu (vm_cr3 s) s va"
  proof cases
    case 1
    then have "ent s [?b, ?a] ?c = 0" "ent s' [?b, ?a] ?c = 0"
      using k z ent_absent [of s "[?a]" ?b ?c] by (simp_all add: ent')
    then show ?thesis by (simp add: m m0 leaf_of_def)
  next
    case 2
    then have "ent s [?b, ?a] ?c = 0" "ent s' [?b, ?a] ?c = 0"
      using k z by (simp_all add: ent')
    then show ?thesis by (simp add: m m0 leaf_of_def)
  next
    case 3
    then have "ent s' [?b, ?a] ?c = v" "ent s' [?c, ?b, ?a] ?d = 0"
      using k by (simp_all add: ent')
    with 3 v absent(1) show ?thesis by (simp add: m m0 leaf_of_def)
  next
    case 4
    then have "ent s' [] ?a = ent s [] ?a" "ent s' [?a] ?b = ent s [?a] ?b"
        "ent s' [?b, ?a] ?c = ent s [?b, ?a] ?c" "ent s' [?c, ?b, ?a] ?d = ent s [?c, ?b, ?a] ?d"
      using k absent(2) by (auto simp: ent')
    then show ?thesis by (simp add: m m0)
  qed
qed


section \<open>The steps of paging_map_page\<close>

lemma vm_alloc_frame:
  assumes "vm_wf s" "pmm_frames (vm_pmm s) \<noteq> {}"
  obtains t p where "vm_alloc s = (t, s\<lparr>vm_pmm := p\<rparr>)" "t \<noteq> 0" "t \<in> pmm_frames (vm_pmm s)"
    "page_aligned t" "pmm_ok p" "pmm_frames p = pmm_frames (vm_pmm s) - {t}"
    "pmm_alloc (vm_pmm s) = (t, p)"
proof -
  have ok: "pmm_ok (vm_pmm s)"
    using assms(1) by (rule vm_wfD(1))
  obtain t p where tp: "pmm_alloc (vm_pmm s) = (t, p)"
    by fastforce
  have "t \<noteq> 0"
    using pm.alloc_zero_iff [OF ok] assms(2) tp by simp
  with pm.alloc_success [OF ok tp] tp that show ?thesis
    by (simp add: vm_alloc_def)
qed

lemma vm_alloc_empty:
  assumes "vm_wf s" "pmm_frames (vm_pmm s) = {}"
  shows "vm_alloc s = (0, s)"
  using pm.alloc_empty [OF vm_wfD(1) [OF assms(1)] assms(2)] by (simp add: vm_alloc_def)

lemma ent_root: "tab s p = Some (pt_ptr tbl) \<Longrightarrow> ent s p i = rd tbl i s"
  by (simp add: ent_def)

lemma slot_write_fresh:
  assumes wf: "vm_wf s" and vp: "vpath (i # p)" and tbl: "tab s p = Some (pt_ptr tbl)"
    and slot: "tab s (i # p) = None"
    and t: "t \<in> pmm_frames (vm_pmm s)" "page_aligned t"
    and pm': "pmm_ok pm'" "pmm_frames pm' = pmm_frames (vm_pmm s) - {t}"
    and v: "v = t OR f" "f AND 0xFFF = f" "present f" "\<not> large f"
    and g: "length p < 2 \<Longrightarrow> \<forall>j. g j = 0"
    and s2: "vm_cr3 s2 = vm_cr3 s" "vm_pmm s2 = pm'"
      "\<And>u j. j < 512 \<Longrightarrow> rd u j s2 = (if pt_ptr u = t then g j else rd u j s)"
  shows "slot_write s (wr tbl i v s2) p i v t g"
proof -
  have p: "vpath p" "i < 512" "length p < 3"
    using vp by (simp_all add: vpath_Cons)
  have fresh: "tab s q = Some y \<Longrightarrow> vpath q \<Longrightarrow> y \<noteq> t" for q y
    using vm_wfD(4) [OF wf] t(1) by blast
  have "rd y j (wr tbl i v s2) = (if q = p \<and> j = i then v else rd y j s)"
    if "vpath q" "j < 512" "tab s q = Some y" for q j y
  proof -
    have "pt_ptr y = y"
      using tab_aligned [OF that(3)] by simp
    moreover have "y = pt_ptr tbl \<longleftrightarrow> q = p"
      using that p tbl vm_wfD(5) [OF wf] by auto
    ultimately show ?thesis
      using that p fresh [OF that(3,1)] by (simp add: rd_wr s2(3))
  qed
  moreover have "rd t j (wr tbl i v s2) = g j" if "j < 512" for j
    using that p fresh [OF tbl p(1)] t(2) by (simp add: rd_wr s2(3))
  ultimately show ?thesis
    using wf p tbl slot t pm' v g s2 aligned_or_flags [OF t(2) v(2)]
    by (simp add: slot_write_def)
qed

lemma ensure_table_link:
  assumes "vm_wf s" "vpath (i # p)" "tab s p = Some (pt_ptr tbl)" "\<not> present (ent s p i)"
    "pmm_frames (vm_pmm s) \<noteq> {}"
  obtains s1 t where "ensure_table tbl i s = (True, s1)"
    "slot_write s s1 p i (t OR (PAGE_PRESENT OR PAGE_WRITE)) t (\<lambda>_. 0)" "page_aligned t"
proof -
  obtain t p' where t: "vm_alloc s = (t, s\<lparr>vm_pmm := p'\<rparr>)" "t \<noteq> 0" "t \<in> pmm_frames (vm_pmm s)"
    "page_aligned t" "pmm_ok p'" "pmm_frames p' = pmm_frames (vm_pmm s) - {t}"
    "pmm_alloc (vm_pmm s) = (t, p')"
    using vm_alloc_frame [OF assms(1,5)] .
  define s2 where "s2 = zero_page_table t (s\<lparr>vm_pmm := p'\<rparr>)"
  have "slot_write s (wr tbl i (t OR (PAGE_PRESENT OR PAGE_WRITE)) s2) p i
      (t OR (PAGE_PRESENT OR PAGE_WRITE)) t (\<lambda>_. 0)"
    using assms t
    by (intro slot_write_fresh [where pm' = p' and f = "PAGE_PRESENT OR PAGE_WRITE"])
       (simp_all add: s2_def tab_Cons rd_zero_page_table present_def large_def)
  moreover have "ensure_table tbl i s = (True, wr tbl i (t OR (PAGE_PRESENT OR PAGE_WRITE)) s2)"
    using assms t by (simp add: ensure_table_def ent_root s2_def or.assoc)
  ultimately show ?thesis
    using that t(4) by blast
qed

lemma ensure_table_step:
  assumes "vm_wf s" "vpath (i # p)" "tab s p = Some (pt_ptr tbl)"
    "\<not> large (ent s p i) \<or> \<not> present (ent s p i)" "pmm_frames (vm_pmm s) \<noteq> {}"
  obtains s1 where "ensure_table tbl i s = (True, s1)" "prepared 1 s s1" "keeps id s s1"
    "tab s1 p = Some (pt_ptr tbl)" "tab s1 (i # p) = Some (pt_ptr (rd tbl i s1))"
    "\<forall>q j. vpath q \<longrightarrow> j < 512 \<longrightarrow> (q, j) \<noteq> (p, i) \<longrightarrow> ent s1 q j = ent s q j"
    "\<not> present (ent s p i) \<longrightarrow> ent s1 p i AND 6 = 2"
proof (cases "present (ent s p i)")
  case True
  with assms that [of s] show ?thesis
    by (simp add: ensure_table_def ent_root tab_Cons)
next
  case False
  obtain s1 t where s1: "ensure_table tbl i s = (True, s1)" and
    w: "slot_write s s1 p i (t OR (PAGE_PRESENT OR PAGE_WRITE)) t (\<lambda>_. 0)" and t: "page_aligned t"
    using ensure_table_link [OF assms(1-3) False assms(5)] .
  have vp: "vpath p" "length p < 3" "i < 512"
    using assms(2) by (simp_all add: vpath_Cons)
  have tp: "tab s1 p = Some (pt_ptr tbl)"
    using tab_slot_write [OF w vp(1)] assms(3) by simp
  have ti: "tab s1 (i # p) = Some t"
    using tab_slot_write [OF w assms(2)] by simp
  have z: "ent s (i # p) j = 0" for j
    using False ent_absent by blast
  show ?thesis
  proof (rule that [OF s1 prepared_slot_write [OF w] keeps_link [OF w False vp(2)] tp])
    show "tab s1 (i # p) = Some (pt_ptr (rd tbl i s1))"
      using ti tp by (simp add: tab_Cons ent_root split: if_splits)
    show "\<forall>q j. vpath q \<longrightarrow> j < 512 \<longrightarrow> (q, j) \<noteq> (p, i) \<longrightarrow> ent s1 q j = ent s q j"
      using z by (auto simp: ent_slot_write [OF w])
    show "\<not> present (ent s p i) \<longrightarrow> ent s1 p i AND 6 = 2"
      using aligned_and_low [OF t, of 6] vp by (simp add: ent_slot_write [OF w] and_out)
  qed
qed


subsection \<open>Splitting a large page\<close>

abbreviation caching :: "u32 \<Rightarrow> u64" where
  "caching flags \<equiv> ucast flags AND (PAGE_PWT OR PAGE_PCD)"

abbreviation leaf_flags :: "u64 \<Rightarrow> u64" where
  "leaf_flags e \<equiv> e AND (PAGE_PRESENT OR PAGE_WRITE OR PAGE_USER OR PAGE_PWT OR PAGE_PCD)"

lemma PT_INDEX_take_bit: "PT_INDEX va = take_bit 9 (drop_bit 12 va)"
  by (simp add: PT_INDEX_def take_bit_eq_mask mask_eq_exp_minus_1)

lemma pt_index_bits:
  "push_bit 12 (PT_INDEX va) OR (va AND mask 12) = va AND mask 21"
  unfolding PT_INDEX_take_bit by (rule bit_word_eqI) (auto simp: bit_simps)

lemma pt_index_and: "push_bit 12 (PT_INDEX va) = va AND 0x1FF000"
proof -
  have "push_bit 12 (PT_INDEX va) = va AND (mask 21 AND NOT (mask 12))"
    unfolding PT_INDEX_take_bit by (rule bit_word_eqI) (auto simp: bit_simps)
  then show ?thesis
    by (simp add: mask_eq_exp_minus_1)
qed

lemma split_base_add:
  "(e AND NOT (push_bit 21 1 - 1)) + push_bit 12 (PT_INDEX va) =
   (e AND NOT 0x1FFFFF) OR push_bit 12 (PT_INDEX va)"
proof -
  have "(e AND NOT (mask 21)) + push_bit 12 (PT_INDEX va) =
      (e AND NOT (mask 21)) OR push_bit 12 (PT_INDEX va)"
    unfolding PT_INDEX_take_bit by (rule disjunctive_add) (auto simp: bit_simps)
  then show ?thesis
    by (simp add: mask_eq_exp_minus_1)
qed

lemma split_entry_bits:
  fixes va e :: u64 and flags :: u32
  defines "e1 \<equiv> split_entry e flags (PT_INDEX va)"
  shows "e1 AND PHYS_MASK = (e AND PHYS_MASK AND NOT (mask 21)) OR push_bit 12 (PT_INDEX va)"
    "e1 AND 1 = e AND 1" "e1 AND 6 = e AND 6"
    "e1 AND 0x18 = (if caching flags \<noteq> 0 then caching flags else e AND 0x18)"
proof -
  define lo where "lo = push_bit 12 (PT_INDEX va)"
  have e1: "e1 = (let e0 = ((e AND NOT 0x1FFFFF) OR lo) OR (e AND 0x1F)
      in if caching flags \<noteq> 0 then (e0 AND NOT 0x18) OR caching flags else e0)"
    using split_base_add [of e va] by (simp add: e1_def split_entry_def lo_def Let_def)
  have m21: "(mask 21 :: u64) = 0x1FFFFF"
    by (simp add: mask_eq_exp_minus_1)
  have lo: "lo AND 0x000FFFFFFFFFF000 = lo" "lo AND 1 = 0" "lo AND 6 = 0" "lo AND 0x18 = 0"
    by (simp_all add: lo_def pt_index_and and.assoc)
  show "e1 AND PHYS_MASK = (e AND PHYS_MASK AND NOT (mask 21)) OR push_bit 12 (PT_INDEX va)"
    "e1 AND 1 = e AND 1" "e1 AND 6 = e AND 6"
    "e1 AND 0x18 = (if caching flags \<noteq> 0 then caching flags else e AND 0x18)"
    by (simp_all add: e1 Let_def PHYS_MASK_def m21 and_out and.assoc lo lo_def [symmetric])
qed


lemma split_pde_bits:
  fixes e :: u64
  defines "f \<equiv> PAGE_PRESENT OR PAGE_WRITE OR (leaf_flags e AND NOT PAGE_PRESENT)"
  shows "f AND 0xFFF = f" "present f" "\<not> large f" "f AND (e AND 6) = e AND 6"
proof -
  have f: "f = 3 OR (e AND 0x1E)"
    by (simp add: f_def and.assoc or.assoc [symmetric])
  show "f AND 0xFFF = f" "present f" "\<not> large f"
    by (simp_all add: f present_def large_def and_out and.assoc)
  have "f AND (e AND 6) = 3 AND (e AND 6) OR (e AND 0x1E) AND (e AND 6)"
    by (simp only: f and_out)
  also have "(e AND 0x1E) AND (e AND 6) = (e AND e) AND (0x1E AND 6)"
    by (simp only: and.assoc and.commute and.left_commute)
  finally show "f AND (e AND 6) = e AND 6"
    by (simp add: and.left_commute [of 3] or.commute) (simp add: bit.conj_disj_distrib [symmetric])
qed

definition same_2m :: "u64 \<Rightarrow> u64 \<Rightarrow> bool" where
  "same_2m va va' \<longleftrightarrow> PML4_INDEX va = PML4_INDEX va' \<and> PDPT_INDEX va = PDPT_INDEX va' \<and>
     PD_INDEX va = PD_INDEX va'"

definition same_page :: "u64 \<Rightarrow> u64 \<Rightarrow> bool" where
  "same_page va va' \<longleftrightarrow> same_2m va va' \<and> PT_INDEX va = PT_INDEX va'"

definition pde_of :: "vm_state \<Rightarrow> u64 \<Rightarrow> u64" where
  "pde_of s va = ent s [PDPT_INDEX va, PML4_INDEX va] (PD_INDEX va)"

definition large_mapped :: "vm_state \<Rightarrow> u64 \<Rightarrow> bool" where
  "large_mapped s va \<longleftrightarrow> present (pde_of s va) \<and> large (pde_of s va)"

text \<open>The caching bits the split gives to the other pages of the 2 MiB page.\<close>

definition recache :: "bool \<Rightarrow> u32 \<Rightarrow> u64 \<times> u64 \<times> u64 \<Rightarrow> u64 \<times> u64 \<times> u64" where
  "recache b flags = (\<lambda>(pa, r, k). (pa, r, if b \<and> caching flags \<noteq> 0 then caching flags else k))"

lemma recache_False [simp]: "recache False flags = id"
  by (auto simp: recache_def)

lemma split_leaf_slot:
  assumes wf: "vm_wf s" and k: "kernel_va va"
    and pd: "tab s [PDPT_INDEX va, PML4_INDEX va] = Some (pt_ptr pd)"
    and lm: "large_mapped s va" and fr: "pmm_frames (vm_pmm s) \<noteq> {}"
  obtains s1 t f where "split_leaf pd (PD_INDEX va) flags va s = (True, invlpg va s1)"
    "slot_write s s1 [PDPT_INDEX va, PML4_INDEX va] (PD_INDEX va) (t OR f) t
       (split_entry (pde_of s va) flags)" "page_aligned t"
    "f = PAGE_PRESENT OR PAGE_WRITE OR (leaf_flags (pde_of s va) AND NOT PAGE_PRESENT)"
proof -
  let ?p = "[PDPT_INDEX va, PML4_INDEX va]" and ?c = "PD_INDEX va"
  define e where "e = pde_of s va"
  have e: "ent s ?p ?c = e" "rd pd ?c s = e" "present e" "large e"
    using lm pd by (simp_all add: e_def large_mapped_def pde_of_def ent_root)
  have vp: "vpath (?c # ?p)" "vpath ?p"
    using k by simp_all
  obtain t p' where t: "vm_alloc s = (t, s\<lparr>vm_pmm := p'\<rparr>)" "t \<noteq> 0" "t \<in> pmm_frames (vm_pmm s)"
    "page_aligned t" "pmm_ok p'" "pmm_frames p' = pmm_frames (vm_pmm s) - {t}"
    "pmm_alloc (vm_pmm s) = (t, p')"
    using vm_alloc_frame [OF wf fr] .
  define s2 where "s2 = fold (\<lambda>i. wr t (of_nat i) (split_entry e flags (of_nat i))) [0..<512]
      (zero_page_table t (s\<lparr>vm_pmm := p'\<rparr>))"
  define f where "f = PAGE_PRESENT OR PAGE_WRITE OR (leaf_flags e AND NOT PAGE_PRESENT)"
  note fb = split_pde_bits [of e, folded f_def]
  have "rd u j s2 = (if pt_ptr u = t then split_entry e flags j else rd u j s)" if "j < 512" for u j
    using that t(4) by (simp add: s2_def rd_fold_wr rd_zero_page_table word_less_nat_alt)
  then have w: "slot_write s (wr pd ?c (t OR f) s2) ?p ?c (t OR f) t (split_entry e flags)"
    using wf vp pd e t fb
    by (intro slot_write_fresh [where pm' = p' and f = f])
       (simp_all add: s2_def fold_wr_fields tab_Cons)
  have "split_leaf pd ?c flags va s = (True, invlpg va (wr pd ?c (t OR f) s2))"
    using t e by (simp add: split_leaf_def Let_def s2_def f_def or.assoc)
  then show ?thesis
    using that w t(4) by (simp add: f_def e_def)
qed

lemma mmu_split:
  assumes w: "slot_write s s1 [PDPT_INDEX va, PML4_INDEX va] (PD_INDEX va) (t OR f) t
       (split_entry (pde_of s va) flags)" and t: "page_aligned t"
    and f: "f = PAGE_PRESENT OR PAGE_WRITE OR (leaf_flags (pde_of s va) AND NOT PAGE_PRESENT)"
    and lm: "large_mapped s va" and k: "kernel_va va'"
  shows "mmu (vm_cr3 s) s1 va' =
    map_option (recache (same_2m va va') flags) (mmu (vm_cr3 s) s va')"
proof -
  let ?a = "PML4_INDEX va'" and ?b = "PDPT_INDEX va'" and ?c = "PD_INDEX va'" and ?d = "PT_INDEX va'"
  define e where "e = pde_of s va"
  have wf: "vm_wf s" "vm_cr3 s1 = vm_cr3 s"
    using w by (simp_all add: slot_write_def)
  have m: "mmu (vm_cr3 s) s1 va' = leaf_of va' (ent s1 [] ?a) (ent s1 [?a] ?b) (ent s1 [?b, ?a] ?c)
      (ent s1 [?c, ?b, ?a] ?d)"
    using mmu_ent [OF wf_slot_write [OF w] k] wf(2) by (simp add: Let_def)
  have m0: "mmu (vm_cr3 s) s va' = leaf_of va' (ent s [] ?a) (ent s [?a] ?b) (ent s [?b, ?a] ?c)
      (ent s [?c, ?b, ?a] ?d)"
    using mmu_ent [OF wf(1) k] by (simp add: Let_def)
  note ent' = ent_slot_write [OF w]
  show ?thesis
  proof (cases "same_2m va va'")
    case True
    then have ix: "PML4_INDEX va = ?a" "PDPT_INDEX va = ?b" "PD_INDEX va = ?c"
      by (simp_all add: same_2m_def)
    have e: "ent s [?b, ?a] ?c = e" "present e" "large e"
      using lm by (simp_all add: e_def large_mapped_def pde_of_def ix)
    define e1 where "e1 = split_entry e flags ?d"
    have new: "ent s1 [] ?a = ent s [] ?a" "ent s1 [?a] ?b = ent s [?a] ?b"
        "ent s1 [?b, ?a] ?c = t OR f" "ent s1 [?c, ?b, ?a] ?d = e1"
      using k by (simp_all add: ent' ix e1_def e_def [symmetric])
    note sb = split_entry_bits [of e flags va', folded e1_def] and fb = split_pde_bits [of e]
    have "(t OR f) AND (e AND 6) = e AND 6"
      using aligned_and_low [OF t, of "e AND 6"] fb(4)
      by (simp add: and_out and.assoc f e_def)
    moreover have "present (t OR f)" "\<not> large (t OR f)" "present e1"
      using aligned_or_flags [OF t, of f] fb(1-3) e sb(2) by (simp_all add: f e_def present_def)
    ultimately show ?thesis
      using True e(2,3) unfolding m m0 new e(1)
      by (simp add: leaf_of_def sb recache_def or.assoc pt_index_bits)
  next
    case False
    then have "ent s1 [] ?a = ent s [] ?a" "ent s1 [?a] ?b = ent s [?a] ?b"
        "ent s1 [?b, ?a] ?c = ent s [?b, ?a] ?c" "ent s1 [?c, ?b, ?a] ?d = ent s [?c, ?b, ?a] ?d"
      using k by (auto simp: ent' same_2m_def)
    with False show ?thesis by (simp add: m m0 option.map_id)
  qed
qed


subsection \<open>Mapping a page\<close>

lemma tab_invlpg [simp]: "tab (invlpg x s) p = tab s p"
  by (induction p) (simp_all add: tab.simps split: option.split)

lemma ent_invlpg [simp]: "ent (invlpg x s) p i = ent s p i"
  by (simp add: ent_def split: option.split)

lemma invlpg_keeps [simp]:
  "vm_wf (invlpg x s) = vm_wf s" "mmu cr3 (invlpg x s) = mmu cr3 s"
  "prepared n s0 (invlpg x s) = prepared n s0 s"
  by (auto simp: vm_wf_def mmu_def prepared_def fun_eq_iff Let_def)

lemma ensure_pt_step:
  assumes wf: "vm_wf s" and k: "kernel_va va"
    and pd: "tab s [PDPT_INDEX va, PML4_INDEX va] = Some (pt_ptr pd)"
    and fr: "pmm_frames (vm_pmm s) \<noteq> {}"
  obtains s1 where "ensure_pt pd (PD_INDEX va) flags va s = (True, s1)" "prepared 1 s s1"
    "tab s1 [PD_INDEX va, PDPT_INDEX va, PML4_INDEX va] = Some (pt_ptr (rd pd (PD_INDEX va) s1))"
    "\<forall>va'. kernel_va va' \<longrightarrow> mmu (vm_cr3 s) s1 va' =
       map_option (recache (large_mapped s va \<and> same_2m va va') flags) (mmu (vm_cr3 s) s va')"
    "\<forall>q j. length q < 2 \<longrightarrow> vpath q \<longrightarrow> j < 512 \<longrightarrow> ent s1 q j = ent s q j"
    "\<not> present (pde_of s va) \<longrightarrow> pde_of s1 va AND 6 = 2"
proof -
  let ?p = "[PDPT_INDEX va, PML4_INDEX va]" and ?c = "PD_INDEX va"
  have e: "rd pd ?c s = pde_of s va"
    using pd by (simp add: pde_of_def ent_root)
  have vp: "vpath (?c # ?p)" "vpath ?p"
    using k by simp_all
  show ?thesis
  proof (cases "large_mapped s va")
    case True
    obtain s1 t f where s1: "split_leaf pd ?c flags va s = (True, invlpg va s1)"
      and w: "slot_write s s1 ?p ?c (t OR f) t (split_entry (pde_of s va) flags)" "page_aligned t"
        "f = PAGE_PRESENT OR PAGE_WRITE OR (leaf_flags (pde_of s va) AND NOT PAGE_PRESENT)"
      using split_leaf_slot [OF wf k pd True fr] .
    have "tab s1 (?c # ?p) = Some t" "tab s1 ?p = Some (pt_ptr pd)"
      using tab_slot_write [OF w(1)] vp pd by simp_all
    then have "tab s1 (?c # ?p) = Some (pt_ptr (rd pd ?c s1))"
      by (simp add: tab_Cons ent_root split: if_splits)
    moreover have "ent s1 q j = ent s q j" if "length q < 2" "vpath q" "j < 512" for q j
      using that by (auto simp: ent_slot_write [OF w(1)])
    ultimately show ?thesis
      using that [of "invlpg va s1"] s1 e True prepared_slot_write [OF w(1)]
        mmu_split [OF w True] by (simp add: ensure_pt_def large_mapped_def)
  next
    case False
    then have "\<not> large (ent s ?p ?c) \<or> \<not> present (ent s ?p ?c)"
      by (auto simp: large_mapped_def pde_of_def)
    then obtain s1 where s1:
      "ensure_table pd ?c s = (True, s1)" "prepared 1 s s1" "keeps id s s1"
      "tab s1 ?p = Some (pt_ptr pd)" "tab s1 (?c # ?p) = Some (pt_ptr (rd pd ?c s1))"
      "\<forall>q j. vpath q \<longrightarrow> j < 512 \<longrightarrow> (q, j) \<noteq> (?p, ?c) \<longrightarrow> ent s1 q j = ent s q j"
      "\<not> present (ent s ?p ?c) \<longrightarrow> ent s1 ?p ?c AND 6 = 2"
      using ensure_table_step [OF wf vp(1) pd _ fr] by metis
    moreover have "ensure_pt pd ?c flags va s = (True, s1)"
      using s1(1) False e by (auto simp: ensure_pt_def large_mapped_def ensure_table_def)
    moreover have "mmu (vm_cr3 s) s1 va' = mmu (vm_cr3 s) s va'" if "kernel_va va'" for va'
      using s1(3) that by (simp add: keeps_def option.map_id)
    moreover have "ent s1 q j = ent s q j" if "length q < 2" "vpath q" "j < 512" for q j
    proof -
      have "q \<noteq> ?p"
        using that(1) by auto
      with that s1(6) show ?thesis by simp
    qed
    ultimately show ?thesis
      using that [of s1] False by (simp add: option.map_id pde_of_def)
  qed
qed

lemma pte_slot_write:
  assumes wf: "vm_wf s" and k: "kernel_va va"
    and pt: "tab s [PD_INDEX va, PDPT_INDEX va, PML4_INDEX va] = Some (pt_ptr pt)"
  shows "slot_write s (wr pt (PT_INDEX va) v s) [PD_INDEX va, PDPT_INDEX va, PML4_INDEX va]
    (PT_INDEX va) v 0 (\<lambda>_. 0)"
proof -
  have "rd y j (wr pt (PT_INDEX va) v s) =
      (if q = [PD_INDEX va, PDPT_INDEX va, PML4_INDEX va] \<and> j = PT_INDEX va then v else rd y j s)"
    if "vpath q" "j < 512" "tab s q = Some y" for q j y
  proof -
    have "y = pt_ptr pt \<longleftrightarrow> q = [PD_INDEX va, PDPT_INDEX va, PML4_INDEX va]"
      using that pt k vm_wfD(5) [OF wf] by auto
    with that show ?thesis
      using tab_aligned [OF that(3)] by (auto simp: rd_wr)
  qed
  with assms show ?thesis
    by (simp add: slot_write_def)
qed

lemma pte_value_bits:
  "pte_value pa flags AND PHYS_MASK = pa AND PHYS_MASK"
  "present (pte_value pa flags)"
  "pte_value pa flags AND 6 = ucast flags AND 6"
  "pte_value pa flags AND 0x18 = caching flags"
proof -
  have "(ucast (flags AND 0xFFF) :: u64) = ucast flags AND 0xFFF"
    by (simp add: unsigned_and_eq)
  then have v: "pte_value pa flags = (pa AND NOT 0xFFF) OR (ucast flags AND 0xF7F) OR 1"
    by (simp add: pte_value_def and.assoc)
  show "pte_value pa flags AND PHYS_MASK = pa AND PHYS_MASK" "present (pte_value pa flags)"
    "pte_value pa flags AND 6 = ucast flags AND 6" "pte_value pa flags AND 0x18 = caching flags"
    by (simp_all add: v PHYS_MASK_def present_def and_out and.assoc)
qed


definition table_rights :: "vm_state \<Rightarrow> u64 \<Rightarrow> u64" where
  "table_rights s va =
     ent s [] (PML4_INDEX va) AND ent s [PML4_INDEX va] (PDPT_INDEX va) AND pde_of s va"

lemma pte_write_mmu:
  fixes pa :: u64 and flags :: u32
  assumes wf: "vm_wf s" and k: "kernel_va va"
    and pt: "tab s [PD_INDEX va, PDPT_INDEX va, PML4_INDEX va] = Some (pt_ptr pt)"
  defines "s' \<equiv> wr pt (PT_INDEX va) (pte_value pa flags) s"
  shows "vm_wf s'"
    "mmu (vm_cr3 s) s' va = Some ((pa AND PHYS_MASK) OR (va AND mask 12),
       table_rights s va AND ucast flags AND 6, caching flags)"
    "kernel_va va' \<Longrightarrow> \<not> same_page va va' \<Longrightarrow> mmu (vm_cr3 s) s' va' = mmu (vm_cr3 s) s va'"
    "table_rights s' va = table_rights s va"
proof -
  note w = pte_slot_write [OF wf k pt, of "pte_value pa flags", folded s'_def]
  note ent' = ent_slot_write [OF w]
  show wf': "vm_wf s'"
    by (rule wf_slot_write [OF w])
  have cr3: "vm_cr3 s' = vm_cr3 s"
    by (simp add: s'_def)
  have "present (pde_of s va)" "\<not> large (pde_of s va)"
    using pt by (simp_all add: tab_Cons pde_of_def split: if_splits)
  then show "mmu (vm_cr3 s) s' va = Some ((pa AND PHYS_MASK) OR (va AND mask 12),
       table_rights s va AND ucast flags AND 6, caching flags)"
    using mmu_ent [OF wf' k] k
    by (simp add: cr3 Let_def ent' leaf_of_def pde_of_def pte_value_bits table_rights_def and.assoc)
  show "table_rights s' va = table_rights s va"
    using k by (simp add: table_rights_def pde_of_def ent')
  show "mmu (vm_cr3 s) s' va' = mmu (vm_cr3 s) s va'" if k': "kernel_va va'" and "\<not> same_page va va'"
  proof -
    have "ent s' [PD_INDEX va', PDPT_INDEX va', PML4_INDEX va'] (PT_INDEX va') =
        ent s [PD_INDEX va', PDPT_INDEX va', PML4_INDEX va'] (PT_INDEX va')"
      using that by (auto simp: ent' same_page_def same_2m_def)
    then show ?thesis
      using mmu_ent [OF wf' k'] mmu_ent [OF wf k'] k' by (simp add: cr3 Let_def ent')
  qed
qed

lemma card_frames_ne: "prepared n s s' \<Longrightarrow> n < card (pmm_frames (vm_pmm s)) \<Longrightarrow> pmm_frames (vm_pmm s') \<noteq> {}"
  by (auto simp: prepared_def)

text \<open>The state just before the entry of the page is written.\<close>

lemma map_page_tables:
  assumes wf: "vm_wf s" and k: "kernel_va va" and fr: "3 \<le> card (pmm_frames (vm_pmm s))"
  obtains s3 pt where
    "paging_map_page va pa flags s = invlpg va (wr pt (PT_INDEX va) (pte_value pa flags) s3)"
    "prepared 3 s s3" "tab s3 [PD_INDEX va, PDPT_INDEX va, PML4_INDEX va] = Some (pt_ptr pt)"
    "\<forall>va'. kernel_va va' \<longrightarrow> mmu (vm_cr3 s) s3 va' =
       map_option (recache (large_mapped s va \<and> same_2m va va') flags) (mmu (vm_cr3 s) s va')"
    "\<not> present (ent s [] (PML4_INDEX va)) \<longrightarrow> table_rights s3 va AND 6 = 2"
proof -
  let ?a = "PML4_INDEX va" and ?b = "PDPT_INDEX va" and ?c = "PD_INDEX va"
  define pml4 where "pml4 = paging_cr3 s AND NOT PT_FLAG_MASK"
  have t0: "tab s [] = Some (pt_ptr pml4)"
    by (simp add: pml4_def paging_cr3_def pt_ptr_def)
  have n0: "pmm_frames (vm_pmm s) \<noteq> {}"
    using fr by auto
  have na: "\<not> large (ent s [] ?a) \<or> \<not> present (ent s [] ?a)"
    using vm_wfD(6) [OF wf walk_paths(1) [OF k]] by auto
  obtain s1 where s1: "ensure_table pml4 ?a s = (True, s1)" "prepared 1 s s1" "keeps id s s1"
      "tab s1 [] = Some (pt_ptr pml4)" "tab s1 [?a] = Some (pt_ptr (rd pml4 ?a s1))"
      "\<forall>q j. vpath q \<longrightarrow> j < 512 \<longrightarrow> (q, j) \<noteq> ([], ?a) \<longrightarrow> ent s1 q j = ent s q j"
      "\<not> present (ent s [] ?a) \<longrightarrow> ent s1 [] ?a AND 6 = 2"
    using ensure_table_step [OF wf walk_paths(1) [OF k] t0 na n0] .
  have wf1: "vm_wf s1" "vm_cr3 s1 = vm_cr3 s"
    using s1(2) by (simp_all add: prepared_def)
  have n1: "pmm_frames (vm_pmm s1) \<noteq> {}"
    using card_frames_ne [OF s1(2)] fr by simp
  have nb: "\<not> large (ent s1 [?a] ?b) \<or> \<not> present (ent s1 [?a] ?b)"
    using vm_wfD(6) [OF wf1(1) walk_paths(2) [OF k]] by auto
  obtain s2 where s2: "ensure_table (rd pml4 ?a s1) ?b s1 = (True, s2)" "prepared 1 s1 s2"
      "keeps id s1 s2" "tab s2 [?a] = Some (pt_ptr (rd pml4 ?a s1))" "tab s2 [?b, ?a] = Some (pt_ptr (rd (rd pml4 ?a s1) ?b s2))"
      "\<forall>q j. vpath q \<longrightarrow> j < 512 \<longrightarrow> (q, j) \<noteq> ([?a], ?b) \<longrightarrow> ent s2 q j = ent s1 q j"
      "\<not> present (ent s1 [?a] ?b) \<longrightarrow> ent s2 [?a] ?b AND 6 = 2"
    using ensure_table_step [OF wf1(1) walk_paths(2) [OF k] s1(5) nb n1] .
  have p2: "prepared 2 s s2"
    using prepared_trans [OF s1(2) s2(2)] by (simp add: numeral_2_eq_2)
  have wf2: "vm_wf s2" "vm_cr3 s2 = vm_cr3 s"
    using p2 by (simp_all add: prepared_def)
  have n2: "pmm_frames (vm_pmm s2) \<noteq> {}"
    using card_frames_ne [OF p2] fr by simp
  obtain s3 where s3: "ensure_pt (rd (rd pml4 ?a s1) ?b s2) ?c flags va s2 = (True, s3)"
      "prepared 1 s2 s3"
      "tab s3 [?c, ?b, ?a] = Some (pt_ptr (rd (rd (rd pml4 ?a s1) ?b s2) ?c s3))"
      "\<forall>va'. kernel_va va' \<longrightarrow> mmu (vm_cr3 s2) s3 va' =
         map_option (recache (large_mapped s2 va \<and> same_2m va va') flags) (mmu (vm_cr3 s2) s2 va')"
      "\<forall>q j. length q < 2 \<longrightarrow> vpath q \<longrightarrow> j < 512 \<longrightarrow> ent s3 q j = ent s2 q j"
      "\<not> present (pde_of s2 va) \<longrightarrow> pde_of s3 va AND 6 = 2"
    using ensure_pt_step [OF wf2(1) k s2(5) n2] .
  have pde: "pde_of s2 va = pde_of s va"
    using k s1(6) s2(6) by (simp add: pde_of_def)
  have kp: "mmu (vm_cr3 s) s2 va' = mmu (vm_cr3 s) s va'" if "kernel_va va'" for va'
    using that keeps_trans [OF s1(3) s2(3) wf1(2)] by (simp add: keeps_def option.map_id)
  show ?thesis
  proof (rule that [of "rd (rd (rd pml4 ?a s1) ?b s2) ?c s3" s3])
    show "prepared 3 s s3"
      using prepared_trans [OF p2 s3(2)] by simp
    show "paging_map_page va pa flags s =
        invlpg va (wr (rd (rd (rd pml4 ?a s1) ?b s2) ?c s3) (PT_INDEX va) (pte_value pa flags) s3)"
      using s1(1) s2(1) s3(1) by (simp add: paging_map_page_def Let_def pml4_def)
    show "\<forall>va'. kernel_va va' \<longrightarrow> mmu (vm_cr3 s) s3 va' =
        map_option (recache (large_mapped s va \<and> same_2m va va') flags) (mmu (vm_cr3 s) s va')"
      using s3(4) kp by (simp add: wf2(2) large_mapped_def pde)
    show "\<not> present (ent s [] ?a) \<longrightarrow> table_rights s3 va AND 6 = 2"
    proof
      assume that: "\<not> present (ent s [] ?a)"
      have z: "ent s [?a] ?b = 0"
        using that ent_absent by blast
      then have "pde_of s va = 0"
        using ent_absent [of s "[?a]" ?b ?c] by (simp add: pde_of_def)
      then have c3: "pde_of s3 va AND 6 = 2"
        using s3(6) by (simp add: pde)
      have b3: "ent s3 [?a] ?b AND 6 = 2"
        using z k s1(6) s2(7) s3(5) by simp
      have a3: "ent s3 [] ?a AND 6 = 2"
        using that s1(7) s2(6) s3(5) by simp
      have "table_rights s3 va AND 6 = (ent s3 [] ?a AND 6) AND (ent s3 [?a] ?b AND 6) AND (pde_of s3 va AND 6)"
        by (simp add: table_rights_def and.assoc and.left_commute)
      then show "table_rights s3 va AND 6 = 2"
        by (simp add: a3 b3 c3)
    qed
  qed (rule s3(3))
qed


lemma map_page_effect:
  fixes pa :: u64 and flags :: u32
  assumes wf: "vm_wf s" and k: "kernel_va va" and fr: "3 \<le> card (pmm_frames (vm_pmm s))"
  defines "s' \<equiv> paging_map_page va pa flags s"
  shows "prepared 3 s s'"
    "mmu (vm_cr3 s) s' va = Some ((pa AND PHYS_MASK) OR (va AND mask 12),
       table_rights s' va AND ucast flags AND 6, caching flags)"
    "\<forall>va'. kernel_va va' \<longrightarrow> \<not> same_page va va' \<longrightarrow> mmu (vm_cr3 s) s' va' =
       map_option (recache (large_mapped s va \<and> same_2m va va') flags) (mmu (vm_cr3 s) s va')"
    "\<not> present (ent s [] (PML4_INDEX va)) \<longrightarrow> table_rights s' va AND 6 = 2"
proof -
  obtain s3 pt where s': "s' = invlpg va (wr pt (PT_INDEX va) (pte_value pa flags) s3)"
    and p3: "prepared 3 s s3"
    and pt: "tab s3 [PD_INDEX va, PDPT_INDEX va, PML4_INDEX va] = Some (pt_ptr pt)"
    and keep: "\<forall>va'. kernel_va va' \<longrightarrow> mmu (vm_cr3 s) s3 va' =
       map_option (recache (large_mapped s va \<and> same_2m va va') flags) (mmu (vm_cr3 s) s va')"
    and rights: "\<not> present (ent s [] (PML4_INDEX va)) \<longrightarrow> table_rights s3 va AND 6 = 2"
    using map_page_tables [OF wf k fr, of pa flags] unfolding s'_def .
  have wf3: "vm_wf s3" "vm_cr3 s3 = vm_cr3 s"
    using p3 by (simp_all add: prepared_def)
  note w = pte_write_mmu [OF wf3(1) k pt, where pa = pa and flags = flags]
  have tr: "table_rights s' va = table_rights s3 va"
    using w(4) by (simp add: s' table_rights_def pde_of_def)
  show "prepared 3 s s'"
    using p3 w(1) by (simp add: s' prepared_def)
  show "mmu (vm_cr3 s) s' va = Some ((pa AND PHYS_MASK) OR (va AND mask 12),
       table_rights s' va AND ucast flags AND 6, caching flags)"
    using w(2) wf3(2) by (simp add: tr) (simp add: s')
  show "\<forall>va'. kernel_va va' \<longrightarrow> \<not> same_page va va' \<longrightarrow> mmu (vm_cr3 s) s' va' =
       map_option (recache (large_mapped s va \<and> same_2m va va') flags) (mmu (vm_cr3 s) s va')"
    using w(3) keep wf3(2) by (simp add: s')
  show "\<not> present (ent s [] (PML4_INDEX va)) \<longrightarrow> table_rights s' va AND 6 = 2"
    using rights by (simp add: tr)
qed

section \<open>Mapping a region\<close>

lemma map_region_loop_eq:
  assumes "loop_bound e"
  shows "map_region_loop v p e flags s =
    Some (fold (\<lambda>x. paging_map_page x (p + (x - v)) flags) (page_range v e) s)"
  using assms
proof (induction v arbitrary: p s rule: page_loop_induct)
  case (stop v)
  then show ?case by (simp add: map_region_loop.simps [of v])
next
  case (step v)
  have "p + 4096 + (x - (v + 4096)) = p + (x - v)" for x
    by simp
  with step show ?case
    by (simp add: map_region_loop.simps [of v] page_range_Cons [OF assms])
qed

definition maps_to :: "vm_state \<Rightarrow> u64 \<Rightarrow> u64 \<Rightarrow> u32 \<Rightarrow> bool" where
  "maps_to s va pa flags \<longleftrightarrow> (\<exists>r. mmu (vm_cr3 s) s va =
     Some ((pa AND PHYS_MASK) OR (va AND mask 12), r AND ucast flags AND 6, caching flags))"

lemma map_pages_fold:
  fixes f :: "u64 \<Rightarrow> u64" and flags :: u32
  assumes "vm_wf s" "\<forall>x \<in> set xs. kernel_va x" "distinct xs"
    and "\<forall>x \<in> set xs. \<forall>y \<in> set xs. x \<noteq> y \<longrightarrow> \<not> same_page x y"
    and "3 * length xs \<le> card (pmm_frames (vm_pmm s))"
  defines "s' \<equiv> fold (\<lambda>x. paging_map_page x (f x) flags) xs s"
  shows "prepared (3 * length xs) s s' \<and> (\<forall>x \<in> set xs. maps_to s' x (f x) flags)"
  using assms(2-5) unfolding s'_def
proof (induction xs rule: rev_induct)
  case Nil
  then show ?case using assms(1) by simp
next
  case (snoc x xs)
  define s1 where "s1 = fold (\<lambda>x. paging_map_page x (f x) flags) xs s"
  define s2 where "s2 = paging_map_page x (f x) flags s1"
  have IH: "prepared (3 * length xs) s s1" "\<forall>y \<in> set xs. maps_to s1 y (f y) flags"
    using snoc by (simp_all add: s1_def)
  then have wf1: "vm_wf s1" "3 \<le> card (pmm_frames (vm_pmm s1))" "kernel_va x"
    using snoc.prems by (simp_all add: prepared_def)
  note eff = map_page_effect [OF wf1(1,3,2), where pa = "f x" and flags = flags, folded s2_def]
  have cr3: "vm_cr3 s2 = vm_cr3 s1"
    using eff(1) by (simp add: prepared_def)
  have "maps_to s2 x (f x) flags"
    using eff(2) by (auto simp: maps_to_def cr3)
  moreover have "maps_to s2 y (f y) flags" if "y \<in> set xs" for y
  proof -
    have "kernel_va y" "\<not> same_page x y"
      using snoc.prems that by auto
    then show ?thesis
      using IH(2) that eff(3) by (fastforce simp: maps_to_def recache_def cr3)
  qed
  moreover have "prepared (3 * length (xs @ [x])) s s2"
    using prepared_trans [OF IH(1) eff(1)] by (simp add: algebra_simps)
  ultimately show ?case
    by (auto simp: s1_def s2_def)
qed


section \<open>New address spaces\<close>

text \<open>
  A new root \<open>t\<close>, taken from the free frames, whose slots below the recursive one are each
  either a copy of the slot of the old root or empty (\<open>keep\<close> says which are copied).
\<close>

definition new_root :: "vm_state \<Rightarrow> vm_state \<Rightarrow> u64 \<Rightarrow> (u64 \<Rightarrow> bool) \<Rightarrow> bool" where
  "new_root s s' t keep \<longleftrightarrow> vm_wf s \<and> t \<in> pmm_frames (vm_pmm s) \<and>
     pmm_ok (vm_pmm s') \<and> pmm_frames (vm_pmm s') = pmm_frames (vm_pmm s) - {t} \<and>
     (\<forall>u j. j < 512 \<longrightarrow> pt_ptr u \<noteq> t \<longrightarrow> rd u j s' = rd u j s) \<and>
     (\<forall>j < 511. rd t j s' = (if keep j then ent s [] j else 0))"

lemma new_root_old_tree:
  assumes "new_root s s' t keep" "vpath q"
  shows "vm_cr3 s' = vm_cr3 s \<Longrightarrow> tab s' q = tab s q"
    "tab s q = Some y \<Longrightarrow> j < 512 \<Longrightarrow> rd y j s' = rd y j s"
proof -
  have fresh: "tab s q = Some y \<Longrightarrow> vpath q \<Longrightarrow> pt_ptr y \<noteq> t" for q y
    using assms(1) vm_wfD(4) [of s q y] tab_aligned [of s q y] by (auto simp: new_root_def)
  have rd': "rd y j s' = rd y j s" if "tab s q = Some y" "vpath q" "j < 512" for q y j
    using assms(1) that fresh [OF that(1,2)] by (simp add: new_root_def)
  then show "tab s q = Some y \<Longrightarrow> j < 512 \<Longrightarrow> rd y j s' = rd y j s"
    using assms(2) by blast
  show "tab s' q = tab s q" if "vm_cr3 s' = vm_cr3 s"
    using assms(2)
  proof (induction q)
    case (Cons j q)
    then have "vpath q" "j < 512"
      by (simp_all add: vpath_Cons)
    with Cons rd' show ?case
      by (auto simp: tab.simps split: option.split)
  qed (simp add: that)
qed

lemma new_root_old_mmu:
  assumes "new_root s s' t keep" "vm_cr3 s' = vm_cr3 s"
  shows "vm_wf s'" "kernel_va va \<Longrightarrow> mmu (vm_cr3 s) s' va = mmu (vm_cr3 s) s va"
proof -
  have wf: "vm_wf s"
    using assms(1) by (simp add: new_root_def)
  note tab' = new_root_old_tree(1) [OF assms(1) _ assms(2)]
  have ent': "ent s' q j = ent s q j" if "vpath q" "j < 512" for q j
    using that tab' [OF that(1)] new_root_old_tree(2) [OF assms(1) that(1)]
    by (simp add: ent_def split: option.split)
  have fr: "pmm_frames (vm_pmm s') \<subseteq> pmm_frames (vm_pmm s)" "pmm_ok (vm_pmm s')"
    using assms(1) by (auto simp: new_root_def)
  show wf': "vm_wf s'"
    unfolding vm_wf_def
  proof (intro conjI allI impI ballI)
    fix p i assume "vpath (i # p)" "length p \<le> 1" "present (ent s' p i)"
    then show "\<not> large (ent s' p i)"
      using vm_wfD(6) [OF wf, of i p] ent' [of p i] by (simp add: vpath_Cons)
  qed (use fr vm_wfD(2-5) [OF wf] tab' in auto)
  show "mmu (vm_cr3 s) s' va = mmu (vm_cr3 s) s va" if "kernel_va va"
    using mmu_ent [OF wf' that] mmu_ent [OF wf that] that by (simp add: assms(2) Let_def ent')
qed

lemma new_root_tab:
  assumes "new_root s s' t keep" "vpath q" "q \<noteq> []"
  shows "tab (s'\<lparr>vm_cr3 := t\<rparr>) q = (if keep (last q) then tab s q else None)"
  using assms(2,3)
proof (induction q)
  case (Cons j q)
  have t: "page_aligned t"
    using assms(1) pm.frame_valid [of "vm_pmm s" t] vm_wfD(1) [of s] by (auto simp: new_root_def)
  have j: "vpath q" "j < 512"
    using Cons.prems by (simp_all add: vpath_Cons)
  show ?case
  proof (cases "q = []")
    case True
    then have "j < 511"
      using Cons.prems(1) by (auto simp: vpath_Cons word_less_nat_alt word_unat_eq_iff)
    then have "rd t j s' = (if keep j then ent s [] j else 0)"
      using assms(1) by (simp add: new_root_def)
    with True t show ?thesis
      by (simp add: tab_Cons ent_def)
  next
    case False
    with Cons.IH [OF j(1)] j show ?thesis
      using new_root_old_tree(2) [OF assms(1) j(1) _ j(2)]
      by (auto simp: tab.simps split: option.split)
  qed
qed simp

lemma less_511: "j < 512 \<Longrightarrow> j \<noteq> 511 \<Longrightarrow> j < (511 :: u64)"
  by (auto simp: word_less_nat_alt word_unat_eq_iff)

lemma new_root_ent:
  assumes "new_root s s' t keep" "vpath q" "j < 512" "q = [] \<Longrightarrow> j \<noteq> 511"
  shows "ent (s'\<lparr>vm_cr3 := t\<rparr>) q j = (if keep (last (j # q)) then ent s q j else 0)"
proof (cases "q = []")
  case True
  have "page_aligned t"
    using assms(1) pm.frame_valid [of "vm_pmm s" t] vm_wfD(1) [of s] by (auto simp: new_root_def)
  with True assms less_511 show ?thesis
    by (simp add: ent_def new_root_def)
next
  case False
  then show ?thesis
    using new_root_tab [OF assms(1,2)] new_root_old_tree(2) [OF assms(1,2) _ assms(3)]
    by (auto simp: ent_def split: option.split)
qed

lemma new_root_mmu:
  assumes r: "new_root s s' t keep"
  shows "vm_wf (s'\<lparr>vm_cr3 := t\<rparr>)"
    "kernel_va va \<Longrightarrow> mmu t s' va = (if keep (PML4_INDEX va) then mmu (vm_cr3 s) s va else None)"
proof -
  let ?s = "s'\<lparr>vm_cr3 := t\<rparr>"
  have wf: "vm_wf s" and t: "t \<in> pmm_frames (vm_pmm s)" "page_aligned t"
    using r pm.frame_valid [of "vm_pmm s" t] vm_wfD(1) [of s] by (auto simp: new_root_def)
  have fr: "pmm_frames (vm_pmm s') = pmm_frames (vm_pmm s) - {t}" "pmm_ok (vm_pmm s')"
    using r by (auto simp: new_root_def)
  have tabE: "q = [] \<and> y = t \<or> q \<noteq> [] \<and> tab s q = Some y" if "vpath q" "tab ?s q = Some y" for q y
    using that new_root_tab [OF r that(1)] t(2) by (cases "q = []") (auto split: if_splits)
  show wf': "vm_wf ?s"
    unfolding vm_wf_def
  proof (intro conjI allI impI ballI)
    fix q y assume "vpath q" "tab ?s q = Some y"
    then show "phys_ok y" "y \<notin> pmm_frames (vm_pmm ?s)"
      using tabE [of q y] vm_wfD(2-4) [OF wf] t(1) fr(1) by auto
  next
    fix q u y assume "vpath q" "vpath u" "tab ?s q = Some y" "tab ?s u = Some y"
    then show "q = u"
      using tabE [of q y] tabE [of u y] vm_wfD(4) [OF wf, of q t] vm_wfD(4) [OF wf, of u t]
        vm_wfD(5) [OF wf, of q u y] t(1) by auto
  next
    fix p i assume "vpath (i # p)" "length p \<le> 1" "present (ent ?s p i)"
    then show "\<not> large (ent ?s p i)"
      using vm_wfD(6) [OF wf, of i p] new_root_ent [OF r, of p i]
      by (auto simp: vpath_Cons split: if_splits)
  qed (use fr vm_wfD(2) [OF wf] in auto)
  show "mmu t s' va = (if keep (PML4_INDEX va) then mmu (vm_cr3 s) s va else None)"
    if k: "kernel_va va"
  proof -
    have "mmu t s' va = mmu t ?s va"
      by (simp add: mmu_def Let_def)
    moreover have "PML4_INDEX va \<noteq> 511"
      using k by (simp add: kernel_va_def)
    moreover note new_root_ent [OF r vpath_Nil index_bounds(1) [of va]]
      new_root_ent [OF r walk_paths(1) [OF k] index_bounds(2) [of va]]
      new_root_ent [OF r walk_paths(2) [OF k] index_bounds(3) [of va]]
      new_root_ent [OF r walk_paths(3) [OF k] index_bounds(4) [of va]]
    ultimately show ?thesis
      using mmu_ent [OF wf' k] mmu_ent [OF wf k]
      by (simp add: Let_def leaf_of_def [of va 0 0 0])
  qed
qed


lemma clear_set_bit:
  fixes r :: u64
  assumes "k < 64"
  shows "bit r k \<Longrightarrow> (r AND NOT (2 ^ k)) OR 2 ^ k = r" "\<not> bit r k \<Longrightarrow> r AND NOT (2 ^ k) = r"
  using assms by (auto intro!: bit_word_eqI simp: bit_simps)

lemma if_restore_cli:
  assumes "vm_rflags s' = vm_rflags s AND NOT 0x200"
  shows "if_restore (vm_rflags s) s' = s'\<lparr>vm_rflags := vm_rflags s\<rparr>"
proof -
  have "r AND 0x200 = 0 \<longleftrightarrow> \<not> bit r 9" for r :: u64
    using and_exp_eq_0_iff_not_bit [of r 9] by simp
  with clear_set_bit [of 9 "vm_rflags s"] assms show ?thesis
    by (cases s') (simp add: if_restore_def)
qed

lemma if_restore_fields [simp]:
  "rd t i (if_restore f s) = rd t i s" "vm_cr3 (if_restore f s) = vm_cr3 s"
  "vm_pmm (if_restore f s) = vm_pmm s"
  by (simp_all add: if_restore_def)

lemma copied_root:
  assumes wf: "vm_wf s" and t: "t \<in> pmm_frames (vm_pmm s)" "pmm_ok p"
      "pmm_frames p = pmm_frames (vm_pmm s) - {t}"
    and s': "vm_pmm s' = p"
      "\<And>u j. j < 512 \<Longrightarrow> rd u j s' = (if pt_ptr u = t
         then if j = 511 then x else if keep j then rd (vm_cr3 s) j s else 0 else rd u j s)"
  shows "new_root s s' t keep"
proof -
  have "page_aligned t"
    using pm.frame_valid [OF vm_wfD(1) [OF wf] t(1)] by simp
  then show ?thesis
    using assms by (auto simp: new_root_def ent_def word_less_nat_alt)
qed

lemma alloc_root_ne:
  assumes "vm_wf s" "t \<in> pmm_frames (vm_pmm s)"
  shows "pt_ptr (vm_cr3 s) \<noteq> t"
  using vm_wfD(4) [OF assms(1) vpath_Nil] assms(2) by auto

lemma index_range:
  fixes j :: u64
  shows "256 \<le> unat j \<longleftrightarrow> 256 \<le> j" "j < 512 \<Longrightarrow> unat j < 511 \<longleftrightarrow> j \<noteq> 511"
  by (auto simp: word_le_nat_alt word_less_nat_alt word_unat_eq_iff)

definition kernel_slot :: "u64 \<Rightarrow> bool" where
  "kernel_slot j \<longleftrightarrow> j = 0 \<or> 256 \<le> j"

lemma clone_pd_root:
  assumes wf: "vm_wf s" and fr: "pmm_frames (vm_pmm s) \<noteq> {}"
  obtains t s' where "paging_clone_pd s = (t, s')" "new_root s s' t kernel_slot"
    "vm_cr3 s' = vm_cr3 s" "vm_rflags s' = vm_rflags s" "pt_ptr (rd t 511 s') = t" "t \<noteq> 0"
proof -
  obtain t p where t: "vm_alloc s = (t, s\<lparr>vm_pmm := p\<rparr>)" "t \<noteq> 0" "t \<in> pmm_frames (vm_pmm s)"
    "page_aligned t" "pmm_ok p" "pmm_frames p = pmm_frames (vm_pmm s) - {t}"
    "pmm_alloc (vm_pmm s) = (t, p)"
    using vm_alloc_frame [OF wf fr] .
  define s2 where "s2 = s\<lparr>vm_rflags := vm_rflags s AND NOT 0x200, vm_pmm := p\<rparr>"
  define s5 where "s5 = wr t 511 (t OR PAGE_PRESENT OR PAGE_WRITE)
    (wr t 0 (rd (vm_cr3 s) 0 (copy_entries (vm_cr3 s) t 256 511 (zero_page_table t s2)))
      (copy_entries (vm_cr3 s) t 256 511 (zero_page_table t s2)))"
  have ne: "pt_ptr (vm_cr3 s) \<noteq> t"
    by (rule alloc_root_ne [OF wf t(3)])
  have al: "vm_alloc (s\<lparr>vm_rflags := vm_rflags s AND NOT 0x200\<rparr>) = (t, s2)"
    using t(7) by (simp add: vm_alloc_def s2_def)
  have "vm_rflags s5 = vm_rflags s AND NOT 0x200"
    by (simp add: s5_def s2_def copy_entries_fields)
  then have r: "if_restore (vm_rflags s) s5 = s5\<lparr>vm_rflags := vm_rflags s\<rparr>"
    by (rule if_restore_cli)
  have clone: "paging_clone_pd s = (t, if_restore (vm_rflags s) s5)"
    using al t(2) by (simp add: paging_clone_pd_def cli_save_def paging_cr3_def Let_def s5_def) (simp add: s2_def)
  have rd5: "rd u j s5 = (if pt_ptr u = t
         then if j = 511 then t OR PAGE_PRESENT OR PAGE_WRITE
              else if kernel_slot j then rd (vm_cr3 s) j s else 0 else rd u j s)" if "j < 512" for u j
    using that ne t(4)
    by (simp add: s5_def rd_wr rd_copy_entries rd_zero_page_table kernel_slot_def s2_def index_range)
  have "new_root s (if_restore (vm_rflags s) s5) t kernel_slot"
    using wf t rd5 by (intro copied_root [where p = p]) (simp_all add: s5_def s2_def copy_entries_fields)
  moreover have "pt_ptr (rd t 511 (if_restore (vm_rflags s) s5)) = t"
    using rd5 [of 511 t] t(4) aligned_or_flags [OF t(4), of 3] by (simp add: or.assoc)
  ultimately show ?thesis
    using that clone t(2) by (simp add: r) (simp add: s5_def s2_def copy_entries_fields)
qed


lemma vfork_root:
  assumes wf: "vm_wf s" and fr: "pmm_frames (vm_pmm s) \<noteq> {}"
  obtains t s' where "paging_vfork_clone s = (t, s')" "new_root s s' t (\<lambda>_. True)"
    "vm_cr3 s' = vm_cr3 s" "vm_rflags s' = vm_rflags s" "pt_ptr (rd t 511 s') = t" "t \<noteq> 0"
proof -
  obtain t p where t: "vm_alloc s = (t, s\<lparr>vm_pmm := p\<rparr>)" "t \<noteq> 0" "t \<in> pmm_frames (vm_pmm s)"
    "page_aligned t" "pmm_ok p" "pmm_frames p = pmm_frames (vm_pmm s) - {t}"
    "pmm_alloc (vm_pmm s) = (t, p)"
    using vm_alloc_frame [OF wf fr] .
  define s2 where "s2 = s\<lparr>vm_rflags := vm_rflags s AND NOT 0x200, vm_pmm := p\<rparr>"
  define s4 where "s4 = wr t 511 (t OR PAGE_PRESENT OR PAGE_WRITE) (copy_entries (vm_cr3 s) t 0 511 s2)"
  have ne: "pt_ptr (vm_cr3 s) \<noteq> t"
    by (rule alloc_root_ne [OF wf t(3)])
  have al: "vm_alloc (s\<lparr>vm_rflags := vm_rflags s AND NOT 0x200\<rparr>) = (t, s2)"
    using t(7) by (simp add: vm_alloc_def s2_def)
  have "vm_rflags s4 = vm_rflags s AND NOT 0x200"
    by (simp add: s4_def s2_def copy_entries_fields)
  then have r: "if_restore (vm_rflags s) s4 = s4\<lparr>vm_rflags := vm_rflags s\<rparr>"
    by (rule if_restore_cli)
  have clone: "paging_vfork_clone s = (t, if_restore (vm_rflags s) s4)"
    using al t(2) by (simp add: paging_vfork_clone_def cli_save_def paging_cr3_def Let_def s4_def)
  have rd4: "rd u j s4 = (if pt_ptr u = t
         then if j = 511 then t OR PAGE_PRESENT OR PAGE_WRITE
              else if True then rd (vm_cr3 s) j s else 0 else rd u j s)" if "j < 512" for u j
    using that ne t(4) by (simp add: s4_def rd_wr rd_copy_entries s2_def index_range)
  have "new_root s (if_restore (vm_rflags s) s4) t (\<lambda>_. True)"
    using wf t rd4 by (intro copied_root [where p = p]) (simp_all add: s4_def s2_def copy_entries_fields)
  moreover have "pt_ptr (rd t 511 (if_restore (vm_rflags s) s4)) = t"
    using rd4 [of 511 t] t(4) aligned_or_flags [OF t(4), of 3] by (simp add: or.assoc)
  ultimately show ?thesis
    using that clone t(2) by (simp add: r) (simp add: s4_def s2_def copy_entries_fields)
qed

lemma init_root:
  assumes wf: "vm_wf s" and fr: "pmm_frames (vm_pmm s) \<noteq> {}"
  obtains t s' where "paging_init s = s'\<lparr>vm_cr3 := t\<rparr>" "new_root s s' t kernel_slot"
    "pt_ptr (rd t 511 s') = t" "t \<in> pmm_frames (vm_pmm s)"
proof -
  obtain t p where t: "vm_alloc s = (t, s\<lparr>vm_pmm := p\<rparr>)" "t \<noteq> 0" "t \<in> pmm_frames (vm_pmm s)"
    "page_aligned t" "pmm_ok p" "pmm_frames p = pmm_frames (vm_pmm s) - {t}"
    "pmm_alloc (vm_pmm s) = (t, p)"
    using vm_alloc_frame [OF wf fr] .
  define s1 where "s1 = s\<lparr>vm_pmm := p\<rparr>"
  define s5 where "s5 = wr t 511 (t OR PAGE_PRESENT OR PAGE_WRITE) (copy_entries (vm_cr3 s) t 256 511
    (wr t 0 (rd (vm_cr3 s) 0 (zero_page_table t s1)) (zero_page_table t s1)))"
  have ne: "pt_ptr (vm_cr3 s) \<noteq> t"
    by (rule alloc_root_ne [OF wf t(3)])
  have rd5: "rd u j s5 = (if pt_ptr u = t
         then if j = 511 then t OR PAGE_PRESENT OR PAGE_WRITE
              else if kernel_slot j then rd (vm_cr3 s) j s else 0 else rd u j s)" if "j < 512" for u j
    using that ne t(4)
    by (auto simp add: s5_def rd_wr rd_copy_entries rd_zero_page_table kernel_slot_def s1_def index_range)
  have "new_root s s5 t kernel_slot"
    using wf t rd5 by (intro copied_root [where p = p]) (simp_all add: s5_def s1_def copy_entries_fields)
  moreover have "pt_ptr (rd t 511 s5) = t"
    using rd5 [of 511 t] t(4) aligned_or_flags [OF t(4), of 3] by (simp add: or.assoc)
  moreover have "paging_init s = s5\<lparr>vm_cr3 := t\<rparr>"
    using t(1) by (simp add: paging_init_def paging_load_cr3_def paging_cr3_def Let_def s5_def s1_def)
  ultimately show ?thesis
    using that t(3) by blast
qed

section \<open>Properties\<close>

lemma same_page_inj:
  assumes "page_aligned v" "page_aligned w" "drop_bit 48 v = drop_bit 48 w" "same_page v w"
  shows "v = w"
proof (rule bit_word_eqI)
  fix n assume n: "n < LENGTH(64)"
  have ix: "PML4_INDEX x = take_bit 9 (drop_bit 39 x)" "PDPT_INDEX x = take_bit 9 (drop_bit 30 x)"
    "PD_INDEX x = take_bit 9 (drop_bit 21 x)" "PT_INDEX x = take_bit 9 (drop_bit 12 x)" for x
    by (simp_all add: PML4_INDEX_def PDPT_INDEX_def PD_INDEX_def PT_INDEX_def take_bit_eq_mask
        mask_eq_exp_minus_1)
  have field: "bit v n = bit w n" if "take_bit 9 (drop_bit k v) = take_bit 9 (drop_bit k w)"
      "k \<le> n" "n < k + 9" for k
    using that(2,3) arg_cong [OF that(1), of "\<lambda>x. bit x (n - k)"]
    by (simp add: bit_simps less_diff_conv2)
  have low: "\<not> bit x n" if "page_aligned x" "n < 12" for x
  proof -
    have "x AND mask 12 = 0"
      using that(1) by (simp add: page_aligned_def mask_12)
    then have "\<not> bit (x AND mask 12) n"
      by simp
    with that(2) show ?thesis
      by (simp add: bit_simps)
  qed
  consider "n < 12" | "12 \<le> n" "n < 21" | "21 \<le> n" "n < 30" | "30 \<le> n" "n < 39"
    | "39 \<le> n" "n < 48" | "48 \<le> n"
    by linarith
  then show "bit v n = bit w n"
  proof cases
    case 6
    then show ?thesis
      using arg_cong [OF assms(3), of "\<lambda>x. bit x (n - 48)"] by (simp add: bit_simps)
  qed (use assms low field in \<open>auto simp: same_page_def same_2m_def ix\<close>)
qed


text \<open>
  C1. Mapping a page: in a well-formed address space with three free frames, \<open>paging_map_page\<close>
  keeps the tables well formed and the processor then translates the page to the requested
  physical page, with the requested caching bits and with rights bounded by the requested ones.
  Every other page (outside of the recursive window) keeps its translation and rights exactly;
  its caching bits change only when it shares a split 2 MiB page with the mapped one and the
  caller asked for a caching mode.
\<close>

theorem paging_map_page_correct:
  assumes "vm_wf s" "kernel_va va" "3 \<le> card (pmm_frames (vm_pmm s))"
    and "s' = paging_map_page va pa flags s"
  shows "vm_wf s' \<and> vm_cr3 s' = vm_cr3 s \<and>
    mmu (vm_cr3 s) s' va = Some ((pa AND PHYS_MASK) OR (va AND mask 12),
       table_rights s' va AND ucast flags AND 6, caching flags) \<and>
    (\<forall>va'. kernel_va va' \<and> \<not> same_page va va' \<longrightarrow> mmu (vm_cr3 s) s' va' =
       map_option (recache (large_mapped s va \<and> same_2m va va') flags) (mmu (vm_cr3 s) s va'))"
  using map_page_effect [OF assms(1-3), where pa = pa and flags = flags] assms(4)
  by (simp add: prepared_def)

definition empty_vm :: "u64 list \<Rightarrow> vm_state" where
  "empty_vm fs = \<lparr>vm_mem = (\<lambda>_. 0), vm_cr3 = 0x1000, vm_rflags = 0x202, vm_inv = [],
     vm_pmm = \<lparr>pmm_stack = fs, pmm_total_memory = 0\<rparr>\<rparr>"

lemma empty_vm_wf:
  assumes "pmm_ok \<lparr>pmm_stack = fs, pmm_total_memory = 0\<rparr>" "\<forall>f \<in> set fs. phys_ok f" "0x1000 \<notin> set fs"
  shows "vm_wf (empty_vm fs)"
proof -
  have ent: "ent (empty_vm fs) p i = 0" for p i
    by (simp add: ent_def empty_vm_def rd_def split: option.split)
  have "tab (empty_vm fs) p = (if p = [] then Some 0x1000 else None)" for p
    by (cases p) (simp_all add: tab_Cons ent, simp add: empty_vm_def pt_ptr_def)
  with ent assms show ?thesis
    by (auto simp: vm_wf_def pmm_frames_def phys_ok_def PHYS_MASK_def split: if_splits)
       (simp_all add: empty_vm_def)
qed

lemma empty_vm_frames: "pmm_frames (vm_pmm (empty_vm fs)) = set fs"
  by (simp add: empty_vm_def pmm_frames_def)

lemma empty_vm3_wf: "vm_wf (empty_vm [0x2000, 0x3000, 0x4000, 0x5000, 0x6000, 0x7000])"
  by (rule empty_vm_wf) (simp_all add: pmm_ok_def page_aligned_def phys_ok_def PHYS_MASK_def)

theorem paging_map_page_correct_witness:
  "fst (the (mmu 0x1000 (paging_map_page 0x40201000 0xB8000 2
       (empty_vm [0x2000, 0x3000, 0x4000, 0x5000, 0x6000, 0x7000])) 0x40201000)) = 0xB8000"
proof -
  have "kernel_va 0x40201000"
    by (simp add: kernel_va_def PML4_INDEX_def drop_bit_eq_div)
  from paging_map_page_correct [OF empty_vm3_wf this _ refl, of "0xB8000" 2] show ?thesis
    by (simp add: empty_vm_frames PHYS_MASK_def mask_eq_exp_minus_1) (simp add: empty_vm_def)
qed


lemma drop_bit_between:
  fixes a b x :: u64
  assumes "a \<le> x" "x \<le> b" "drop_bit n a = drop_bit n b"
  shows "drop_bit n x = drop_bit n a"
proof -
  have "unat a div 2 ^ n \<le> unat x div 2 ^ n" "unat x div 2 ^ n \<le> unat b div 2 ^ n"
    using assms(1,2) by (simp_all add: div_le_mono word_le_nat_alt)
  moreover have "unat a div 2 ^ n = unat b div 2 ^ n"
    using arg_cong [OF assms(3), of unat] by (simp only: unat_drop_bit_eq) (simp add: drop_bit_eq_div)
  ultimately show ?thesis
    by (simp only: word_unat_eq_iff unat_drop_bit_eq) (simp add: drop_bit_eq_div)
qed

text \<open>
  C6. Mapping a region: for a page-aligned, non-empty region that stays inside one canonical half
  and outside of the recursive window, \<open>paging_map_region\<close> returns, keeps the tables well
  formed, and afterwards every page of the region is translated to the physical page at the
  same offset, with the requested caching bits.
\<close>

theorem paging_map_region_correct:
  assumes "vm_wf s" "page_aligned va" "0 < sz" "unat va + unat sz + 4096 \<le> 2 ^ 64"
    and "drop_bit 48 va = drop_bit 48 (va + sz - 1)"
    and "\<forall>v \<in> set (page_range va (va + sz)). kernel_va v"
    and "3 * length (page_range va (va + sz)) \<le> card (pmm_frames (vm_pmm s))"
  shows "\<exists>s'. paging_map_region va pa sz flags s = Some s' \<and> vm_wf s' \<and> vm_cr3 s' = vm_cr3 s \<and>
    (\<forall>v. page_aligned v \<and> va \<le> v \<and> v < va + sz \<longrightarrow> maps_to s' v (pa + (v - va)) flags)"
proof -
  have e: "unat (va + sz) = unat va + unat sz"
    using assms(4) by (simp add: unat_word_ariths)
  then have lb: "loop_bound (va + sz)"
    using assms(4) by (simp add: loop_bound_def)
  have "0 < unat sz"
    using assms(3) by (simp add: word_less_nat_alt)
  then have "unat (va + sz - 1) = unat va + unat sz - 1"
    using e unat_sub [of 1 "va + sz"] by (simp add: word_le_nat_alt)
  then have top: "v \<le> va + sz - 1" if "v < va + sz" for v
    using that e by (simp add: word_less_nat_alt word_le_nat_alt)
  note pr = set_page_range [OF lb assms(2)]
  have "\<not> same_page x y" if "x \<in> set (page_range va (va + sz))" "y \<in> set (page_range va (va + sz))"
      "x \<noteq> y" for x y
    using that same_page_inj [of x y] drop_bit_between [OF _ top assms(5)] by (auto simp: pr)
  from map_pages_fold [OF assms(1,6) distinct_page_range [OF lb assms(2)] _ assms(7),
      where f = "\<lambda>v. pa + (v - va)" and flags = flags] this
  show ?thesis
    by (simp add: paging_map_region_def map_region_loop_eq [OF lb] prepared_def pr)
qed

theorem paging_map_region_correct_witness:
  "\<exists>s'. paging_map_region 0xFEE00000 0xFEC00000 0x1800 0x1A
       (empty_vm [0x2000, 0x3000, 0x4000, 0x5000, 0x6000, 0x7000]) = Some s' \<and>
     maps_to s' 0xFEE01000 0xFEC01000 0x1A"
proof -
  let ?s = "empty_vm [0x2000, 0x3000, 0x4000, 0x5000, 0x6000, 0x7000]"
  have pr: "page_range 0xFEE00000 (0xFEE00000 + 0x1800) = [0xFEE00000, 0xFEE01000]"
    by (simp add: page_range_def upt_rec)
  have "\<exists>s'. paging_map_region 0xFEE00000 0xFEC00000 0x1800 0x1A ?s = Some s' \<and> vm_wf s' \<and>
     vm_cr3 s' = vm_cr3 ?s \<and> (\<forall>v. page_aligned v \<and> 0xFEE00000 \<le> v \<and> v < 0xFEE00000 + 0x1800 \<longrightarrow>
       maps_to s' v (0xFEC00000 + (v - 0xFEE00000)) 0x1A)"
    by (rule paging_map_region_correct [OF empty_vm3_wf])
       (simp_all only: pr, simp_all add: page_aligned_def kernel_va_def PML4_INDEX_def drop_bit_eq_div
         empty_vm_frames)
  then obtain s' where "paging_map_region 0xFEE00000 0xFEC00000 0x1800 0x1A ?s = Some s'"
    and "\<forall>v. page_aligned v \<and> 0xFEE00000 \<le> v \<and> v < 0xFEE00000 + 0x1800 \<longrightarrow>
       maps_to s' v (0xFEC00000 + (v - 0xFEE00000)) 0x1A"
    by blast
  from this(1) spec [OF this(2), of "0xFEE01000"] show ?thesis
    by (simp add: page_aligned_def)
qed

text \<open>
  C13. A new address space for a task: \<open>paging_clone_pd\<close> returns a root, taken from the free
  frames, whose translations are those of the caller for the identity tree and the kernel half
  and empty for user space; it is well formed, carries the recursive self-map, and the caller's
  own translations, its root and its interrupt flag are as before.
\<close>

theorem paging_clone_pd_correct:
  assumes "vm_wf s" "pmm_frames (vm_pmm s) \<noteq> {}" "paging_clone_pd s = (t, s')"
  shows "t \<in> pmm_frames (vm_pmm s) \<and> vm_wf s' \<and> vm_wf (s'\<lparr>vm_cr3 := t\<rparr>) \<and> pt_ptr (rd t 511 s') = t \<and>
    vm_cr3 s' = vm_cr3 s \<and> vm_rflags s' = vm_rflags s \<and>
    (\<forall>va. kernel_va va \<longrightarrow> mmu (vm_cr3 s) s' va = mmu (vm_cr3 s) s va \<and>
       mmu t s' va = (if PML4_INDEX va = 0 \<or> 256 \<le> PML4_INDEX va then mmu (vm_cr3 s) s va else None))"
proof -
  obtain t' s'' where c: "paging_clone_pd s = (t', s'')" and r: "new_root s s'' t' kernel_slot"
    and f: "vm_cr3 s'' = vm_cr3 s" "vm_rflags s'' = vm_rflags s" "pt_ptr (rd t' 511 s'') = t'" "t' \<noteq> 0"
    using clone_pd_root [OF assms(1,2)] .
  have [simp]: "t' = t" "s'' = s'"
    using c assms(3) by simp_all
  show ?thesis
    using f r new_root_old_mmu [OF r f(1)] new_root_mmu [OF r] new_root_def [of s s' t kernel_slot]
    by (auto simp: kernel_slot_def)
qed

theorem paging_clone_pd_correct_witness:
  "\<exists>t s'. paging_clone_pd (empty_vm [0x2000, 0x3000, 0x4000, 0x5000, 0x6000, 0x7000]) = (t, s') \<and>
     vm_wf (s'\<lparr>vm_cr3 := t\<rparr>) \<and> vm_rflags s' = 0x202"
proof -
  obtain t s' where "paging_clone_pd (empty_vm [0x2000, 0x3000, 0x4000, 0x5000, 0x6000, 0x7000]) = (t, s')"
    by fastforce
  with paging_clone_pd_correct [OF empty_vm3_wf _ this] show ?thesis
    by (simp add: empty_vm_frames) (simp add: empty_vm_def)
qed

text \<open>
  C27. The clone made for \<open>vfork\<close> translates every address outside of the recursive window as
  the parent does, and leaves the parent's address space and interrupt flag as they were.
\<close>

theorem paging_vfork_clone_correct:
  assumes "vm_wf s" "pmm_frames (vm_pmm s) \<noteq> {}" "paging_vfork_clone s = (t, s')"
  shows "t \<in> pmm_frames (vm_pmm s) \<and> vm_wf s' \<and> vm_wf (s'\<lparr>vm_cr3 := t\<rparr>) \<and> pt_ptr (rd t 511 s') = t \<and>
    vm_cr3 s' = vm_cr3 s \<and> vm_rflags s' = vm_rflags s \<and>
    (\<forall>va. kernel_va va \<longrightarrow> mmu (vm_cr3 s) s' va = mmu (vm_cr3 s) s va \<and>
       mmu t s' va = mmu (vm_cr3 s) s va)"
proof -
  obtain t' s'' where c: "paging_vfork_clone s = (t', s'')" and r: "new_root s s'' t' (\<lambda>_. True)"
    and f: "vm_cr3 s'' = vm_cr3 s" "vm_rflags s'' = vm_rflags s" "pt_ptr (rd t' 511 s'') = t'" "t' \<noteq> 0"
    using vfork_root [OF assms(1,2)] .
  have [simp]: "t' = t" "s'' = s'"
    using c assms(3) by simp_all
  show ?thesis
    using f r new_root_old_mmu [OF r f(1)] new_root_mmu [OF r] new_root_def [of s s' t "\<lambda>_. True"]
    by auto
qed

theorem paging_vfork_clone_correct_witness:
  "\<exists>t s'. paging_vfork_clone (empty_vm [0x2000, 0x3000, 0x4000, 0x5000, 0x6000, 0x7000]) = (t, s') \<and>
     vm_wf (s'\<lparr>vm_cr3 := t\<rparr>) \<and> vm_rflags s' = 0x202"
proof -
  obtain t s' where "paging_vfork_clone (empty_vm [0x2000, 0x3000, 0x4000, 0x5000, 0x6000, 0x7000]) = (t, s')"
    by fastforce
  with paging_vfork_clone_correct [OF empty_vm3_wf _ this] show ?thesis
    by (simp add: empty_vm_frames) (simp add: empty_vm_def)
qed

text \<open>
  A page mapped for user mode below a root slot that was empty is not accessible to user
  mode: the tables \<open>paging_map_page\<close> creates on the way grant write but not user access.
\<close>

theorem paging_map_page_user_lost:
  assumes "vm_wf s" "kernel_va va" "3 \<le> card (pmm_frames (vm_pmm s))"
    and "\<not> present (ent s [] (PML4_INDEX va))"
  shows "\<exists>p k. mmu (vm_cr3 s) (paging_map_page va pa (2 OR 4) s) va = Some (p, PAGE_WRITE, k)"
proof -
  let ?s' = "paging_map_page va pa (2 OR 4) s"
  have "table_rights ?s' va AND 6 = 2"
    using map_page_effect(4) [OF assms(1-3)] assms(4) by blast
  then show ?thesis
    using map_page_effect(2) [OF assms(1-3), of pa "2 OR 4"] by simp
qed

theorem paging_map_page_user_lost_witness:
  "\<exists>p k. mmu 0x1000 (paging_map_page 0x8000000000 0x300000 (2 OR 4)
     (empty_vm [0x2000, 0x3000, 0x4000, 0x5000, 0x6000, 0x7000])) 0x8000000000 = Some (p, PAGE_WRITE, k)"
proof -
  let ?s = "empty_vm [0x2000, 0x3000, 0x4000, 0x5000, 0x6000, 0x7000]"
  have "kernel_va 0x8000000000"
    by (simp add: kernel_va_def PML4_INDEX_def drop_bit_eq_div)
  moreover have "\<not> present (ent ?s [] (PML4_INDEX 0x8000000000))"
    by (simp add: ent_def rd_def empty_vm_def)
  ultimately have "\<exists>p k. mmu (vm_cr3 ?s) (paging_map_page 0x8000000000 0x300000 (2 OR 4) ?s) 0x8000000000
      = Some (p, PAGE_WRITE, k)"
    by (intro paging_map_page_user_lost [OF empty_vm3_wf]) (simp_all add: empty_vm_frames)
  then show ?thesis
    by (simp add: empty_vm_def)
qed

end
