(* ===== verification/Libkern_String.thy ===== *)
theory Libkern_String
  imports Xk_Prelude
begin

text \<open>
  The memory and string routines of libkern, libkern/libkern/string.c, over a byte-addressed
  memory. Pointers are 64-bit words, so pointer arithmetic wraps as on the machine. A load and
  store of a wider type moves that many bytes at once. Loops bounded by a counter recurse over
  it; loops that run until a zero byte are partial functions into \<open>option\<close>.
\<close>

section \<open>Model\<close>

type_synonym mem = "u64 \<Rightarrow> u8"

definition load_bytes :: "u64 \<Rightarrow> nat \<Rightarrow> mem \<Rightarrow> u8 list" where
  "load_bytes s w m = map (\<lambda>i. m (s + of_nat i)) [0..<w]"

primrec store_bytes :: "u64 \<Rightarrow> u8 list \<Rightarrow> mem \<Rightarrow> mem" where
  "store_bytes d [] m = m"
| "store_bytes d (x # xs) m = store_bytes (d + 1) xs (m(d := x))"

text \<open>\<open>while (n >= w) { *dw++ = *sw++; n -= w; }\<close> on elements of \<open>w\<close> bytes.\<close>

function copy_words :: "nat \<Rightarrow> u64 \<Rightarrow> u64 \<Rightarrow> nat \<Rightarrow> mem \<Rightarrow> u64 \<times> u64 \<times> nat \<times> mem" where
  "copy_words w d s n m =
     (if 0 < w \<and> w \<le> n
      then copy_words w (d + of_nat w) (s + of_nat w) (n - w) (store_bytes d (load_bytes s w m) m)
      else (d, s, n, m))"
  by pat_completeness auto
termination by (relation "measure (\<lambda>(w, d, s, n, m). n)") auto

declare copy_words.simps [simp del]

definition memcpy :: "u64 \<Rightarrow> u64 \<Rightarrow> u32 \<Rightarrow> mem \<Rightarrow> mem" where
  "memcpy dest src n m =
     (let (d1, s1, n1, m1) =
            (if (dest OR src) AND 7 = 0 then copy_words 8 dest src (unat n) m
             else (dest, src, unat n, m));
          (d2, s2, n2, m2) =
            (if (d1 OR s1) AND 3 = 0 then copy_words 4 d1 s1 n1 m1 else (d1, s1, n1, m1));
          (d3, s3, n3, m3) = copy_words 1 d2 s2 n2 m2
      in m3)"

text \<open>\<open>while (n--) *--d = *--s;\<close>\<close>

primrec copy_down :: "u64 \<Rightarrow> u64 \<Rightarrow> nat \<Rightarrow> mem \<Rightarrow> mem" where
  "copy_down d s 0 m = m"
| "copy_down d s (Suc n) m = copy_down (d - 1) (s - 1) n (m(d - 1 := m (s - 1)))"

definition memmove :: "u64 \<Rightarrow> u64 \<Rightarrow> u32 \<Rightarrow> mem \<Rightarrow> mem" where
  "memmove dest src n m =
     (if dest = src then m
      else if dest < src then memcpy dest src n m
      else copy_down (dest + ucast n) (src + ucast n) (unat n) m)"

text \<open>The bytes of a 32-bit value in memory order.\<close>

definition u32_bytes :: "u32 \<Rightarrow> u8 list" where
  "u32_bytes x = [ucast x, ucast (drop_bit 8 x), ucast (drop_bit 16 x), ucast (drop_bit 24 x)]"

primrec set_bytes :: "u64 \<Rightarrow> u8 \<Rightarrow> nat \<Rightarrow> mem \<Rightarrow> mem" where
  "set_bytes p c 0 m = m"
| "set_bytes p c (Suc n) m = set_bytes (p + 1) c n (m(p := c))"

function set_words :: "u64 \<Rightarrow> u32 \<Rightarrow> nat \<Rightarrow> mem \<Rightarrow> u64 \<times> nat \<times> mem" where
  "set_words p v n m =
     (if 4 \<le> n then set_words (p + 4) v (n - 4) (store_bytes p (u32_bytes v) m) else (p, n, m))"
  by pat_completeness auto
termination by (relation "measure (\<lambda>(p, v, n, m). n)") auto

declare set_words.simps [simp del]

definition memset :: "u64 \<Rightarrow> 32 word \<Rightarrow> u32 \<Rightarrow> mem \<Rightarrow> mem" where
  "memset s c n m =
     (let (p, k, m1) =
            (if s AND 3 = 0
             then set_words s (ucast (ucast (ucast c :: u8) * 0x0101010101010101 :: u64)) (unat n) m
             else (s, unat n, m))
      in set_bytes p (ucast c) k m1)"

primrec memcmp_loop :: "u64 \<Rightarrow> u64 \<Rightarrow> nat \<Rightarrow> mem \<Rightarrow> int" where
  "memcmp_loop a b 0 m = 0"
| "memcmp_loop a b (Suc n) m =
     (if m a \<noteq> m b then uint (m a) - uint (m b) else memcmp_loop (a + 1) (b + 1) n m)"

definition memcmp :: "u64 \<Rightarrow> u64 \<Rightarrow> u32 \<Rightarrow> mem \<Rightarrow> int" where
  "memcmp s1 s2 n m = memcmp_loop s1 s2 (unat n) m"

primrec memchr_loop :: "u64 \<Rightarrow> u8 \<Rightarrow> nat \<Rightarrow> mem \<Rightarrow> u64" where
  "memchr_loop p c 0 m = 0"
| "memchr_loop p c (Suc n) m = (if m p = c then p else memchr_loop (p + 1) c n m)"

definition memchr :: "u64 \<Rightarrow> 32 word \<Rightarrow> u32 \<Rightarrow> mem \<Rightarrow> u64" where
  "memchr s c n m = memchr_loop s (ucast c) (unat n) m"

partial_function (option) strlen_loop :: "u64 \<Rightarrow> u32 \<Rightarrow> mem \<Rightarrow> u32 option" where
  "strlen_loop s n m = (if m (s + ucast n) \<noteq> 0 then strlen_loop s (n + 1) m else Some n)"

definition strlen :: "u64 \<Rightarrow> mem \<Rightarrow> u32 option" where
  "strlen s m = strlen_loop s 0 m"

partial_function (option) strcmp :: "u64 \<Rightarrow> u64 \<Rightarrow> mem \<Rightarrow> int option" where
  "strcmp s1 s2 m =
     (if m s1 \<noteq> 0 \<and> m s1 = m s2 then strcmp (s1 + 1) (s2 + 1) m
      else Some (uint (m s1) - uint (m s2)))"

primrec strncmp_loop :: "u64 \<Rightarrow> u64 \<Rightarrow> nat \<Rightarrow> mem \<Rightarrow> int" where
  "strncmp_loop s1 s2 0 m = 0"
| "strncmp_loop s1 s2 (Suc n) m =
     (if m s1 \<noteq> m s2 \<or> m s1 = 0 then uint (m s1) - uint (m s2)
      else strncmp_loop (s1 + 1) (s2 + 1) n m)"

definition strncmp :: "u64 \<Rightarrow> u64 \<Rightarrow> u32 \<Rightarrow> mem \<Rightarrow> int" where
  "strncmp s1 s2 n m = strncmp_loop s1 s2 (unat n) m"

partial_function (option) strcpy :: "u64 \<Rightarrow> u64 \<Rightarrow> mem \<Rightarrow> mem option" where
  "strcpy d s m =
     (if m s = 0 then Some (m(d := m s)) else strcpy (d + 1) (s + 1) (m(d := m s)))"

text \<open>
  \<open>while (n-- && (*d++ = *src++));\<close> returns the advanced pointer, the counter as the loop leaves
  it (a test of zero still decrements it) and the memory.
\<close>

primrec strncpy_copy :: "nat \<Rightarrow> u64 \<Rightarrow> u64 \<Rightarrow> mem \<Rightarrow> u64 \<times> u32 \<times> mem" where
  "strncpy_copy 0 d s m = (d, 0 - 1, m)"
| "strncpy_copy (Suc n) d s m =
     (if m s = 0 then (d + 1, of_nat n, m(d := m s))
      else strncpy_copy n (d + 1) (s + 1) (m(d := m s)))"

definition strncpy :: "u64 \<Rightarrow> u64 \<Rightarrow> u32 \<Rightarrow> mem \<Rightarrow> mem" where
  "strncpy dest src n m =
     (let (d, k, m1) = strncpy_copy (unat n) dest src m
      in if k \<noteq> 0 then set_bytes d 0 (unat k) m1 else m1)"

partial_function (option) string_end :: "u64 \<Rightarrow> mem \<Rightarrow> u64 option" where
  "string_end d m = (if m d \<noteq> 0 then string_end (d + 1) m else Some d)"

definition strcat :: "u64 \<Rightarrow> u64 \<Rightarrow> mem \<Rightarrow> mem option" where
  "strcat dest src m = (case string_end dest m of None \<Rightarrow> None | Some d \<Rightarrow> strcpy d src m)"

primrec strncat_copy :: "nat \<Rightarrow> u64 \<Rightarrow> u64 \<Rightarrow> mem \<Rightarrow> mem" where
  "strncat_copy 0 d s m = m"
| "strncat_copy (Suc n) d s m =
     (if m s = 0 then m else strncat_copy n (d + 1) (s + 1) (m(d := m s)))"

definition strncat :: "u64 \<Rightarrow> u64 \<Rightarrow> u32 \<Rightarrow> mem \<Rightarrow> mem option" where
  "strncat dest src n m =
     (case string_end dest m of None \<Rightarrow> None
      | Some d \<Rightarrow> Some ((strncat_copy (unat n) d src m)(d + ucast n := 0)))"

partial_function (option) strchr_loop :: "u64 \<Rightarrow> u8 \<Rightarrow> bool \<Rightarrow> mem \<Rightarrow> u64 option" where
  "strchr_loop s c z m =
     (if m s \<noteq> 0 then if m s = c then Some s else strchr_loop (s + 1) c z m
      else Some (if z then s else 0))"

definition strchr :: "u64 \<Rightarrow> 32 word \<Rightarrow> mem \<Rightarrow> u64 option" where
  "strchr s c m = strchr_loop s (ucast c) (c = 0) m"

partial_function (option) strrchr_loop :: "u64 \<Rightarrow> u8 \<Rightarrow> bool \<Rightarrow> u64 \<Rightarrow> mem \<Rightarrow> u64 option" where
  "strrchr_loop s c z last_hit m =
     (if m s \<noteq> 0 then strrchr_loop (s + 1) c z (if m s = c then s else last_hit) m
      else Some (if z then s else last_hit))"

definition strrchr :: "u64 \<Rightarrow> 32 word \<Rightarrow> mem \<Rightarrow> u64 option" where
  "strrchr s c m = strrchr_loop s (ucast c) (c = 0) 0 m"

partial_function (option) match_at :: "u64 \<Rightarrow> u64 \<Rightarrow> mem \<Rightarrow> bool option" where
  "match_at h n m =
     (if m h \<noteq> 0 \<and> m n \<noteq> 0 \<and> m h = m n then match_at (h + 1) (n + 1) m else Some (m n = 0))"

partial_function (option) strstr_loop :: "u64 \<Rightarrow> u64 \<Rightarrow> mem \<Rightarrow> u64 option" where
  "strstr_loop h n m =
     (if m h \<noteq> 0
      then case match_at h n m of None \<Rightarrow> None
           | Some b \<Rightarrow> if b then Some h else strstr_loop (h + 1) n m
      else Some 0)"

definition strstr :: "u64 \<Rightarrow> u64 \<Rightarrow> mem \<Rightarrow> u64 option" where
  "strstr haystack needle m = (if m needle = 0 then Some haystack else strstr_loop haystack needle m)"

section \<open>Copies\<close>

text \<open>The specification of a copy: \<open>n\<close> bytes from \<open>s\<close> appear at \<open>d\<close>, nothing else changes.\<close>

definition copied :: "u64 \<Rightarrow> u64 \<Rightarrow> nat \<Rightarrow> mem \<Rightarrow> mem" where
  "copied d s n m = (\<lambda>a. if unat (a - d) < n then m (s + (a - d)) else m a)"

definition filled :: "u64 \<Rightarrow> u8 \<Rightarrow> nat \<Rightarrow> mem \<Rightarrow> mem" where
  "filled p c n m = (\<lambda>a. if unat (a - p) < n then c else m a)"

lemma unat_u64: "unat (x :: u64) < 18446744073709551616"
  using unsigned_less [of x, where ?'a = nat] by simp

lemma unat_u32: "unat (x :: u32) < 4294967296"
  using unsigned_less [of x, where ?'a = nat] by simp

lemma unat_minus_of_nat:
  fixes x :: u64
  assumes "k \<le> unat x"
  shows "unat (x - of_nat k) = unat x - k"
proof -
  have k: "unat (of_nat k :: u64) = k"
    using assms unat_u64 [of x] by (simp add: unat_of_nat)
  then have "of_nat k \<le> x"
    using assms by (simp add: word_le_nat_alt)
  with k show ?thesis by (simp add: unat_sub)
qed

lemma unat_minus_of_nat_wrap:
  fixes x :: u64
  assumes "unat x < k" "k < 2 ^ 64"
  shows "unat (x - of_nat k) = 2 ^ 64 + unat x - k"
proof -
  have "unat (of_nat k :: u64) = k"
    using assms by (simp add: unat_of_nat)
  then show ?thesis
    using assms by (simp add: unat_sub_if')
qed

lemma nth_store_bytes:
  assumes "length xs < 2 ^ 64"
  shows "store_bytes d xs m a = (if unat (a - d) < length xs then xs ! unat (a - d) else m a)"
  using assms
proof (induction xs arbitrary: d m)
  case (Cons x xs)
  have eq: "a - (d + 1) = (a - d) - of_nat 1"
    by simp
  show ?case
  proof (cases "a = d")
    case True
    then have "unat (a - (d + 1)) = 2 ^ 64 - 1"
      unfolding eq by (subst unat_minus_of_nat_wrap) simp_all
    with Cons True show ?thesis by simp
  next
    case False
    then have pos: "0 < unat (a - d)"
      by (simp add: unat_gt_0)
    then have "unat (a - (d + 1)) = unat (a - d) - 1"
      unfolding eq by (subst unat_minus_of_nat) simp_all
    with Cons False pos show ?thesis
      by (cases "unat (a - d)") auto
  qed
qed simp


lemma store_load_copied: "w < 2 ^ 64 \<Longrightarrow> store_bytes d (load_bytes s w m) m = copied d s w m"
  by (rule ext) (simp add: nth_store_bytes load_bytes_def copied_def)

text \<open>Copying upwards is safe when the destination does not start inside the rest of the source.\<close>

definition upward_ok :: "u64 \<Rightarrow> u64 \<Rightarrow> nat \<Rightarrow> bool" where
  "upward_ok d s n \<longleftrightarrow> d = s \<or> n \<le> unat (d - s)"

lemma copied_append:
  assumes "upward_ok d s (k + j)" "k + j < 2 ^ 64"
  shows "copied (d + of_nat k) (s + of_nat k) j (copied d s k m) = copied d s (k + j) m"
proof
  fix a
  define x where "x = a - d"
  have a: "a - d = x" "a - (d + of_nat k) = x - of_nat k" "s + of_nat k + (x - of_nat k) = s + x"
    by (simp_all add: x_def)
  show "copied (d + of_nat k) (s + of_nat k) j (copied d s k m) a = copied d s (k + j) m a"
  proof (cases "unat x < k")
    case True
    then have "unat (x - of_nat k) = 2 ^ 64 + unat x - k"
      using assms(2) by (intro unat_minus_of_nat_wrap) simp_all
    moreover have "\<not> 2 ^ 64 + unat x - k < j"
      using assms(2) by linarith
    ultimately show ?thesis
      using True by (simp add: copied_def a)
  next
    case False
    then have le: "unat (x - of_nat k) = unat x - k"
      by (intro unat_minus_of_nat) simp
    have "\<not> unat (s + x - d) < k" if "unat x < k + j"
    proof (cases "d = s")
      case True
      with False show ?thesis by simp
    next
      case ne: False
      define e where "e = d - s"
      have "k + j \<le> unat e"
        using assms(1) ne by (simp add: upward_ok_def e_def)
      with that have "unat (x - of_nat (unat e)) = 2 ^ 64 + unat x - unat e"
        using unat_u64 [of e] by (intro unat_minus_of_nat_wrap) simp_all
      then have "unat (x - e) = 2 ^ 64 + unat x - unat e"
        by simp
      moreover have "s + x - d = x - e"
        by (simp add: e_def)
      ultimately have "unat (s + x - d) = 2 ^ 64 + unat x - unat e"
        by (simp only:)
      moreover have "\<not> 2 ^ 64 + unat x - unat e < k"
        using False unat_u64 [of e] by simp
      ultimately show ?thesis
        by (simp only: not_False_eq_True)
    qed
    then show ?thesis
      using False le by (auto simp: copied_def a)
  qed
qed

lemma upward_ok_shift: "upward_ok d s (k + j) \<Longrightarrow> upward_ok (d + of_nat k) (s + of_nat k) j"
  by (auto simp: upward_ok_def)

lemma upward_ok_less: "upward_ok d s n \<Longrightarrow> k \<le> n \<Longrightarrow> upward_ok d s k"
  by (auto simp: upward_ok_def)

lemma copied_0 [simp]: "copied d s 0 m = m"
  by (simp add: copied_def)

lemma copy_words_copied:
  assumes "upward_ok d s n" "0 < w" "n < 2 ^ 64"
  shows "\<exists>k \<le> n. n - k < w \<and> copy_words w d s n m = (d + of_nat k, s + of_nat k, n - k, copied d s k m)"
  using assms
proof (induction w d s n m rule: copy_words.induct)
  case (1 w d s n m)
  show ?case
  proof (cases "w \<le> n")
    case True
    then have n: "n = w + (n - w)"
      by simp
    have up: "upward_ok (d + of_nat w) (s + of_nat w) (n - w)"
      using 1(2) n upward_ok_shift by metis
    have "n - w < 2 ^ 64"
      using 1(4) by simp
    from 1(1) [OF _ up 1(3) this] True 1(3) obtain k where k: "k \<le> n - w" "n - w - k < w"
      "copy_words w (d + of_nat w) (s + of_nat w) (n - w) (store_bytes d (load_bytes s w m) m) =
         (d + of_nat w + of_nat k, s + of_nat w + of_nat k, n - w - k,
          copied (d + of_nat w) (s + of_nat w) k (store_bytes d (load_bytes s w m) m))"
      by auto
    have "copied (d + of_nat w) (s + of_nat w) k (copied d s w m) = copied d s (w + k) m"
      using 1(2,4) True k(1) by (intro copied_append upward_ok_less [OF 1(2)]) simp_all
    then show ?thesis
      using True k 1(3,4) by (intro exI [of _ "w + k"])
        (simp add: copy_words.simps [of w d] store_load_copied algebra_simps)
  next
    case False
    then show ?thesis
      by (intro exI [of _ 0]) (simp add: copy_words.simps [of w d])
  qed
qed

lemma memcpy_copied:
  assumes "upward_ok d s (unat n)"
  shows "memcpy d s n m = copied d s (unat n) m"
proof -
  have n64: "unat n < 2 ^ 64"
    using unat_u32 [of n] by simp
  have phase: "\<exists>k \<le> unat n - j. (if c then copy_words w (d + of_nat j) (s + of_nat j) (unat n - j) (copied d s j m)
        else (d + of_nat j, s + of_nat j, unat n - j, copied d s j m)) =
      (d + of_nat (j + k), s + of_nat (j + k), unat n - (j + k), copied d s (j + k) m) \<and>
      (c \<longrightarrow> unat n - (j + k) < w)"
    if jn: "j \<le> unat n" and w0: "0 < w" for c w j
  proof (cases c)
    case True
    have up: "upward_ok (d + of_nat j) (s + of_nat j) (unat n - j)"
      using assms jn upward_ok_shift [of d s j "unat n - j"] by simp
    have nj: "unat n - j < 2 ^ 64"
      using n64 by simp
    obtain k where k: "k \<le> unat n - j" "unat n - j - k < w"
      "copy_words w (d + of_nat j) (s + of_nat j) (unat n - j) (copied d s j m) =
        (d + of_nat j + of_nat k, s + of_nat j + of_nat k, unat n - j - k,
         copied (d + of_nat j) (s + of_nat j) k (copied d s j m))"
      using copy_words_copied [OF up w0 nj, of "copied d s j m"] by auto
    moreover have "copied (d + of_nat j) (s + of_nat j) k (copied d s j m) = copied d s (j + k) m"
      using assms jn k(1) n64 by (intro copied_append upward_ok_less [OF assms]) simp_all
    ultimately show ?thesis
      using True by (intro exI [of _ k]) (simp add: add.assoc)
  qed (auto intro: exI [of _ 0])
  obtain k8 where k8: "k8 \<le> unat n"
    "(if (d OR s) AND 7 = 0 then copy_words 8 d s (unat n) m else (d, s, unat n, m)) =
      (d + of_nat k8, s + of_nat k8, unat n - k8, copied d s k8 m)"
    using phase [of 0 8 "(d OR s) AND 7 = 0"] by (auto cong: if_cong)
  let ?c4 = "((d + of_nat k8) OR (s + of_nat k8)) AND 3 = 0"
  obtain k4 where k4: "k4 \<le> unat n - k8"
    "(if ?c4 then copy_words 4 (d + of_nat k8) (s + of_nat k8) (unat n - k8) (copied d s k8 m)
      else (d + of_nat k8, s + of_nat k8, unat n - k8, copied d s k8 m)) =
      (d + of_nat (k8 + k4), s + of_nat (k8 + k4), unat n - (k8 + k4), copied d s (k8 + k4) m)"
    using phase [of k8 4 ?c4] k8(1) by auto
  have k84: "k8 + k4 \<le> unat n"
    using k8(1) k4(1) by simp
  obtain k1 where "k1 \<le> unat n - (k8 + k4)" "unat n - (k8 + k4 + k1) < 1"
    "copy_words 1 (d + of_nat (k8 + k4)) (s + of_nat (k8 + k4)) (unat n - (k8 + k4)) (copied d s (k8 + k4) m) =
      (d + of_nat (k8 + k4 + k1), s + of_nat (k8 + k4 + k1), unat n - (k8 + k4 + k1), copied d s (k8 + k4 + k1) m)"
    using phase [OF k84, of 1 True] by auto
  moreover from this have "k8 + k4 + k1 = unat n"
    using k8(1) k4(1) by simp
  ultimately show ?thesis
    unfolding memcpy_def k8(2) Let_def prod.case k4(2) by simp
qed


lemma copied_snoc:
  assumes "d = s \<or> Suc n \<le> unat (s - d)" "n < 2 ^ 64 - 1"
  shows "copied d s n (m(d + of_nat n := m (s + of_nat n))) = copied d s (Suc n) m"
proof
  fix a
  have n: "unat (of_nat n :: u64) = n"
    using assms(2) by (simp add: unat_of_nat)
  have "s + x \<noteq> d + of_nat n" if "unat x < n" "d \<noteq> s" for x
  proof
    assume "s + x = d + of_nat n"
    then have "s - d = of_nat n - x"
      by (simp add: algebra_simps)
    moreover have "unat (of_nat n - x) = n - unat x"
      using that n unat_sub [of x "of_nat n"] by (simp add: word_le_nat_alt)
    ultimately show False
      using assms(1) that(2) by simp
  qed
  moreover have "a = d + of_nat n \<longleftrightarrow> unat (a - d) = n"
  proof
    assume "unat (a - d) = n"
    then have "a - d = of_nat n"
      using n by (simp add: word_unat_eq_iff)
    then show "a = d + of_nat n"
      by (simp add: algebra_simps)
  qed (simp add: n)
  ultimately show "copied d s n (m(d + of_nat n := m (s + of_nat n))) a = copied d s (Suc n) m a"
    by (cases "d = s") (auto simp: copied_def less_Suc_eq)
qed

lemma copy_down_copied:
  assumes "d = s \<or> n \<le> unat (s - d)" "n < 2 ^ 64"
  shows "copy_down (d + of_nat n) (s + of_nat n) n m = copied d s n m"
  using assms
proof (induction n arbitrary: m)
  case (Suc n)
  have "copy_down (d + of_nat (Suc n)) (s + of_nat (Suc n)) (Suc n) m =
      copy_down (d + of_nat n) (s + of_nat n) n (m(d + of_nat n := m (s + of_nat n)))"
    by (simp add: algebra_simps)
  also have "\<dots> = copied d s n (m(d + of_nat n := m (s + of_nat n)))"
    using Suc by auto
  also have "\<dots> = copied d s (Suc n) m"
    using Suc.prems by (intro copied_snoc) auto
  finally show ?case .
qed simp

section \<open>Fills\<close>

lemma set_bytes_store: "set_bytes p c n m = store_bytes p (replicate n c) m"
  by (induction n arbitrary: p m) simp_all

lemma set_bytes_filled: "n < 2 ^ 64 \<Longrightarrow> set_bytes p c n m = filled p c n m"
  by (rule ext) (simp add: set_bytes_store nth_store_bytes filled_def)

lemma filled_append:
  assumes "k + j < 2 ^ 64"
  shows "filled (p + of_nat k) c j (filled p c k m) = filled p c (k + j) m"
proof
  fix a
  define x where "x = a - p"
  have a: "a - p = x" "a - (p + of_nat k) = x - of_nat k"
    by (simp_all add: x_def)
  show "filled (p + of_nat k) c j (filled p c k m) a = filled p c (k + j) m a"
  proof (cases "unat x < k")
    case False
    then have "unat (x - of_nat k) = unat x - k"
      by (intro unat_minus_of_nat) simp
    with False show ?thesis by (auto simp: filled_def a)
  qed (simp add: filled_def a)
qed

lemma set_words_filled:
  assumes "u32_bytes v = replicate 4 c" "n < 2 ^ 64"
  shows "\<exists>k \<le> n. set_words p v n m = (p + of_nat k, n - k, filled p c k m)"
  using assms
proof (induction p v n m rule: set_words.induct)
  case (1 p v n m)
  show ?case
  proof (cases "4 \<le> n")
    case True
    have st: "store_bytes p (u32_bytes v) m = filled p c 4 m"
      using 1(2) by (auto simp: nth_store_bytes filled_def fun_eq_iff)
    have "n - 4 < 2 ^ 64"
      using 1(3) by simp
    from 1(1) [OF True 1(2) this] obtain k where k: "k \<le> n - 4"
      "set_words (p + 4) v (n - 4) (filled p c 4 m) = (p + 4 + of_nat k, n - 4 - k, filled (p + 4) c k (filled p c 4 m))"
      unfolding st by auto
    have "filled (p + of_nat 4) c k (filled p c 4 m) = filled p c (4 + k) m"
      using 1(3) k(1) True by (intro filled_append) simp
    with k True show ?thesis
      by (intro exI [of _ "4 + k"]) (simp add: set_words.simps [of p] st)
  next
    case False
    then show ?thesis
      by (intro exI [of _ 0]) (simp add: set_words.simps [of p] filled_def)
  qed
qed

lemma replicated_byte:
  "u32_bytes (ucast (ucast (c :: u8) * 0x0101010101010101 :: u64)) = replicate 4 c"
proof -
  define k where "k = unat c"
  define x where "x = (ucast (ucast c * 0x0101010101010101 :: u64) :: u32)"
  have k: "k < 256"
    using unsigned_less [of c, where ?'a = nat] by (simp add: k_def)
  have "unat x = (k * 0x0101010101010101) mod 2 ^ 64 mod 2 ^ 32"
    using k by (simp add: x_def k_def unsigned_ucast_eq unsigned_take_bit_eq take_bit_eq_mod unat_word_ariths)
  also have "\<dots> = (k * 0x01010101 + 2 ^ 32 * (k * 0x01010101)) mod 2 ^ 32"
    by (simp add: mod_mod_cancel mult.commute)
  also have "\<dots> = k * 0x01010101"
    using k by (simp only: mod_mult_self2) simp
  finally have x: "unat x = k + 256 * (k + 256 * (k + 256 * k))"
    by simp
  have step: "(k + 256 * y) div 256 = y" "(k + 256 * y) mod 256 = k" for y
    using k by simp_all
  have d: "unat x div 65536 = unat x div 256 div 256" "unat x div 16777216 = unat x div 256 div 256 div 256"
    using div_mult2_eq [of "unat x" 256 256] div_mult2_eq [of "unat x" "65536" 256] by simp_all
  have b: "unat x mod 256 = k" "unat x div 256 mod 256 = k" "unat x div 65536 mod 256 = k"
    "unat x div 16777216 mod 256 = k"
    using k unfolding d by (simp_all only: x step) simp
  have r: "replicate 4 c = [c, c, c, c]"
    by (simp add: numeral_eq_Suc)
  have byte: "(ucast (drop_bit i x) :: u8) = c" if "unat x div 2 ^ i mod 256 = k" for i
    using that by (simp add: word_unat_eq_iff unsigned_ucast_eq unsigned_take_bit_eq take_bit_eq_mod
        unat_drop_bit_eq k_def) (simp add: drop_bit_eq_div)
  show ?thesis
    unfolding x_def [symmetric] u32_bytes_def r
    using byte [of 0] byte [of 8] byte [of 16] byte [of 24] b by simp
qed

lemma memset_filled: "memset s c n m = filled s (ucast c) (unat n) m"
proof (cases "s AND 3 = 0")
  case True
  have n64: "unat n < 2 ^ 64"
    using unat_u32 [of n] by simp
  obtain k where k: "k \<le> unat n"
    "set_words s (ucast (ucast (ucast c :: u8) * 0x0101010101010101 :: u64)) (unat n) m =
       (s + of_nat k, unat n - k, filled s (ucast c) k m)"
    using set_words_filled [OF replicated_byte n64] by blast
  have "filled (s + of_nat k) (ucast c) (unat n - k) (filled s (ucast c) k m) = filled s (ucast c) (unat n) m"
    using k(1) n64 filled_append [of k "unat n - k"] by simp
  then show ?thesis
    using True k n64 by (simp add: memset_def set_bytes_filled)
next
  case False
  then show ?thesis
    using unat_u32 [of n] by (simp add: memset_def set_bytes_filled)
qed

section \<open>Strings\<close>

text \<open>The string at an address: its bytes up to the terminating zero.\<close>

fun cstring :: "mem \<Rightarrow> u64 \<Rightarrow> cstr \<Rightarrow> bool" where
  "cstring m a [] \<longleftrightarrow> m a = 0"
| "cstring m a (x # xs) \<longleftrightarrow> m a = x \<and> x \<noteq> 0 \<and> cstring m (a + 1) xs"

lemma cstring_update:
  assumes "\<forall>j \<le> length xs. p \<noteq> a + of_nat j"
  shows "cstring (m(p := v)) a xs = cstring m a xs"
  using assms
proof (induction xs arbitrary: a)
  case (Cons x xs)
  have "p \<noteq> a + 1 + of_nat j" if "j \<le> length xs" for j
    using Cons.prems that by (auto dest!: spec [of _ "Suc j"] simp: algebra_simps)
  moreover have "p \<noteq> a"
    using Cons.prems by (auto dest!: spec [of _ 0])
  ultimately show ?case
    using Cons.IH [of "a + 1"] by simp
qed auto

lemma strlen_loop_cstring:
  "cstring m (s + ucast n) xs \<Longrightarrow> unat n + length xs < 2 ^ 32 \<Longrightarrow>
   strlen_loop s n m = Some (n + of_nat (length xs))"
proof (induction xs arbitrary: n)
  case Nil
  then show ?case by (simp add: strlen_loop.simps)
next
  case (Cons x xs)
  have "unat (n + 1) = unat n + 1"
    using Cons.prems(2) by (simp add: unat_word_ariths)
  then have "(ucast (n + 1) :: u64) = ucast n + 1"
    using unat_u32 [of n] by (simp add: word_unat_eq_iff unsigned_ucast_eq unsigned_take_bit_eq take_bit_eq_mod unat_word_ariths)
  then show ?case
    using Cons.prems Cons.IH [of "n + 1"] \<open>unat (n + 1) = unat n + 1\<close>
    by (simp add: strlen_loop.simps [of s n] algebra_simps)
qed

lemma strlen_cstring: "cstring m s xs \<Longrightarrow> length xs < 2 ^ 32 \<Longrightarrow> strlen s m = Some (of_nat (length xs))"
  using strlen_loop_cstring [of m s 0 xs] by (simp add: strlen_def)

lemma strcmp_cstring:
  "cstring m a xs \<Longrightarrow> cstring m b ys \<Longrightarrow> \<exists>r. strcmp a b m = Some r \<and> (r = 0 \<longleftrightarrow> xs = ys)"
proof (induction xs arbitrary: a b ys)
  case Nil
  then show ?case by (cases ys) (auto simp: strcmp.simps [of a] unsigned_eq_0_iff)
next
  case (Cons x xs)
  then show ?case
    by (cases ys) (auto simp: strcmp.simps [of a] unsigned_eq_0_iff dest: word_uint_eqI)
qed

lemma strncmp_loop_cstring:
  "cstring m a xs \<Longrightarrow> cstring m b ys \<Longrightarrow> strncmp_loop a b n m = 0 \<longleftrightarrow> take n xs = take n ys"
proof (induction n arbitrary: a b xs ys)
  case (Suc n)
  then show ?case
    by (cases xs; cases ys) (auto simp: unsigned_eq_0_iff dest: word_uint_eqI)
qed simp

lemma memcmp_loop_zero:
  "memcmp_loop a b n m = 0 \<longleftrightarrow> (\<forall>i < n. m (a + of_nat i) = m (b + of_nat i))"
proof (induction n arbitrary: a b)
  case (Suc n)
  have "(\<forall>i < Suc n. m (a + of_nat i) = m (b + of_nat i)) \<longleftrightarrow>
      m a = m b \<and> (\<forall>i < n. m (a + 1 + of_nat i) = m (b + 1 + of_nat i))"
    unfolding All_less_Suc2 by (simp add: algebra_simps)
  with Suc show ?case
    by (auto dest: word_uint_eqI)
qed simp

definition apart :: "u64 \<Rightarrow> nat \<Rightarrow> u64 \<Rightarrow> nat \<Rightarrow> bool" where
  "apart d n s k \<longleftrightarrow> (\<forall>i < n. \<forall>j < k. d + of_nat i \<noteq> s + of_nat j)"

lemma apart_Suc:
  assumes "apart d (Suc n) s (Suc k)"
  shows "apart (d + 1) n (s + 1) k" "j < k \<Longrightarrow> d \<noteq> s + 1 + of_nat j"
proof -
  have "d + of_nat (Suc i) \<noteq> s + of_nat (Suc j)" if "i < n" "j < k" for i j
    using assms that unfolding apart_def by (meson Suc_less_eq)
  then show "apart (d + 1) n (s + 1) k"
    by (simp add: apart_def algebra_simps)
  have "d + of_nat 0 \<noteq> s + of_nat (Suc j)" if "j < k" for j
    using assms that unfolding apart_def by (meson Suc_less_eq zero_less_Suc)
  then show "j < k \<Longrightarrow> d \<noteq> s + 1 + of_nat j"
    by (simp add: algebra_simps)
qed

lemma apart_above:
  assumes "unat s + k \<le> unat d" "unat d + n \<le> 2 ^ 64"
  shows "apart d n s k"
  unfolding apart_def
proof (intro allI impI)
  fix i j assume ij: "i < n" "j < k"
  have "unat (d + of_nat i) = unat d + i" "unat (s + of_nat j) = unat s + j"
    using assms ij by (simp_all add: unat_word_ariths unat_of_nat)
  then show "d + of_nat i \<noteq> s + of_nat j"
    using assms(1) ij by auto
qed

lemma cstring_tail_update:
  assumes "cstring m s (x # xs)" "apart d (Suc n) s (Suc (Suc (length xs)))"
  shows "cstring (m(d := v)) (s + 1) xs" "apart (d + 1) n (s + 1) (Suc (length xs))"
proof -
  have "\<forall>j \<le> length xs. d \<noteq> s + 1 + of_nat j"
    using apart_Suc(2) [OF assms(2)] by (simp add: less_Suc_eq_le)
  then show "cstring (m(d := v)) (s + 1) xs"
    using assms(1) by (simp add: cstring_update)
  show "apart (d + 1) n (s + 1) (Suc (length xs))"
    by (rule apart_Suc(1) [OF assms(2)])
qed

lemma strcpy_cstring:
  assumes "cstring m s xs" "apart d (Suc (length xs)) s (Suc (length xs))"
  shows "strcpy d s m = Some (store_bytes d (xs @ [0]) m)"
  using assms
proof (induction xs arbitrary: d s m)
  case Nil
  then show ?case by (simp add: strcpy.simps fun_upd_def)
next
  case (Cons x xs)
  then have "strcpy (d + 1) (s + 1) (m(d := x)) = Some (store_bytes (d + 1) (xs @ [0]) (m(d := x)))"
    by (intro Cons.IH cstring_tail_update [OF Cons.prems(1)]) simp_all
  with Cons.prems(1) show ?case
    by (auto simp: strcpy.simps [of d])
qed

text \<open>
  \<open>strncpy\<close> with room for the string and its terminator pads the rest with zeros; without room
  the counter wraps around after the copy.
\<close>

lemma strncpy_copy_room:
  assumes "cstring m s xs" "length xs < n" "apart d n s (Suc (length xs))"
  shows "strncpy_copy n d s m =
    (d + of_nat (length xs + 1), of_nat (n - (length xs + 1)), store_bytes d (xs @ [0]) m)"
  using assms
proof (induction xs arbitrary: n d s m)
  case Nil
  then show ?case by (cases n) (simp_all add: fun_upd_def)
next
  case (Cons x xs)
  then obtain k where n: "n = Suc k" "length xs < k"
    by (cases n) auto
  then have "strncpy_copy k (d + 1) (s + 1) (m(d := x)) = (d + 1 + of_nat (length xs + 1),
      of_nat (k - (length xs + 1)), store_bytes (d + 1) (xs @ [0]) (m(d := x)))"
    using Cons.prems by (intro Cons.IH cstring_tail_update [OF Cons.prems(1)]) simp_all
  with Cons.prems(1) show ?case
    by (auto simp: n algebra_simps)
qed

lemma strncpy_copy_full:
  assumes "cstring m s xs" "n \<le> length xs" "apart d n s (Suc (length xs))"
  shows "strncpy_copy n d s m = (d + of_nat n, 0 - 1, store_bytes d (take n xs) m)"
  using assms
proof (induction n arbitrary: xs d s m)
  case (Suc n)
  then obtain x ys where xs: "xs = x # ys" "n \<le> length ys"
    by (cases xs) auto
  then have "strncpy_copy n (d + 1) (s + 1) (m(d := x)) =
      (d + 1 + of_nat n, 0 - 1, store_bytes (d + 1) (take n ys) (m(d := x)))"
    using Suc.prems by (intro Suc.IH cstring_tail_update [of m s x ys]) simp_all
  with Suc.prems(1) xs show ?case
    by (auto simp: algebra_simps)
qed simp

section \<open>Properties\<close>

text \<open>
  C15. \<open>memmove\<close> copies correctly whether or not the regions overlap, in either direction and at
  any alignment: as long as neither region wraps around the address space, the bytes at the
  source before the call are at the destination after it and nothing else changes.
\<close>

theorem memmove_correct:
  assumes "unat d + unat n \<le> 2 ^ 64" "unat s + unat n \<le> 2 ^ 64"
  shows "memmove d s n m = (\<lambda>a. if unat (a - d) < unat n then m (s + (a - d)) else m a)"
proof -
  have "memmove d s n m = copied d s (unat n) m"
  proof (cases d s rule: linorder_cases)
    case less
    then have "unat (d - s) = 2 ^ 64 + unat d - unat s"
      using unat_minus_of_nat_wrap [of d "unat s"] unat_u64 [of s] by (simp add: word_less_nat_alt)
    then have "upward_ok d s (unat n)"
      using assms(2) unfolding upward_ok_def by linarith
    with less show ?thesis
      by (auto simp: memmove_def memcpy_copied)
  next
    case equal
    then show ?thesis
      by (auto simp: memmove_def copied_def cong: if_cong)
  next
    case greater
    then have "unat (s - d) = 2 ^ 64 + unat s - unat d"
      using unat_minus_of_nat_wrap [of s "unat d"] unat_u64 [of d] by (simp add: word_less_nat_alt)
    then have ok: "d = s \<or> unat n \<le> unat (s - d)"
      using assms(1) by linarith
    have "unat n < 2 ^ 64"
      using unat_u32 [of n] by simp
    from copy_down_copied [OF ok this] greater show ?thesis
      by (auto simp: memmove_def)
  qed
  then show ?thesis
    by (simp add: copied_def)
qed

theorem memmove_correct_witness:
  "memmove 0x1003 0x1000 5 (\<lambda>a. ucast a) 0x1006 = 3 \<and>
   memmove 0x1000 0x1008 16 (\<lambda>a. ucast a) 0x1009 = 0x11"
  using memmove_correct [of "0x1003" 5 "0x1000" "\<lambda>a. ucast a"]
    memmove_correct [of "0x1000" 16 "0x1008" "\<lambda>a. ucast a"] by simp


text \<open>
  \<open>memset\<close> stores the low byte of its argument in exactly the \<open>n\<close> bytes from \<open>s\<close>, whatever
  the alignment, including through the path that stores 32-bit patterns.
\<close>

theorem memset_correct: "memset s c n m a = (if unat (a - s) < unat n then ucast c else m a)"
  by (simp add: memset_filled filled_def)

lemma store_bytes_append:
  "store_bytes d (xs @ ys) m = store_bytes (d + of_nat (length xs)) ys (store_bytes d xs m)"
  by (induction xs arbitrary: d m) (simp_all add: algebra_simps)

text \<open>
  \<open>strncpy\<close> is correct when the source is shorter than the limit: the destination holds the
  string, padded with zeros up to \<open>n\<close> bytes, and no byte outside of those \<open>n\<close> changes.
\<close>

theorem strncpy_correct:
  assumes "cstring m s xs" "length xs < unat n" "apart d (unat n) s (Suc (length xs))"
  shows "strncpy d s n m a =
    (if unat (a - d) < unat n then (xs @ replicate (unat n - length xs) 0) ! unat (a - d) else m a)"
proof -
  let ?k = "unat n - (length xs + 1)"
  have k: "unat (of_nat ?k :: u32) = ?k"
    using unat_u32 [of n] by (simp add: unat_of_nat)
  have "strncpy d s n m = set_bytes (d + of_nat (length xs + 1)) 0 ?k (store_bytes d (xs @ [0]) m)"
    using strncpy_copy_room [OF assms] k
    by (simp only: strncpy_def Let_def prod.case unat_eq_0 [symmetric]) simp
  also have "\<dots> = store_bytes d ((xs @ [0]) @ replicate ?k 0) m"
    by (simp only: set_bytes_store store_bytes_append [of d "xs @ [0]"]) simp
  also have "(xs @ [0]) @ replicate ?k 0 = xs @ replicate (unat n - length xs) 0"
    using assms(2) by (simp add: replicate_Suc [symmetric] Suc_diff_Suc del: replicate_Suc)
  finally show ?thesis
    using assms(2) unat_u32 [of n] by (simp add: nth_store_bytes)
qed

definition demo_mem :: mem where
  "demo_mem = (\<lambda>a. if a = 0x1000 then 0x61 else if a = 0x1001 then 0x62 else if a = 0x1002 then 0x63
     else if a = 0x1003 then 0 else 0xFF)"

lemma demo_cstring: "cstring demo_mem 0x1000 [0x61, 0x62, 0x63]"
  by (simp add: demo_mem_def)

lemma demo_high: "0x1003 < a \<Longrightarrow> demo_mem a = 0xFF"
  by (auto simp: demo_mem_def)

theorem strncpy_correct_witness:
  "strncpy 0x2000 0x1000 5 demo_mem 0x2002 = 0x63 \<and> strncpy 0x2000 0x1000 5 demo_mem 0x2004 = 0 \<and>
   strncpy 0x2000 0x1000 5 demo_mem 0x2005 = 0xFF"
proof -
  have "apart 0x2000 (unat (5 :: u32)) 0x1000 (Suc (length [0x61 :: u8, 0x62, 0x63]))"
    by (rule apart_above) simp_all
  from strncpy_correct [OF demo_cstring _ this] show ?thesis
    by (simp add: demo_high)
qed

text \<open>
  When the source is at least as long as the limit, the counter of \<open>strncpy\<close> wraps to
  \<open>2 ^ 32 - 1\<close> after the copy, and the padding loop then clears that many bytes behind the
  destination.
\<close>

theorem strncpy_overrun:
  assumes "cstring m s xs" "unat n \<le> length xs" "apart d (unat n) s (Suc (length xs))"
  shows "strncpy d s n m a =
    (if unat (a - d) < unat n then xs ! unat (a - d)
     else if unat (a - d) < unat n + (2 ^ 32 - 1) then 0 else m a)"
proof -
  have len: "length (take (unat n) xs) = unat n"
    using assms(2) by simp
  have "(0 - 1 :: u32) = 0xFFFFFFFF"
    by simp
  then have "unat (0 - 1 :: u32) = 2 ^ 32 - 1"
    by (simp only:) simp
  then have "strncpy d s n m = set_bytes (d + of_nat (unat n)) 0 (2 ^ 32 - 1) (store_bytes d (take (unat n) xs) m)"
    using strncpy_copy_full [OF assms] by (simp only: strncpy_def Let_def prod.case) simp
  also have "\<dots> = store_bytes d (take (unat n) xs @ replicate (2 ^ 32 - 1) 0) m"
    by (simp only: set_bytes_store store_bytes_append len)
  finally have "strncpy d s n m = store_bytes d (take (unat n) xs @ replicate (2 ^ 32 - 1) 0) m" .
  moreover have "length (take (unat n) xs @ replicate (2 ^ 32 - 1) (0 :: u8)) = unat n + (2 ^ 32 - 1)"
    by (simp only: length_append len length_replicate)
  moreover have "unat n + (2 ^ 32 - 1) < (2 ^ 64 :: nat)"
    using unat_u32 [of n] by simp
  ultimately show ?thesis
    using len by (simp only: nth_store_bytes nth_append nth_replicate) auto
qed

theorem strncpy_overrun_witness:
  "strncpy 0x2000 0x1000 2 demo_mem 0x2001 = 0x62 \<and> demo_mem 0x10000000 = 0xFF \<and>
   strncpy 0x2000 0x1000 2 demo_mem 0x10000000 = 0"
proof -
  have "apart 0x2000 (unat (2 :: u32)) 0x1000 (Suc (length [0x61 :: u8, 0x62, 0x63]))"
    by (rule apart_above) simp_all
  from strncpy_overrun [OF demo_cstring _ this] show ?thesis
    by (simp add: demo_high)
qed

text \<open>
  \<open>strcmp\<close> returns on any two strings, and its result is zero exactly when they are equal;
  \<open>strncmp\<close> is zero exactly when the first \<open>n\<close> bytes of the strings agree.
\<close>

theorem strcmp_correct:
  assumes "cstring m a xs" "cstring m b ys"
  shows "(\<exists>r. strcmp a b m = Some r \<and> (r = 0 \<longleftrightarrow> xs = ys)) \<and>
    (strncmp a b n m = 0 \<longleftrightarrow> take (unat n) xs = take (unat n) ys)"
  using strcmp_cstring [OF assms] strncmp_loop_cstring [OF assms] by (simp add: strncmp_def)

theorem strcmp_correct_witness:
  "(\<exists>r. strcmp 0x1000 0x1001 demo_mem = Some r \<and> r \<noteq> 0) \<and> strncmp 0x1000 0x1001 0 demo_mem = 0"
proof -
  have "cstring demo_mem 0x1001 [0x62, 0x63]"
    by (simp add: demo_mem_def)
  from strcmp_correct [OF demo_cstring this, of 0] show ?thesis
    by auto
qed

section \<open>String copies as values\<close>

text \<open>
  What the clients of the string routines see of a bounded copy: the copied string when it fits,
  and no value when the copy would run over the end of the buffer.
\<close>

definition strncpy_buf :: "cstr \<Rightarrow> nat \<Rightarrow> cstr option" where
  "strncpy_buf xs n = (if length xs < n then Some xs else None)"

end
