(* ===== verification/Libkern_Div.thy ===== *)
theory Libkern_Div
  imports Xk_Prelude "HOL-Library.Signed_Division"
begin

text \<open>
  The 64-bit division helpers, libkern/libkern/udivdi3.c. The first loop of \<open>udivmoddi4\<close> does not
  end for a zero divisor, which the function excludes before it: it is a partial function into
  \<open>option\<close>. The signed entry points work on the two's complement words.
\<close>

section \<open>Model\<close>

partial_function (option) div_scale :: "u64 \<Rightarrow> u64 \<Rightarrow> u64 \<Rightarrow> (u64 \<times> u64) option" where
  "div_scale num den qbit =
     (if 0 \<le> sint den \<and> den < num then div_scale num (push_bit 1 den) (push_bit 1 qbit)
      else Some (den, qbit))"

function div_reduce :: "u64 \<Rightarrow> u64 \<Rightarrow> u64 \<Rightarrow> u64 \<Rightarrow> u64 \<times> u64" where
  "div_reduce num den qbit quot =
     (if qbit = 0 then (num, quot)
      else if den \<le> num
      then div_reduce (num - den) (drop_bit 1 den) (drop_bit 1 qbit) (quot OR qbit)
      else div_reduce num (drop_bit 1 den) (drop_bit 1 qbit) quot)"
  by pat_completeness auto
termination
  by (relation "measure (\<lambda>(num, den, qbit, quot). unat qbit)")
     (simp_all add: unat_drop_bit unat_gt_0)

declare div_reduce.simps [simp del]

definition udivmoddi4 :: "u64 \<Rightarrow> u64 \<Rightarrow> bool \<Rightarrow> u64 option" where
  "udivmoddi4 num den md =
     (if den = 0 then Some 0
      else case div_scale num den 1 of None \<Rightarrow> None
           | Some (den', qbit) \<Rightarrow>
               (case div_reduce num den' qbit 0 of (num', quot) \<Rightarrow> Some (if md then num' else quot)))"

definition udivdi3 :: "u64 \<Rightarrow> u64 \<Rightarrow> u64 option" where
  "udivdi3 num den = udivmoddi4 num den False"

definition umoddi3 :: "u64 \<Rightarrow> u64 \<Rightarrow> u64 option" where
  "umoddi3 num den = udivmoddi4 num den True"

definition divdi3 :: "64 word \<Rightarrow> 64 word \<Rightarrow> 64 word option" where
  "divdi3 num den =
     (let neg = False;
          (a, neg) = (if sint num < 0 then (- num, \<not> neg) else (num, neg));
          (b, neg) = (if sint den < 0 then (- den, \<not> neg) else (den, neg))
      in map_option (\<lambda>q. if neg then - q else q) (udivdi3 a b))"

definition moddi3 :: "64 word \<Rightarrow> 64 word \<Rightarrow> 64 word option" where
  "moddi3 num den =
     (let (a, neg) = (if sint num < 0 then (- num, True) else (num, False));
          b = (if sint den < 0 then - den else den)
      in map_option (\<lambda>r. if neg then - r else r) (umoddi3 a b))"

section \<open>Unsigned division\<close>

lemma sint_nonneg_iff: "0 \<le> sint (x :: u64) \<longleftrightarrow> unat x < 2 ^ 63"
  using unsigned_less [of x, where ?'a = int] by (simp add: sint_u64 unat_less_iff_uint)

lemma unat_shl1: "unat (x :: u64) < 2 ^ 63 \<Longrightarrow> unat (push_bit 1 x) = 2 * unat x"
  by (simp add: push_bit_eq_mult unat_word_ariths)

lemma div_scale_spec:
  assumes "0 < unat den" "unat den = D * 2 ^ k" "unat qbit = 2 ^ k" "k < 64"
  shows "\<exists>den' qbit' j. div_scale num den qbit = Some (den', qbit') \<and> j < 64 \<and>
    unat den' = D * 2 ^ j \<and> unat qbit' = 2 ^ j \<and> unat num < 2 * unat den'"
  using assms
proof (induction "2 ^ 64 - unat den" arbitrary: den qbit k rule: less_induct)
  case less
  show ?case
  proof (cases "0 \<le> sint den \<and> den < num")
    case True
    then have d: "unat den < 2 ^ 63"
      by (simp add: sint_nonneg_iff)
    have "2 ^ k \<le> unat den"
      using less.prems(1,2) by simp
    then have k: "k < 63"
      using d less_le_trans nat_power_less_imp_less [of 2 k 63] by fastforce
    define den2 qbit2 where d2: "den2 = push_bit 1 den" "qbit2 = push_bit 1 qbit"
    have "unat qbit2 = 2 ^ Suc k" "unat den2 = 2 * unat den"
      unfolding d2 using d less.prems(3) power_strict_increasing [OF k, of "2 :: nat"]
      by (subst unat_shl1; simp)+
    moreover from this(2) have "2 ^ 64 - unat den2 < 2 ^ 64 - unat den"
      using less.prems(1) d by simp
    ultimately have "\<exists>den' qbit' j. div_scale num den2 qbit2 = Some (den', qbit') \<and>
        j < 64 \<and> unat den' = D * 2 ^ j \<and> unat qbit' = 2 ^ j \<and> unat num < 2 * unat den'"
      using d k less.prems by (intro less.hyps [where k = "Suc k"]) simp_all
    with True show ?thesis
      unfolding div_scale.simps [of num den] d2 by (simp only: if_True simp_thms)
  next
    case False
    then have "unat num < 2 * unat den"
      using less.prems(1) unsigned_less [of num, where ?'a = nat]
      by (auto simp: sint_nonneg_iff word_less_nat_alt)
    with False less.prems show ?thesis
      by (auto simp: div_scale.simps [of num den])
  qed
qed

lemma or_shifted_bit:
  fixes quot qbit :: u64
  assumes "unat quot mod 2 ^ Suc k = 0" "unat quot + 2 ^ k < 2 ^ 64" "unat qbit = 2 ^ k" "k < 64"
  shows "unat (quot OR qbit) = unat quot + 2 ^ k"
proof -
  have "qbit = of_nat (2 ^ k)"
    using assms(3) by (metis of_nat_unat ucast_id)
  then have q: "qbit = 2 ^ k"
    by simp
  obtain c where "unat quot = 2 ^ Suc k * c"
    using assms(1) by (auto simp: mod_eq_0_iff_dvd elim: dvdE)
  then have "\<not> bit (unat quot) k"
    by (simp add: bit_iff_odd)
  then have "\<not> bit quot k"
    by (simp add: bit_unsigned_iff)
  then have "quot + qbit = quot OR qbit"
    unfolding q by (intro disjunctive_add) (auto simp: bit_exp_iff)
  then show ?thesis
    using assms(2,3) by (simp add: unat_word_ariths flip: \<open>quot + qbit = quot OR qbit\<close>)
qed


lemma div_reduce_spec:
  assumes "unat den = D * 2 ^ k" "unat qbit = 2 ^ k" "k < 64" "unat num < 2 * unat den"
    and "unat quot mod 2 ^ Suc k = 0" "unat quot + unat num div D < 2 ^ 64" "0 < D"
  shows "\<exists>r q. div_reduce num den qbit quot = (r, q) \<and> unat r = unat num mod D \<and>
    unat q = unat quot + unat num div D"
  using assms
proof (induction k arbitrary: den qbit num quot)
  case 0
  have stop: "drop_bit 1 qbit = 0"
    using 0(2) by (simp add: word_unat_eq_iff unat_drop_bit)
  have ne: "qbit \<noteq> 0"
    using 0(2) by auto
  show ?case
  proof (cases "den \<le> num")
    case True
    then have "unat num div D = 1" "unat num mod D = unat num - D"
      using 0 by (simp_all add: word_le_nat_alt div_nat_eqI mod_if le_mod_geq)
    moreover have "unat (quot OR qbit) = unat quot + 2 ^ 0"
      using 0 calculation by (intro or_shifted_bit) simp_all
    moreover have "unat (num - den) = unat num - D"
      using True 0(1) by (simp add: unat_sub)
    ultimately show ?thesis
      using True ne stop by (simp add: div_reduce.simps [of num] div_reduce.simps [of "num - den"])
  next
    case False
    then have "unat num < D"
      using 0(1) by (simp add: word_le_nat_alt)
    then show ?thesis
      using False ne stop by (simp add: div_reduce.simps [of num])
  qed
next
  case (Suc k)
  define den2 qbit2 where d2: "den2 = drop_bit 1 den" "qbit2 = drop_bit 1 qbit"
  have half: "unat den2 = D * 2 ^ k" "unat qbit2 = 2 ^ k"
    using Suc.prems(1,2) by (simp_all add: d2 unat_drop_bit)
  have ne: "qbit \<noteq> 0"
    using Suc.prems(2) by auto
  have low: "unat x mod 2 ^ Suc k = 0" if "unat x mod 2 ^ Suc (Suc k) = 0" for x :: u64
    using that by (metis dvd_power_le dvd_refl dvd_trans le_SucI mod_eq_0_iff_dvd order_refl zero_less_numeral power_le_dvd)
  show ?case
  proof (cases "den \<le> num")
    case True
    define num2 where "num2 = num - den"
    have n2: "unat num2 = unat num - D * 2 ^ Suc k"
      using True Suc.prems(1) by (simp add: num2_def unat_sub)
    have ge: "D * 2 ^ Suc k \<le> unat num"
      using True Suc.prems(1) by (simp add: word_le_nat_alt)
    then obtain e where e: "unat num = e + D * 2 ^ Suc k"
      by (metis add.commute le_Suc_ex)
    have div: "unat num div D = unat num2 div D + 2 ^ Suc k" "unat num mod D = unat num2 mod D"
      using Suc.prems(7) by (simp_all add: n2 e)
    have q: "unat (quot OR qbit) = unat quot + 2 ^ Suc k"
      using Suc.prems div(1) by (intro or_shifted_bit) simp_all
    have "(unat quot + 2 ^ Suc k) mod 2 ^ Suc k = 0"
      using low [OF Suc.prems(5)] by (simp add: mod_add_left_eq [symmetric] del: power_Suc)
    then have "\<exists>r q. div_reduce num2 den2 qbit2 (quot OR qbit) = (r, q) \<and> unat r = unat num2 mod D \<and>
        unat q = unat (quot OR qbit) + unat num2 div D"
      using half Suc.prems q div n2 ge by (intro Suc.IH) simp_all
    then show ?thesis
      unfolding div_reduce.simps [of num den qbit quot] d2 [symmetric] num2_def [symmetric]
      using True ne div q by (auto simp: algebra_simps)
  next
    case False
    have "\<exists>r q. div_reduce num den2 qbit2 quot = (r, q) \<and> unat r = unat num mod D \<and>
        unat q = unat quot + unat num div D"
      using half Suc.prems False low by (intro Suc.IH) (simp_all add: word_le_nat_alt)
    then show ?thesis
      unfolding div_reduce.simps [of num den qbit quot] d2 [symmetric]
      using False ne by simp
  qed
qed


lemma udivmoddi4_eq:
  assumes "den \<noteq> 0"
  shows "udivmoddi4 num den md = Some (if md then num mod den else num div den)"
proof -
  have pos: "0 < unat den"
    using assms by (simp add: unat_gt_0)
  obtain den' qbit' j where sc: "div_scale num den 1 = Some (den', qbit')" "j < 64"
      "unat den' = unat den * 2 ^ j" "unat qbit' = 2 ^ j" "unat num < 2 * unat den'"
    using div_scale_spec [of den "unat den" 0 1 num] pos by auto
  have "unat num div unat den < 2 ^ 64"
    using unsigned_less [of num, where ?'a = nat] by (simp add: le_less_trans [OF div_le_dividend])
  then obtain r q where rq: "div_reduce num den' qbit' 0 = (r, q)" "unat r = unat num mod unat den"
      "unat q = unat num div unat den"
    using div_reduce_spec [OF sc(3,4,2,5), of 0] pos by auto
  then have "r = num mod den" "q = num div den"
    by (simp_all add: word_unat_eq_iff unat_div_distrib unat_mod_distrib)
  with sc(1) rq(1) assms show ?thesis
    by (simp add: udivmoddi4_def)
qed

section \<open>Signed division\<close>

lemma uint_abs_word:
  "uint (if sint x < 0 then - x else x) = \<bar>sint x\<bar>" for x :: u64
proof -
  have x: "0 \<le> uint x" "uint x < 2 ^ 64"
    using unsigned_less [of x, where ?'a = int] by simp_all
  show ?thesis
  proof (cases "uint x < 2 ^ 63")
    case True
    with x show ?thesis by (simp add: sint_u64)
  next
    case False
    then have "uint (- x) = 2 ^ 64 - uint x"
      using x by (simp add: uint_word_ariths zmod_zminus1_eq_if)
    with False x show ?thesis by (simp add: sint_u64)
  qed
qed

lemma sint_of_uint:
  fixes q :: u64
  shows "uint q < 2 ^ 63 \<Longrightarrow> sint q = uint q" "uint q \<le> 2 ^ 63 \<Longrightarrow> sint (- q) = - uint q"
proof -
  have q: "0 \<le> uint q" "uint q < 2 ^ 64"
    using unsigned_less [of q, where ?'a = int] by simp_all
  show "uint q < 2 ^ 63 \<Longrightarrow> sint q = uint q"
    by (simp add: sint_u64)
  show "sint (- q) = - uint q" if "uint q \<le> 2 ^ 63"
  proof (cases "uint q = 0")
    case True
    then show ?thesis by (simp add: unsigned_eq_0_iff)
  next
    case False
    then have "uint (- q) = 2 ^ 64 - uint q"
      using q by (simp add: uint_word_ariths zmod_zminus1_eq_if)
    with that False show ?thesis by (simp add: sint_u64)
  qed
qed

lemma abs_sint_le: "\<bar>sint (x :: u64)\<bar> \<le> 2 ^ 63" "sint x \<noteq> - (2 ^ 63) \<Longrightarrow> \<bar>sint x\<bar> < 2 ^ 63"
  using unsigned_less [of x, where ?'a = int] by (auto simp: sint_u64)

section \<open>Properties\<close>

text \<open>
  C17. The shift-and-subtract division computes quotient and remainder: for every non-zero
  divisor both loops end and \<open>__udivdi3\<close> and \<open>__umoddi3\<close> return the unsigned quotient and
  remainder.
\<close>

theorem udivmoddi4_correct:
  assumes "den \<noteq> 0"
  shows "udivdi3 num den = Some (num div den) \<and> umoddi3 num den = Some (num mod den)"
  using assms by (simp add: udivdi3_def umoddi3_def udivmoddi4_eq)

theorem udivmoddi4_correct_witness:
  "udivdi3 0xFFFFFFFFFFFFFFFF 10 = Some 0x1999999999999999 \<and> umoddi3 0xFFFFFFFFFFFFFFFF 10 = Some 5"
  using udivmoddi4_correct [of 10 "0xFFFFFFFFFFFFFFFF"] by simp

text \<open>
  The signed helpers truncate towards zero, as C requires: for a non-zero divisor, and except
  for the one quotient that does not fit, \<open>__divdi3\<close> is the truncated quotient and \<open>__moddi3\<close>
  the remainder with the sign of the dividend.
\<close>

theorem divdi3_correct:
  assumes "den \<noteq> 0" "\<not> (sint num = - (2 ^ 63) \<and> sint den = - 1)"
  shows "\<exists>q r. divdi3 num den = Some q \<and> moddi3 num den = Some r \<and>
    sint q = sint num sdiv sint den \<and> sint r = sint num smod sint den"
proof -
  define a b where ab: "a = (if sint num < 0 then - num else num)" "b = (if sint den < 0 then - den else den)"
  have ua: "uint a = \<bar>sint num\<bar>" "uint b = \<bar>sint den\<bar>"
    unfolding ab by (rule uint_abs_word)+
  have den0: "sint den \<noteq> 0"
    using assms(1) by (simp add: signed_eq_0_iff)
  then have b0: "b \<noteq> 0"
    using ua(2) by auto
  define q where "q = a div b"
  define r where "r = a mod b"
  have u: "uint q = \<bar>sint num\<bar> div \<bar>sint den\<bar>" "uint r = \<bar>sint num\<bar> mod \<bar>sint den\<bar>"
    by (simp_all add: q_def r_def uint_div_distrib uint_mod_distrib ua)
  have le: "\<bar>sint num\<bar> div \<bar>sint den\<bar> \<le> \<bar>sint num\<bar>"
    using den0 zdiv_mono2 [of "\<bar>sint num\<bar>" 1 "\<bar>sint den\<bar>"] by simp
  then have q63: "uint q \<le> 2 ^ 63"
    using u abs_sint_le(1) [of num] by linarith
  have q62: "uint q < 2 ^ 63" if same: "(sint num < 0) = (sint den < 0)"
  proof (cases "sint num = - (2 ^ 63)")
    case True
    with same assms(2) have "2 \<le> \<bar>sint den\<bar>"
      by auto
    then have "uint q \<le> \<bar>sint num\<bar> div 2"
      using zdiv_mono2 [of "\<bar>sint num\<bar>" 2 "\<bar>sint den\<bar>"] u by simp
    with True show ?thesis by simp
  next
    case False
    then show ?thesis
      using abs_sint_le(2) [of num] le u by linarith
  qed
  have "uint r < \<bar>sint den\<bar>"
    using u den0 by simp
  then have r63: "uint r < 2 ^ 63"
    using abs_sint_le(1) [of den] by linarith
  let ?q = "if (sint num < 0) \<noteq> (sint den < 0) then - q else q" and ?r = "if sint num < 0 then - r else r"
  have "divdi3 num den = Some ?q" "moddi3 num den = Some ?r"
    using b0 by (auto simp: divdi3_def moddi3_def udivdi3_def umoddi3_def udivmoddi4_eq ab q_def r_def)
  moreover have "sint ?q = sint num sdiv sint den"
    using sint_of_uint [of q] q62 q63 den0 u
    by (cases "sint num = 0"; cases "sint num < 0"; cases "sint den < 0")
       (simp_all add: signed_divide_int_def sgn_if)
  moreover have "sint ?r = sint num smod sint den"
    using sint_of_uint [of r] r63 u
    by (cases "sint num = 0"; cases "sint num < 0") (simp_all add: signed_modulo_int_def sgn_if)
  ultimately show ?thesis
    by blast
qed

theorem divdi3_correct_witness:
  "\<exists>q r. divdi3 (- 7) 2 = Some q \<and> moddi3 (- 7) 2 = Some r \<and> sint q = - 3 \<and> sint r = - 1"
proof -
  have "sint (- 7 :: 64 word) = - 7" "sint (2 :: 64 word) = 2"
    by (simp_all add: sint_u64 uint_word_ariths)
  with divdi3_correct [of 2 "- 7"] show ?thesis
    by (auto simp: signed_divide_int_def signed_modulo_int_def)
qed

end
