(* ===== verification/Libkern_Stdio.thy ===== *)
theory Libkern_Stdio
  imports Xk_Prelude
begin

text \<open>
  Character classes, number parsing and formatted input and output of libkern: ctype.c, stdlib.c,
  printf.c and scanf.c. Strings are lists of bytes without their terminator. The variable arguments
  are a list of tagged values; a missing argument or one of another type makes the result
  \<open>None\<close>, as the behaviour of C is then undefined. The formatting of floating-point values is a
  parameter.
\<close>

section \<open>Character classes and number parsing\<close>

definition isdigit :: "u8 \<Rightarrow> bool" where
  "isdigit c \<longleftrightarrow> 0x30 \<le> c \<and> c \<le> 0x39"

definition isupper :: "u8 \<Rightarrow> bool" where
  "isupper c \<longleftrightarrow> 0x41 \<le> c \<and> c \<le> 0x5A"

definition islower :: "u8 \<Rightarrow> bool" where
  "islower c \<longleftrightarrow> 0x61 \<le> c \<and> c \<le> 0x7A"

definition isalpha :: "u8 \<Rightarrow> bool" where
  "isalpha c \<longleftrightarrow> isupper c \<or> islower c"

definition isalnum :: "u8 \<Rightarrow> bool" where
  "isalnum c \<longleftrightarrow> isalpha c \<or> isdigit c"

definition isspace :: "u8 \<Rightarrow> bool" where
  "isspace c \<longleftrightarrow> c = 0x20 \<or> c = 9 \<or> c = 10 \<or> c = 13 \<or> c = 12 \<or> c = 11"

definition isprint :: "u8 \<Rightarrow> bool" where
  "isprint c \<longleftrightarrow> 0x20 \<le> c \<and> c \<le> 0x7E"

definition isxdigit :: "u8 \<Rightarrow> bool" where
  "isxdigit c \<longleftrightarrow> isdigit c \<or> (0x61 \<le> c \<and> c \<le> 0x66) \<or> (0x41 \<le> c \<and> c \<le> 0x46)"

definition toupper :: "u8 \<Rightarrow> u8" where
  "toupper c = (if islower c then c - 0x20 else c)"

definition tolower :: "u8 \<Rightarrow> u8" where
  "tolower c = (if isupper c then c + 0x20 else c)"

text \<open>The loop \<open>n = n * 10 + (c - '0')\<close> over a run of digits, in the width of the accumulator.\<close>

definition dec_value :: "cstr \<Rightarrow> 'a::len word" where
  "dec_value s = foldl (\<lambda>n c. n * 10 + (ucast c - 0x30)) 0 s"

definition parse_sign :: "cstr \<Rightarrow> bool \<times> cstr" where
  "parse_sign s = (case s of [] \<Rightarrow> (False, s)
     | c # r \<Rightarrow> if c = 0x2D then (True, r) else if c = 0x2B then (False, r) else (False, s))"

definition atoi :: "cstr \<Rightarrow> u32" where
  "atoi s = (case parse_sign (dropWhile isspace s) of (neg, r) \<Rightarrow>
     let n = dec_value (takeWhile isdigit r) in if neg then - n else n)"

definition atol :: "cstr \<Rightarrow> u64" where
  "atol s = (case parse_sign (dropWhile isspace s) of (neg, r) \<Rightarrow>
     let n = dec_value (takeWhile isdigit r) in if neg then - n else n)"

definition abs_int :: "u32 \<Rightarrow> u32" where
  "abs_int n = (if n <s 0 then - n else n)"

definition labs :: "u64 \<Rightarrow> u64" where
  "labs n = (if n <s 0 then - n else n)"

section \<open>Printing\<close>

datatype 'd va_arg = VInt u32 | VLong u64 | VStr "cstr option" | VDouble 'd

text \<open>\<open>Some n\<close> is a buffer of \<open>n\<close> bytes, \<open>None\<close> the console; \<open>out\<close> is what was written.\<close>

definition print_char :: "u32 option \<Rightarrow> u8 \<Rightarrow> cstr \<Rightarrow> cstr" where
  "print_char lim c out = (case lim of None \<Rightarrow> out @ [c]
     | Some n \<Rightarrow> if length out < unat n then out @ [c] else out)"

definition print_str :: "u32 option \<Rightarrow> cstr \<Rightarrow> cstr \<Rightarrow> cstr" where
  "print_str lim s out = fold (print_char lim) s out"

definition digit_table :: "bool \<Rightarrow> cstr" where
  "digit_table upper = bytes_of (if upper then ''0123456789ABCDEF'' else ''0123456789abcdef'')"

function rev_digits :: "bool \<Rightarrow> u64 \<Rightarrow> u64 \<Rightarrow> cstr" where
  "rev_digits upper base v =
     (if 0 < v \<and> 1 < base
      then digit_table upper ! unat (v mod base) # rev_digits upper base (v div base) else [])"
  by pat_completeness auto
termination
proof (relation "measure (\<lambda>(u, b, v). unat v)")
  fix upper and base v :: u64
  assume "0 < v \<and> 1 < base"
  then show "((upper, base, v div base), (upper, base, v)) \<in> measure (\<lambda>(u, b, v). unat v)"
    by (simp add: unat_div word_less_nat_alt)
qed simp

declare rev_digits.simps [simp del]

definition print_num64 ::
  "u32 option \<Rightarrow> u64 \<Rightarrow> u64 \<Rightarrow> bool \<Rightarrow> bool \<Rightarrow> u32 \<Rightarrow> bool \<Rightarrow> cstr \<Rightarrow> cstr" where
  "print_num64 lim val64 base upper sign width zero out =
     (let neg = (sign \<and> val64 <s 0);
          v = (if neg then - val64 else val64);
          tmp = (if v = 0 then [0x30] else rev_digits upper base v);
          idx = int (length tmp);
          pad = (if idx < sint width then nat (sint width - idx - (if neg then 1 else 0)) else 0);
          minus = (if neg then [0x2D] else [])
      in if zero \<and> 0 < pad
         then print_str lim (rev tmp) (print_str lim (replicate pad 0x30) (print_str lim minus out))
         else print_str lim (rev tmp) (print_str lim minus (print_str lim (replicate pad 0x20) out)))"

record spec =
  s_zero :: bool
  s_width :: u32
  s_prec :: "u32 option"
  s_lng :: nat

definition parse_zero :: "cstr \<Rightarrow> bool \<times> cstr" where
  "parse_zero f = (if take 1 f = [0x30] then (True, tl f) else (False, f))"

definition parse_prec :: "cstr \<Rightarrow> u32 option \<times> cstr" where
  "parse_prec f =
     (if take 1 f = [0x2E] then (Some (dec_value (takeWhile isdigit (tl f))), dropWhile isdigit (tl f))
      else (None, f))"

definition modifier :: "u8 \<Rightarrow> bool" where
  "modifier c \<longleftrightarrow> c = 0x6C \<or> c = 0x7A \<or> c = 0x68"

definition parse_spec :: "cstr \<Rightarrow> spec \<times> cstr" where
  "parse_spec fmt =
     (let (zero, f1) = parse_zero fmt;
          width = dec_value (takeWhile isdigit f1);
          (prec, f3) = parse_prec (dropWhile isdigit f1)
      in (\<lparr>s_zero = zero, s_width = width, s_prec = prec,
           s_lng = length (filter (\<lambda>c. c = 0x6C) (takeWhile modifier f3))\<rparr>,
          dropWhile modifier f3))"

definition va_unsigned :: "nat \<Rightarrow> 'd va_arg list \<Rightarrow> (u64 \<times> 'd va_arg list) option" where
  "va_unsigned lng args = (case args of
     VLong v # r \<Rightarrow> if 1 \<le> lng then Some (v, r) else None
   | VInt v # r \<Rightarrow> if 1 \<le> lng then None else Some (ucast v, r)
   | _ \<Rightarrow> None)"

text \<open>
  One conversion, with its character and the arguments that follow. The parameter \<open>fl\<close> gives the
  text of a floating-point conversion.
\<close>

definition print_conv ::
  "(u8 \<Rightarrow> spec \<Rightarrow> 'd \<Rightarrow> cstr) \<Rightarrow> u32 option \<Rightarrow> spec \<Rightarrow> u8 \<Rightarrow> 'd va_arg list \<Rightarrow> cstr \<Rightarrow>
   (cstr \<times> 'd va_arg list) option" where
  "print_conv fl lim sp c args out =
     (let num = (\<lambda>base upper sign. map_option (\<lambda>(v, r).
            (print_num64 lim v base upper sign (s_width sp) (s_zero sp) out, r)) (va_unsigned (s_lng sp) args))
      in if c = 0x64 \<or> c = 0x69 then num 10 False True
         else if c = 0x75 then num 10 False False
         else if c = 0x78 then num 16 False False
         else if c = 0x58 then num 16 True False
         else if c = 0x6F then num 8 False False
         else if c = 0x62 then map_option (\<lambda>(v, r).
            (print_num64 lim v 2 False False (s_width sp) (s_zero sp) out, r)) (va_unsigned 0 args)
         else if c = 0x70 then map_option (\<lambda>(v, r).
            (print_num64 lim v 16 False False 8 True (print_str lim [0x30, 0x78] out), r)) (va_unsigned 0 args)
         else if c = 0x73 then (case args of
            VStr s # r \<Rightarrow> Some (print_str lim (case s of None \<Rightarrow> bytes_of ''(null)'' | Some t \<Rightarrow> t) out, r)
          | _ \<Rightarrow> None)
         else if c = 0x63 then (case args of
            VInt v # r \<Rightarrow> Some (print_char lim (ucast v) out, r) | _ \<Rightarrow> None)
         else if c \<in> {0x66, 0x46, 0x65, 0x45, 0x67, 0x47} then (case args of
            VDouble x # r \<Rightarrow> Some (print_str lim (fl c sp x) out, r) | _ \<Rightarrow> None)
         else if c = 0x25 then Some (print_char lim 0x25 out, args)
         else Some (print_char lim c (print_char lim 0x25 out), args))"

lemma length_parse_spec: "length (snd (parse_spec fmt)) \<le> length fmt"
proof -
  have d: "length (dropWhile P s) \<le> length s" for P and s :: cstr
    by (rule length_dropWhile_le)
  have z: "length (snd (parse_zero fmt)) \<le> length fmt"
    by (simp add: parse_zero_def)
  have p: "length (snd (parse_prec f)) \<le> length f" for f
    using d [of isdigit "tl f"] by (auto simp: parse_prec_def)
  show ?thesis
    using z p [of "dropWhile isdigit (snd (parse_zero fmt))"] d [of isdigit "snd (parse_zero fmt)"]
      d [of modifier "snd (parse_prec (dropWhile isdigit (snd (parse_zero fmt))))"]
    by (simp add: parse_spec_def split_def Let_def)
qed

function print_loop ::
  "(u8 \<Rightarrow> spec \<Rightarrow> 'd \<Rightarrow> cstr) \<Rightarrow> u32 option \<Rightarrow> cstr \<Rightarrow> 'd va_arg list \<Rightarrow> cstr \<Rightarrow> cstr option" where
  "print_loop fl lim fmt args out =
     (case fmt of [] \<Rightarrow> Some out
      | c # r \<Rightarrow>
          if c \<noteq> 0x25 then print_loop fl lim r args (print_char lim c out)
          else case snd (parse_spec r) of [] \<Rightarrow> Some out
               | k # r' \<Rightarrow> (case print_conv fl lim (fst (parse_spec r)) k args out of None \<Rightarrow> None
                  | Some (out', args') \<Rightarrow> print_loop fl lim r' args' out'))"
  by pat_completeness auto
termination
proof (relation "measure (\<lambda>(fl, lim, fmt, args, out). length fmt)", goal_cases)
  case (3 fl lim fmt args out c r k r')
  then show ?case
    using length_parse_spec [of r] by simp
qed simp_all

declare print_loop.simps [simp del]

text \<open>The return value with the string left in the buffer; a buffer of no bytes is not touched.\<close>

definition vsnprintf ::
  "(u8 \<Rightarrow> spec \<Rightarrow> 'd \<Rightarrow> cstr) \<Rightarrow> u32 \<Rightarrow> cstr \<Rightarrow> 'd va_arg list \<Rightarrow> (nat \<times> cstr option) option" where
  "vsnprintf fl n fmt args = map_option (\<lambda>out.
     (length out,
      if length out < unat n then Some out
      else if 0 < n then Some (take (unat n - 1) out)
      else None)) (print_loop fl (Some n) fmt args [])"

definition printf :: "(u8 \<Rightarrow> spec \<Rightarrow> 'd \<Rightarrow> cstr) \<Rightarrow> cstr \<Rightarrow> 'd va_arg list \<Rightarrow> cstr option" where
  "printf fl fmt args = print_loop fl None fmt args []"

definition sprintf ::
  "(u8 \<Rightarrow> spec \<Rightarrow> 'd \<Rightarrow> cstr) \<Rightarrow> cstr \<Rightarrow> 'd va_arg list \<Rightarrow> (nat \<times> cstr option) option" where
  "sprintf fl = vsnprintf fl 0xFFFFFFFF"

definition puts :: "cstr \<Rightarrow> cstr" where
  "puts s = s @ [10]"

section \<open>Scanning\<close>

datatype scan_val = SInt u32 | SLong u64 | SStr cstr | SChar u8

record scan_spec =
  c_width :: u32
  c_lng :: bool
  c_noassign :: bool

definition parse_scan :: "cstr \<Rightarrow> scan_spec \<times> cstr" where
  "parse_scan fmt =
     (let width = dec_value (takeWhile isdigit fmt);
          f1 = dropWhile isdigit fmt;
          (lng, f2) = (if take 1 f1 = [0x6C] then (True, tl f1) else (False, f1));
          (noassign, f3) = (if take 1 f2 = [0x2A] then (True, tl f2) else (False, f2))
      in (\<lparr>c_width = width, c_lng = lng, c_noassign = noassign\<rparr>, f3))"

text \<open>The part of a run that a width admits, \<open>used\<close> characters of which are spent already.\<close>

definition within :: "u32 \<Rightarrow> int \<Rightarrow> cstr \<Rightarrow> cstr" where
  "within width used run = (if width = 0 then run else take (nat (sint width - used)) run)"

definition assigned :: "scan_spec \<Rightarrow> bool \<Rightarrow> scan_val \<Rightarrow> scan_val list" where
  "assigned sp matched v = (if matched \<and> \<not> c_noassign sp then [v] else [])"

definition scan_d :: "scan_spec \<Rightarrow> cstr \<Rightarrow> scan_val list \<times> cstr" where
  "scan_d sp p =
     (let p1 = dropWhile isspace p;
          neg = (take 1 p1 = [0x2D]);
          plus = (take 1 p1 = [0x2B]);
          p2 = (if neg \<or> plus then tl p1 else p1);
          ds = within (c_width sp) (if plus then 1 else 0) (takeWhile isdigit p2);
          val = (if neg then - dec_value ds else dec_value ds)
      in (assigned sp (ds \<noteq> [] \<or> plus) (if c_lng sp then SLong (scast val) else SInt val),
          drop (length ds) p2))"

definition scan_u :: "scan_spec \<Rightarrow> cstr \<Rightarrow> scan_val list \<times> cstr" where
  "scan_u sp p =
     (let p1 = dropWhile isspace p;
          ds = within (c_width sp) 0 (takeWhile isdigit p1);
          val = dec_value ds :: u32
      in (assigned sp (ds \<noteq> []) (if c_lng sp then SLong (ucast val) else SInt val),
          drop (length ds) p1))"

definition hex_digit_value :: "u8 \<Rightarrow> u32" where
  "hex_digit_value c =
     (if isdigit c then ucast c - 0x30
      else if 0x61 \<le> c \<and> c \<le> 0x66 then ucast c - 0x61 + 10
      else ucast c - 0x41 + 10)"

definition scan_x :: "scan_spec \<Rightarrow> cstr \<Rightarrow> scan_val list \<times> cstr" where
  "scan_x sp p =
     (let p1 = dropWhile isspace p;
          z = (take 1 p1 = [0x30]);
          p2 = (if z then tl p1 else p1);
          x = (take 1 p2 = [0x78] \<or> take 1 p2 = [0x58]);
          p3 = (if x then tl p2 else p2);
          ds = takeWhile isxdigit p3;
          val = foldl (\<lambda>v c. v * 16 + hex_digit_value c) 0 ds
      in (assigned sp (z \<or> x \<or> ds \<noteq> []) (if c_lng sp then SLong (ucast val) else SInt val),
          drop (length ds) p3))"

definition scan_s :: "scan_spec \<Rightarrow> cstr \<Rightarrow> scan_val list \<times> cstr" where
  "scan_s sp p =
     (let p1 = dropWhile isspace p;
          s = within (c_width sp) 0 (takeWhile (\<lambda>c. \<not> isspace c) p1)
      in (assigned sp (s \<noteq> []) (SStr s), drop (length s) p1))"

definition scan_c :: "scan_spec \<Rightarrow> cstr \<Rightarrow> scan_val list \<times> cstr" where
  "scan_c sp p = (case p of [] \<Rightarrow> ([], []) | c # r \<Rightarrow> (assigned sp True (SChar c), r))"

text \<open>The ranges of a scanset up to its closing bracket, which a set without one lacks.\<close>

function parse_set :: "cstr \<Rightarrow> ((u8 \<times> u8) list \<times> cstr) option" where
  "parse_set f =
     (case f of [] \<Rightarrow> None
      | c # r \<Rightarrow>
          if c = 0x5D then Some ([], r)
          else if 2 \<le> length r \<and> r ! 0 = 0x2D \<and> r ! 1 \<noteq> 0x5D
          then map_option (\<lambda>(rs, q). ((c, r ! 1) # rs, q)) (parse_set (drop 2 r))
          else map_option (\<lambda>(rs, q). ((c, c) # rs, q)) (parse_set r))"
  by pat_completeness auto
termination by (relation "measure length") auto

declare parse_set.simps [simp del]

definition scan_set :: "scan_spec \<Rightarrow> cstr \<Rightarrow> cstr \<Rightarrow> (scan_val list \<times> cstr \<times> cstr) option" where
  "scan_set sp f p =
     (let invert = (take 1 f = [0x5E]);
          f1 = (if invert then tl f else f);
          close = (take 1 f1 = [0x5D]);
          f2 = (if close then tl f1 else f1)
      in map_option (\<lambda>(rs, f3).
           let rs' = (if close then [(0x5D, 0x5D)] else []) @ rs;
               s = within (c_width sp) 0
                     (takeWhile (\<lambda>c. list_ex (\<lambda>(lo, hi). lo \<le> c \<and> c \<le> hi) rs' \<noteq> invert) p)
           in (assigned sp (s \<noteq> []) (SStr s), f3, drop (length s) p)) (parse_set f2))"

definition scan_conv :: "scan_spec \<Rightarrow> u8 \<Rightarrow> cstr \<Rightarrow> scan_val list \<times> cstr" where
  "scan_conv sp k p =
     (if k = 0x64 then scan_d sp p
      else if k = 0x75 then scan_u sp p
      else if k = 0x78 \<or> k = 0x58 then scan_x sp p
      else if k = 0x73 then scan_s sp p
      else if k = 0x63 then scan_c sp p
      else if k = 0x25 then ([], if take 1 p = [0x25] then tl p else p)
      else ([], p))"

lemma length_parse_scan: "length (snd (parse_scan fmt)) \<le> length fmt"
  using length_dropWhile_le [of isdigit fmt] by (auto simp: parse_scan_def Let_def)

lemma length_parse_set: "parse_set f = Some (rs, q) \<Longrightarrow> length q \<le> length f"
proof (induction f arbitrary: rs rule: parse_set.induct)
  case (1 f)
  show ?case
  proof (cases f)
    case Nil
    with 1(3) show ?thesis
      by (simp add: parse_set.simps)
  next
    case (Cons c r)
    show ?thesis
    proof (cases "c = 0x5D")
      case True
      with 1(3) Cons show ?thesis
        by (simp add: parse_set.simps)
    next
      case False
      note c = False
      show ?thesis
      proof (cases "2 \<le> length r \<and> r ! 0 = 0x2D \<and> r ! 1 \<noteq> 0x5D")
        case True
        then obtain rs' where "parse_set (drop 2 r) = Some (rs', q)"
          using 1(3) Cons c by (auto simp: parse_set.simps [of "c # r"])
        with 1(1) [OF Cons c True] show ?thesis
          using Cons by fastforce
      next
        case False
        then obtain rs' where "parse_set r = Some (rs', q)"
          using 1(3) Cons c by (auto simp: parse_set.simps [of "c # r"])
        with 1(2) [OF Cons c False] show ?thesis
          using Cons by fastforce
      qed
    qed
  qed
qed

lemma length_scan_set:
  assumes "scan_set sp f p = Some (vs, f', p')"
  shows "length f' \<le> length f"
proof -
  have "length (tl f) \<le> length f" for f :: cstr
    by simp
  with assms show ?thesis
    by (auto simp: scan_set_def Let_def dest!: length_parse_set split: if_splits)
qed

function scan_loop :: "cstr \<Rightarrow> cstr \<Rightarrow> scan_val list \<Rightarrow> scan_val list" where
  "scan_loop fmt p acc =
     (case fmt of [] \<Rightarrow> acc
      | c # r \<Rightarrow>
          if isspace c then scan_loop r (dropWhile isspace p) acc
          else if c \<noteq> 0x25 then (case p of [] \<Rightarrow> acc | q # p' \<Rightarrow> if q = c then scan_loop r p' acc else acc)
          else case snd (parse_scan r) of [] \<Rightarrow> acc
            | k # f \<Rightarrow>
                if k = 0x5B
                then case scan_set (fst (parse_scan r)) f p of None \<Rightarrow> acc
                     | Some (vs, f', p') \<Rightarrow> scan_loop f' p' (acc @ vs)
                else case scan_conv (fst (parse_scan r)) k p of (vs, p') \<Rightarrow> scan_loop f p' (acc @ vs))"
  by pat_completeness auto
termination
proof (relation "measure (\<lambda>(fmt, p, acc). length fmt)", goal_cases)
  case (4 fmt p acc c r k f x vs y f' p')
  then show ?case
    using length_parse_scan [of r] length_scan_set [of "fst (parse_scan r)" f p vs f' p'] by simp
next
  case (5 fmt p acc c r k f vs p')
  then show ?case
    using length_parse_scan [of r] by simp
qed simp_all

declare scan_loop.simps [simp del]

text \<open>The values stored through the arguments, in order; their number is the return value.\<close>

definition vsscanf :: "cstr \<Rightarrow> cstr \<Rightarrow> scan_val list" where
  "vsscanf buf fmt = scan_loop fmt buf []"

section \<open>Printing into a buffer and printing to the console\<close>

text \<open>Every printing step on a full buffer is the step on the console, cut to the buffer.\<close>

definition clip :: "u32 \<Rightarrow> cstr \<Rightarrow> cstr" where
  "clip n out = take (unat n) out"

named_theorems cut_steps

lemma print_char_cut [cut_steps]: "print_char (Some n) c (clip n out) = clip n (print_char None c out)"
  by (simp add: print_char_def clip_def)

lemma print_str_cut [cut_steps]: "print_str (Some n) s (clip n out) = clip n (print_str None s out)"
  unfolding print_str_def by (induction s arbitrary: out) (simp_all add: print_char_cut)

lemma print_num64_cut [cut_steps]:
  "print_num64 (Some n) v b u s w z (clip n out) = clip n (print_num64 None v b u s w z out)"
  by (simp add: print_num64_def Let_def print_str_cut)

lemma print_conv_cut:
  "print_conv fl (Some n) sp c args (clip n out) =
   map_option (\<lambda>(t, r). (clip n t, r)) (print_conv fl None sp c args out)"
  unfolding print_conv_def Let_def cut_steps
  by (auto simp: option.map_comp comp_def split_def split: list.split va_arg.split)

lemma print_loop_cut:
  "print_loop fl (Some n) fmt args (clip n out) = map_option (clip n) (print_loop fl None fmt args out)"
proof (induction fl "Some n" fmt args "clip n out" arbitrary: out rule: print_loop.induct)
  case (1 fl fmt args)
  show ?case
  proof (cases fmt)
    case Nil
    then show ?thesis
      by (simp add: print_loop.simps)
  next
    case (Cons c r)
    show ?thesis
    proof (cases "c = 0x25")
      case False
      then show ?thesis
        using 1(1) [OF Cons False print_char_cut]
        by (simp add: Cons print_loop.simps [of fl _ "c # r"] print_char_cut)
    next
      case True
      show ?thesis
      proof (cases "snd (parse_spec r)")
        case Nil
        then show ?thesis
          by (simp add: Cons True print_loop.simps [of fl _ "0x25 # r"])
      next
        case k: (Cons k r')
        show ?thesis
        proof (cases "print_conv fl None (fst (parse_spec r)) k args out")
          case None
          then show ?thesis
            by (simp add: Cons True k print_loop.simps [of fl _ "0x25 # r"] print_conv_cut)
        next
          case (Some x)
          obtain t args' where x: "x = (t, args')"
            by fastforce
          have s: "print_conv fl (Some n) (fst (parse_spec r)) k args (clip n out) = Some (clip n t, args')"
            by (simp add: print_conv_cut Some x)
          show ?thesis
            using 1(2) [OF Cons _ k s refl] True
            by (simp add: Cons k print_loop.simps [of fl _ "0x25 # r"] s Some x)
        qed
      qed
    qed
  qed
qed

text \<open>
  C20. Formatting never writes past the buffer it is given: for a buffer of at least one byte, and
  whatever the format and the arguments, the buffer holds the text printed to the console cut to
  one byte less than the buffer, terminated, and the returned count is the length of that text
  limited by the size of the buffer.
\<close>

theorem vsnprintf_truncates:
  assumes "0 < n"
  shows "vsnprintf fl n fmt args =
    map_option (\<lambda>text. (min (length text) (unat n), Some (take (unat n - 1) text))) (printf fl fmt args)"
proof -
  have "print_loop fl (Some n) fmt args [] = map_option (clip n) (print_loop fl None fmt args [])"
    using print_loop_cut [of fl n fmt args "[]"] by (simp add: clip_def)
  then show ?thesis
    using assms
    by (auto simp: vsnprintf_def printf_def option.map_comp comp_def clip_def word_less_nat_alt min_def
        intro!: option.map_cong0)
qed

theorem vsnprintf_truncates_witness:
  "vsnprintf (\<lambda>_ _ (_ :: nat). []) 4 (bytes_of ''ab%u'') [VInt 123] = Some (4, Some (bytes_of ''ab1''))"
proof -
  have "printf (\<lambda>_ _ (_ :: nat). []) (bytes_of ''ab%u'') [VInt 123] = Some (bytes_of ''ab123'')"
    by code_simp
  then show ?thesis
    using vsnprintf_truncates [of 4 "\<lambda>_ _ (_ :: nat). []" "bytes_of ''ab%u''" "[VInt 123]"]
    by (simp add: bytes_of_def)
qed

section \<open>Numbers as text\<close>

lemma digit_table_10:
  "map (\<lambda>c. ucast c - 0x30 :: u32) (take 10 (digit_table u)) = map of_nat [0..<10]"
  "list_all isdigit (take 10 (digit_table u))"
  "map hex_digit_value (digit_table u) = map of_nat [0..<16]"
  "list_all isxdigit (digit_table u)"
  by (cases u; simp add: digit_table_def bytes_of_def hex_digit_value_def isdigit_def isxdigit_def
      upt_rec)+

lemma length_digit_table [simp]: "length (digit_table u) = 16"
  by (simp add: digit_table_def bytes_of_def)

lemma digit_10:
  assumes "k < 10"
  shows "ucast (digit_table u ! k) - 0x30 = (of_nat k :: u32)" "isdigit (digit_table u ! k)"
proof -
  have "map (\<lambda>c. ucast c - 0x30 :: u32) (take 10 (digit_table u)) ! k = of_nat k"
    unfolding digit_table_10(1) using assms by simp
  then show "ucast (digit_table u ! k) - 0x30 = (of_nat k :: u32)"
    using assms by simp
  have "take 10 (digit_table u) ! k \<in> set (take 10 (digit_table u))"
    using assms by (intro nth_mem) simp
  then show "isdigit (digit_table u ! k)"
    using digit_table_10(2) [of u] assms by (simp add: list_all_iff)
qed

lemma digit_16:
  assumes "k < 16"
  shows "hex_digit_value (digit_table u ! k) = of_nat k" "isxdigit (digit_table u ! k)"
proof -
  have "map hex_digit_value (digit_table u) ! k = of_nat k"
    unfolding digit_table_10(3) using assms by simp
  then show "hex_digit_value (digit_table u ! k) = of_nat k"
    using assms by simp
  show "isxdigit (digit_table u ! k)"
    using digit_table_10(4) [of u] assms by (simp add: list_all_iff)
qed

lemma rev_digits_step:
  "0 < v \<Longrightarrow> 1 < b \<Longrightarrow>
   rev_digits u b v = digit_table u ! (unat v mod unat b) # rev_digits u b (v div b)"
  by (simp add: rev_digits.simps [of u b v] unat_mod)

lemma rev_digits_0 [simp]: "rev_digits u b 0 = []"
  by (simp add: rev_digits.simps)

text \<open>
  The digits of a value: folding any digit reading that inverts the table over the printed text
  gives the value back.
\<close>

lemma digits_value:
  fixes f :: "u8 \<Rightarrow> u32" and g :: "u8 \<Rightarrow> bool"
  assumes "1 < b" and "\<And>k. k < unat b \<Longrightarrow> f (digit_table u ! k) = of_nat k \<and> g (digit_table u ! k)"
  shows "foldl (\<lambda>n c. n * of_nat (unat b) + f c) 0 (rev (rev_digits u b v)) = of_nat (unat v) \<and>
    list_all g (rev_digits u b v)"
proof (induction "unat v" arbitrary: v rule: less_induct)
  case less
  show ?case
  proof (cases "v = 0")
    case False
    then have v: "0 < v" "unat (v div b) < unat v"
      using assms(1) by (simp_all add: word_gt_0 unat_div word_less_nat_alt unat_gt_0)
    have m: "unat v mod unat b < unat b"
      using assms(1) by (simp add: word_less_nat_alt)
    have "of_nat (unat v div unat b) * of_nat (unat b) + of_nat (unat v mod unat b) =
        (of_nat (unat v div unat b * unat b + unat v mod unat b) :: u32)"
      by (simp only: of_nat_add of_nat_mult)
    also have "\<dots> = of_nat (unat v)"
      by (simp only: div_mult_mod_eq)
    finally show ?thesis
      using less [OF v(2)] assms(2) [OF m] assms(1)
      by (simp add: rev_digits_step [OF v(1)] unat_div)
  qed simp
qed

lemma rev_digits_Nil: "1 < b \<Longrightarrow> rev_digits u b v = [] \<longleftrightarrow> v = 0"
  by (cases "v = 0") (simp_all add: rev_digits_step word_gt_0)

lemma print_str_None [simp]: "print_str None s out = out @ s"
  unfolding print_str_def by (induction s arbitrary: out) (simp_all add: print_char_def)

definition num_digits :: "bool \<Rightarrow> u64 \<Rightarrow> u64 \<Rightarrow> cstr" where
  "num_digits u b v = (if v = 0 then [0x30] else rev (rev_digits u b v))"

lemma print_unsigned:
  obtains k j where "print_num64 None v b u False w z [] = replicate k 0x20 @ replicate j 0x30 @ num_digits u b v"
proof -
  define tmp where "tmp = (if v = 0 then [0x30] else rev_digits u b v)"
  define pad where "pad = (if int (length tmp) < sint w then nat (sint w - int (length tmp)) else 0)"
  have "print_num64 None v b u False w z [] =
      (if z \<and> 0 < pad then replicate pad 0x30 @ rev tmp else replicate pad 0x20 @ rev tmp)"
    by (simp add: print_num64_def Let_def tmp_def pad_def)
  moreover have "rev tmp = num_digits u b v"
    by (simp add: tmp_def num_digits_def)
  ultimately show ?thesis
    using that [of 0 pad] that [of pad 0] by (cases "z \<and> 0 < pad") simp_all
qed

lemma ucast_up_down: "ucast (ucast (v :: u32) :: u64) = v"
  by (rule bit_word_eqI) (simp add: bit_simps)

lemma num_digits_10:
  "dec_value (replicate j 0x30 @ num_digits u 10 (ucast (v :: u32))) = v"
  "list_all isdigit (num_digits u 10 w)" "num_digits u 10 w \<noteq> []"
proof -
  have z: "foldl (\<lambda>n c. n * 10 + (ucast c - 0x30)) 0 (replicate j (0x30 :: u8)) = (0 :: u32)" for j
    by (induction j) simp_all
  have d: "foldl (\<lambda>n c. n * 10 + (ucast c - 0x30)) 0 (rev (rev_digits u 10 (ucast v))) = v"
    "list_all isdigit (rev_digits u 10 w)" for v :: u32 and w
    using digits_value [of 10 "\<lambda>c. ucast c - 0x30" u isdigit "ucast v"]
      digits_value [of 10 "\<lambda>c. ucast c - 0x30" u isdigit w] digit_10 [of _ u]
    by (simp_all add: ucast_up_down)
  show "dec_value (replicate j 0x30 @ num_digits u 10 (ucast v)) = v"
    using d(1) [of v] z [of j] by (auto simp: dec_value_def num_digits_def)
  show "list_all isdigit (num_digits u 10 w)"
    using d(2) [of w] by (simp add: num_digits_def isdigit_def)
  show "num_digits u 10 w \<noteq> []"
    by (simp add: num_digits_def rev_digits_Nil)
qed

lemma num_digits_16:
  "foldl (\<lambda>n c. n * 16 + hex_digit_value c) 0 (num_digits u 16 (ucast (v :: u32))) = v"
  "list_all isxdigit (num_digits u 16 w)" "num_digits u 16 w \<noteq> []"
proof -
  have d: "foldl (\<lambda>n c. n * 16 + hex_digit_value c) 0 (rev (rev_digits u 16 (ucast v))) = v"
    "list_all isxdigit (rev_digits u 16 w)" for v :: u32 and w
    using digits_value [of 16 hex_digit_value u isxdigit "ucast v"]
      digits_value [of 16 hex_digit_value u isxdigit w] digit_16 [of _ u]
    by (simp_all add: ucast_up_down)
  show "foldl (\<lambda>n c. n * 16 + hex_digit_value c) 0 (num_digits u 16 (ucast v)) = v"
    using d(1) [of v] by (auto simp: num_digits_def hex_digit_value_def isdigit_def)
  show "list_all isxdigit (num_digits u 16 w)"
    using d(2) [of w] by (simp add: num_digits_def isxdigit_def isdigit_def)
  show "num_digits u 16 w \<noteq> []"
    by (simp add: num_digits_def rev_digits_Nil)
qed

lemma takeWhile_run:
  assumes "list_all P xs" "rest = [] \<or> \<not> P (hd rest)"
  shows "takeWhile P (xs @ rest) = xs"
  using assms by (cases rest) (simp_all add: list_all_iff)

lemma skip_spaces:
  assumes "ds \<noteq> []" "\<not> isspace (hd ds)"
  shows "dropWhile isspace (replicate k 0x20 @ ds) = ds"
  using assms by (induction k) (cases ds; simp add: isspace_def)+

lemma xdigit_not_space: "isxdigit c \<Longrightarrow> \<not> isspace c"
  by (auto simp: isxdigit_def isdigit_def isspace_def)

lemma isdigit_xdigit: "isdigit c \<Longrightarrow> isxdigit c"
  by (simp add: isxdigit_def)

lemma xdigit_alnum: "isxdigit c \<Longrightarrow> isalnum c"
  by (auto simp: isalnum_def isalpha_def isupper_def islower_def isxdigit_def isdigit_def word_le_nat_alt)

lemma x_alnum: "isalnum 0x78" "isalnum 0x58"
  by (simp_all add: isalnum_def isalpha_def isupper_def islower_def)

lemma conv_not_digit: "\<not> isdigit 0x75" "\<not> isdigit 0x78"
  by (simp_all add: isdigit_def)

lemma scan_single:
  assumes "k \<noteq> 0x5B" "\<not> isdigit k" "k \<noteq> 0x6C" "k \<noteq> 0x2A"
  shows "vsscanf p [0x25, k] =
    fst (scan_conv \<lparr>c_width = 0, c_lng = False, c_noassign = False\<rparr> k p)"
proof -
  have "parse_scan [k] = (\<lparr>c_width = 0, c_lng = False, c_noassign = False\<rparr>, [k])"
    using assms by (simp add: parse_scan_def dec_value_def)
  moreover have "\<not> isspace 0x25"
    by (simp add: isspace_def)
  ultimately show ?thesis
    using assms by (simp add: vsscanf_def scan_loop.simps [of "0x25 # _"] scan_loop.simps [of "[]"]
        split: prod.splits)
qed

text \<open>
  C28. Printed numbers scan back: the text that the formatter produces for an unsigned 32-bit value
  in decimal or hexadecimal, padded with blanks or zeros to any width, in either letter case and
  followed by anything that does not continue the number, is read back as that value by the
  scanner's matching conversion.
\<close>

theorem print_scan_roundtrip:
  assumes "rest = [] \<or> \<not> isalnum (hd rest)"
  shows "vsscanf (print_num64 None (ucast v) 10 u False w z [] @ rest) (bytes_of ''%u'') = [SInt v] \<and>
    vsscanf (print_num64 None (ucast v) 16 u False w z [] @ rest) (bytes_of ''%x'') = [SInt v]"
proof
  have r: "rest = [] \<or> \<not> isdigit (hd rest)"
    using assms by (auto simp: isalnum_def)
  obtain k j where t: "print_num64 None (ucast v) 10 u False w z [] =
      replicate k 0x20 @ replicate j 0x30 @ num_digits u 10 (ucast v)"
    by (rule print_unsigned)
  define ds where "ds = replicate j 0x30 @ num_digits u 10 (ucast v)"
  have ds: "list_all isdigit ds" "ds \<noteq> []" "dec_value ds = v"
    using num_digits_10 by (auto simp: ds_def list_all_iff isdigit_def)
  then have sp: "\<not> isspace (hd (ds @ rest))"
    by (cases ds) (auto dest: xdigit_not_space isdigit_xdigit)
  have p: "dropWhile isspace (replicate k 0x20 @ ds @ rest) = ds @ rest"
    using ds(2) sp by (intro skip_spaces) simp_all
  show "vsscanf (print_num64 None (ucast v) 10 u False w z [] @ rest) (bytes_of ''%u'') = [SInt v]"
    unfolding t ds_def [symmetric] append_assoc using ds takeWhile_run [OF ds(1) r]
    by (simp add: bytes_of_def scan_single conv_not_digit scan_conv_def scan_u_def p within_def assigned_def
        Let_def)
next
  have r: "rest = [] \<or> \<not> isxdigit (hd rest)" "rest = [] \<or> hd rest \<noteq> 0x78 \<and> hd rest \<noteq> 0x58"
    using assms xdigit_alnum [of "hd rest"] x_alnum by auto
  obtain k j where t: "print_num64 None (ucast v) 16 u False w z [] =
      replicate k 0x20 @ replicate j 0x30 @ num_digits u 16 (ucast v)"
    by (rule print_unsigned)
  define ds where "ds = replicate j 0x30 @ num_digits u 16 (ucast v)"
  define g where "g = foldl (\<lambda>n c. n * 16 + hex_digit_value c) (0 :: u32)"
  have z: "g (replicate j 0x30) = 0" for j
    unfolding g_def by (induction j) (simp_all add: hex_digit_value_def isdigit_def)
  have "list_all isxdigit (replicate j 0x30)"
    by (simp add: list_all_iff isxdigit_def isdigit_def)
  then have ds: "list_all isxdigit ds" "ds \<noteq> []" "g ds = v"
    using num_digits_16 z [of j] by (simp_all add: ds_def g_def)
  then have sp: "\<not> isspace (hd (ds @ rest))"
    by (cases ds) (auto dest: xdigit_not_space)
  have p: "dropWhile isspace (replicate k 0x20 @ ds @ rest) = ds @ rest"
    using ds(2) sp by (intro skip_spaces) simp_all
  define es where "es = (if hd ds = 0x30 then tl ds else ds)"
  have es: "list_all isxdigit es" "g es = v" "hd ds \<noteq> 0x30 \<Longrightarrow> es \<noteq> []"
    using ds by (cases ds; auto simp: es_def g_def hex_digit_value_def isdigit_def)+
  have x: "take 1 (es @ rest) \<noteq> [0x78]" "take 1 (es @ rest) \<noteq> [0x58]"
    using es(1) r(2) by (cases es; cases rest; auto simp: isxdigit_def isdigit_def)+
  have e: "(if take 1 (ds @ rest) = [0x30] then tl (ds @ rest) else ds @ rest) = es @ rest"
    "take 1 (ds @ rest) = [0x30] \<longleftrightarrow> hd ds = 0x30"
    using ds(2) by (cases ds; simp add: es_def)+
  have "fst (scan_x \<lparr>c_width = 0, c_lng = False, c_noassign = False\<rparr> (replicate k 0x20 @ ds @ rest)) = [SInt v]"
    unfolding scan_x_def Let_def p e(1) g_def [symmetric] takeWhile_run [OF es(1) r(1)]
    unfolding e(2) using es x takeWhile_run [OF es(1) r(1)] by (auto simp: assigned_def)
  then show "vsscanf (print_num64 None (ucast v) 16 u False w z [] @ rest) (bytes_of ''%x'') = [SInt v]"
    unfolding t ds_def [symmetric] append_assoc
    by (simp add: bytes_of_def scan_single conv_not_digit scan_conv_def)
qed

theorem print_scan_roundtrip_witness:
  "vsscanf (print_num64 None 0xBEEF 16 True False 8 True [] @ [0x20]) (bytes_of ''%x'') = [SInt 0xBEEF]"
  using print_scan_roundtrip [of "[0x20]" "0xBEEF" True 8 True]
  by (simp add: isalnum_def isalpha_def isupper_def islower_def isdigit_def)

text \<open>
  The conversion \<open>%d\<close> never prints a minus sign for an \<open>int\<close>: the argument is widened
  without its sign, so every value is printed exactly as \<open>%u\<close> prints it.
\<close>

theorem printf_d_unsigned:
  "printf fl (bytes_of ''%d'') [VInt v] = printf fl (bytes_of ''%u'') [VInt v]"
proof -
  have l: "uint v < 2 ^ 32"
    using unsigned_less [of v, where ?'a = int] by simp
  then have "uint (ucast v :: u64) = uint v"
    by (simp add: unsigned_ucast_eq take_bit_int_eq_self_iff)
  with l have s: "\<not> (ucast v :: u64) <s 0"
    by (simp add: word_sless_alt sint_u64)
  have p: "parse_spec [k] = (\<lparr>s_zero = False, s_width = 0, s_prec = None, s_lng = 0\<rparr>, [k])"
    if "k \<in> {0x64, 0x75}" for k
    using that by (auto simp: parse_spec_def parse_zero_def parse_prec_def modifier_def dec_value_def isdigit_def)
  show ?thesis
    using s by (simp add: printf_def bytes_of_def print_loop.simps [of fl None "0x25 # _"] p
        print_conv_def va_unsigned_def print_num64_def)
qed

end
