(* ===== verification/Crypto_Hash.thy ===== *)
theory Crypto_Hash
  imports Xk_Prelude
begin

text \<open>
  The hash functions of bsd/crypto/crypto_hash.cpp: SHA-256, MD5, SHA-1 and HMAC-SHA256. The
  three contexts have one shape, so they share the record \<open>hash_ctx\<close>: \<open>h_buf\<close> is the live prefix
  of \<open>buf\<close>, its length is \<open>buf_len\<close>. The update and final routines, which the source repeats for
  each hash, are one definition each, applied to the transform of the hash.
\<close>

section \<open>Model\<close>

record hash_ctx =
  h_state :: "u32 list"
  h_total :: u64
  h_buf :: "u8 list"

definition sha256_k :: "u32 list" where
  "sha256_k =
     [0x428a2f98, 0x71374491, 0xb5c0fbcf, 0xe9b5dba5, 0x3956c25b, 0x59f111f1, 0x923f82a4, 0xab1c5ed5,
      0xd807aa98, 0x12835b01, 0x243185be, 0x550c7dc3, 0x72be5d74, 0x80deb1fe, 0x9bdc06a7, 0xc19bf174,
      0xe49b69c1, 0xefbe4786, 0x0fc19dc6, 0x240ca1cc, 0x2de92c6f, 0x4a7484aa, 0x5cb0a9dc, 0x76f988da,
      0x983e5152, 0xa831c66d, 0xb00327c8, 0xbf597fc7, 0xc6e00bf3, 0xd5a79147, 0x06ca6351, 0x14292967,
      0x27b70a85, 0x2e1b2138, 0x4d2c6dfc, 0x53380d13, 0x650a7354, 0x766a0abb, 0x81c2c92e, 0x92722c85,
      0xa2bfe8a1, 0xa81a664b, 0xc24b8b70, 0xc76c51a3, 0xd192e819, 0xd6990624, 0xf40e3585, 0x106aa070,
      0x19a4c116, 0x1e376c08, 0x2748774c, 0x34b0bcb5, 0x391c0cb3, 0x4ed8aa4a, 0x5b9cca4f, 0x682e6ff3,
      0x748f82ee, 0x78a5636f, 0x84c87814, 0x8cc70208, 0x90befffa, 0xa4506ceb, 0xbef9a3f7, 0xc67178f2]"

definition rotr :: "u32 \<Rightarrow> nat \<Rightarrow> u32" where
  "rotr x n = drop_bit n x OR push_bit (32 - n) x"

definition ch :: "u32 \<Rightarrow> u32 \<Rightarrow> u32 \<Rightarrow> u32" where
  "ch x y z = (x AND y) XOR (NOT x AND z)"

definition maj :: "u32 \<Rightarrow> u32 \<Rightarrow> u32 \<Rightarrow> u32" where
  "maj x y z = (x AND y) XOR (x AND z) XOR (y AND z)"

definition bsig0 :: "u32 \<Rightarrow> u32" where "bsig0 x = rotr x 2 XOR rotr x 13 XOR rotr x 22"
definition bsig1 :: "u32 \<Rightarrow> u32" where "bsig1 x = rotr x 6 XOR rotr x 11 XOR rotr x 25"
definition ssig0 :: "u32 \<Rightarrow> u32" where "ssig0 x = rotr x 7 XOR rotr x 18 XOR drop_bit 3 x"
definition ssig1 :: "u32 \<Rightarrow> u32" where "ssig1 x = rotr x 17 XOR rotr x 19 XOR drop_bit 10 x"

definition read_be32 :: "u8 list \<Rightarrow> u32" where
  "read_be32 p = push_bit 24 (ucast (p ! 0)) OR push_bit 16 (ucast (p ! 1)) OR
     push_bit 8 (ucast (p ! 2)) OR ucast (p ! 3)"

definition write_be32 :: "u32 \<Rightarrow> u8 list" where
  "write_be32 v = [ucast (drop_bit 24 v), ucast (drop_bit 16 v), ucast (drop_bit 8 v), ucast v]"

definition sha256_schedule :: "u8 list \<Rightarrow> u32 list" where
  "sha256_schedule block =
     fold (\<lambda>i w. w @ [ssig1 (w ! (i - 2)) + w ! (i - 7) + ssig0 (w ! (i - 15)) + w ! (i - 16)])
       [16..<64] (map (\<lambda>i. read_be32 (drop (i * 4) block)) [0..<16])"

fun sha256_round :: "u32 list \<Rightarrow> nat \<Rightarrow> u32 list \<Rightarrow> u32 list" where
  "sha256_round w i [a, b, c, d, e, f, g, h] =
     (let t1 = h + bsig1 e + ch e f g + sha256_k ! i + w ! i;
          t2 = bsig0 a + maj a b c
      in [t1 + t2, a, b, c, d + t1, e, f, g])"
| "sha256_round w i st = st"

definition sha256_transform :: "u32 list \<Rightarrow> u8 list \<Rightarrow> u32 list" where
  "sha256_transform st block =
     map2 (+) st (fold (sha256_round (sha256_schedule block)) [0..<64] st)"

definition sha256_init :: hash_ctx where
  "sha256_init = \<lparr>h_state = [0x6a09e667, 0xbb67ae85, 0x3c6ef372, 0xa54ff53a,
      0x510e527f, 0x9b05688c, 0x1f83d9ab, 0x5be0cd19], h_total = 0, h_buf = []\<rparr>"

text \<open>\<open>while (len >= 64)\<close>: whole blocks straight from the data; the rest is returned.\<close>

function hash_blocks :: "(u32 list \<Rightarrow> u8 list \<Rightarrow> u32 list) \<Rightarrow> u32 list \<Rightarrow> u8 list \<Rightarrow> u32 list \<times> u8 list" where
  "hash_blocks tr st data =
     (if 64 \<le> length data then hash_blocks tr (tr st (take 64 data)) (drop 64 data) else (st, data))"
  by pat_completeness auto
termination by (relation "measure (\<lambda>(tr, st, data). length data)") auto

declare hash_blocks.simps [simp del]

text \<open>
  The data of an update is the list of its \<open>len\<close> bytes. The length is a 32-bit number in the source, so a list
  that is one argument of a call has less than \<open>2 ^ 32\<close> bytes; the count of all bytes is 64 bits wide and wraps.
\<close>

definition hash_update :: "(u32 list \<Rightarrow> u8 list \<Rightarrow> u32 list) \<Rightarrow> hash_ctx \<Rightarrow> u8 list \<Rightarrow> hash_ctx" where
  "hash_update tr ctx data =
     (let fill = 64 - length (h_buf ctx);
          (st, buf, rest) =
            (if h_buf ctx \<noteq> [] \<and> fill \<le> length data
             then (tr (h_state ctx) (h_buf ctx @ take fill data), [], drop fill data)
             else (h_state ctx, h_buf ctx, data));
          (st', rest') = hash_blocks tr st rest
      in \<lparr>h_state = st', h_total = h_total ctx + of_nat (length data),
          h_buf = (if rest' \<noteq> [] then buf @ rest' else buf)\<rparr>)"

definition hash_pad :: "nat \<Rightarrow> u8 list" where
  "hash_pad plen = take (if plen < 56 then 56 - plen else 120 - plen) (0x80 # replicate 63 0)"

definition hash_final :: "(u32 list \<Rightarrow> u8 list \<Rightarrow> u32 list) \<Rightarrow> (u64 \<Rightarrow> u8 list) \<Rightarrow> hash_ctx \<Rightarrow> hash_ctx" where
  "hash_final tr lenpad ctx =
     (let ctx1 = hash_update tr ctx (hash_pad (length (h_buf ctx)))
      in hash_update tr ctx1 (lenpad (h_total ctx1 * 8)))"

definition lenpad_be :: "u64 \<Rightarrow> u8 list" where
  "lenpad_be bits = map (\<lambda>i. ucast (drop_bit (8 * (7 - i)) bits AND 0xff)) [0..<8]"

definition lenpad_le :: "u64 \<Rightarrow> u8 list" where
  "lenpad_le bits = map (\<lambda>i. ucast (drop_bit (8 * i) bits AND 0xff)) [0..<8]"

definition sha256_update :: "hash_ctx \<Rightarrow> u8 list \<Rightarrow> hash_ctx" where
  "sha256_update = hash_update sha256_transform"

definition sha256_final :: "hash_ctx \<Rightarrow> u8 list" where
  "sha256_final ctx = concat (map write_be32 (h_state (hash_final sha256_transform lenpad_be ctx)))"

definition sha256_hash :: "u8 list \<Rightarrow> u8 list" where
  "sha256_hash data = sha256_final (sha256_update sha256_init data)"

subsection \<open>MD5\<close>

definition md5_t :: "u32 list" where
  "md5_t =
     [0xd76aa478, 0xe8c7b756, 0x242070db, 0xc1bdceee, 0xf57c0faf, 0x4787c62a, 0xa8304613, 0xfd469501,
      0x698098d8, 0x8b44f7af, 0xffff5bb1, 0x895cd7be, 0x6b901122, 0xfd987193, 0xa679438e, 0x49b40821,
      0xf61e2562, 0xc040b340, 0x265e5a51, 0xe9b6c7aa, 0xd62f105d, 0x02441453, 0xd8a1e681, 0xe7d3fbc8,
      0x21e1cde6, 0xc33707d6, 0xf4d50d87, 0x455a14ed, 0xa9e3e905, 0xfcefa3f8, 0x676f02d9, 0x8d2a4c8a,
      0xfffa3942, 0x8771f681, 0x6d9d6122, 0xfde5380c, 0xa4beea44, 0x4bdecfa9, 0xf6bb4b60, 0xbebfbc70,
      0x289b7ec6, 0xeaa127fa, 0xd4ef3085, 0x04881d05, 0xd9d4d039, 0xe6db99e5, 0x1fa27cf8, 0xc4ac5665,
      0xf4292244, 0x432aff97, 0xab9423a7, 0xfc93a039, 0x655b59c3, 0x8f0ccc92, 0xffeff47d, 0x85845dd1,
      0x6fa87e4f, 0xfe2ce6e0, 0xa3014314, 0x4e0811a1, 0xf7537e82, 0xbd3af235, 0x2ad7d2bb, 0xeb86d391]"

definition md5_s :: "nat list" where
  "md5_s = concat (replicate 4 [7, 12, 17, 22]) @ concat (replicate 4 [5, 9, 14, 20]) @
     concat (replicate 4 [4, 11, 16, 23]) @ concat (replicate 4 [6, 10, 15, 21])"

definition read_le32 :: "u8 list \<Rightarrow> u32" where
  "read_le32 p = ucast (p ! 0) OR push_bit 8 (ucast (p ! 1)) OR push_bit 16 (ucast (p ! 2)) OR
     push_bit 24 (ucast (p ! 3))"

definition write_le32 :: "u32 \<Rightarrow> u8 list" where
  "write_le32 v = [ucast v, ucast (drop_bit 8 v), ucast (drop_bit 16 v), ucast (drop_bit 24 v)]"

fun md5_round :: "u32 list \<Rightarrow> nat \<Rightarrow> u32 list \<Rightarrow> u32 list" where
  "md5_round w i [a, b, c, d] =
     (let (f, g) =
            (if i < 16 then ((b AND c) OR (NOT b AND d), i)
             else if i < 32 then ((d AND b) OR (NOT d AND c), (5 * i + 1) mod 16)
             else if i < 48 then (b XOR c XOR d, (3 * i + 5) mod 16)
             else (c XOR (b OR NOT d), (7 * i) mod 16));
          x = a + f + md5_t ! i + w ! g
      in [d, b + (push_bit (md5_s ! i) x OR drop_bit (32 - md5_s ! i) x), b, c])"
| "md5_round w i st = st"

definition md5_transform :: "u32 list \<Rightarrow> u8 list \<Rightarrow> u32 list" where
  "md5_transform st block =
     map2 (+) st (fold (md5_round (map (\<lambda>i. read_le32 (drop (i * 4) block)) [0..<16])) [0..<64] st)"

definition md5_init :: hash_ctx where
  "md5_init = \<lparr>h_state = [0x67452301, 0xefcdab89, 0x98badcfe, 0x10325476], h_total = 0, h_buf = []\<rparr>"

definition md5_update :: "hash_ctx \<Rightarrow> u8 list \<Rightarrow> hash_ctx" where
  "md5_update = hash_update md5_transform"

definition md5_final :: "hash_ctx \<Rightarrow> u8 list" where
  "md5_final ctx = concat (map write_le32 (h_state (hash_final md5_transform lenpad_le ctx)))"

definition md5_hash :: "u8 list \<Rightarrow> u8 list" where
  "md5_hash data = md5_final (md5_update md5_init data)"

subsection \<open>SHA-1\<close>

definition sha1_schedule :: "u8 list \<Rightarrow> u32 list" where
  "sha1_schedule block =
     fold (\<lambda>i w. w @ [rotr (w ! (i - 3) XOR w ! (i - 8) XOR w ! (i - 14) XOR w ! (i - 16)) 1])
       [16..<80] (map (\<lambda>i. read_be32 (drop (i * 4) block)) [0..<16])"

fun sha1_round :: "u32 list \<Rightarrow> nat \<Rightarrow> u32 list \<Rightarrow> u32 list" where
  "sha1_round w i [a, b, c, d, e] =
     (let (f, k) =
            (if i < 20 then ((b AND c) OR (NOT b AND d), 0x5A827999)
             else if i < 40 then (b XOR c XOR d, 0x6ED9EBA1)
             else if i < 60 then ((b AND c) OR (b AND d) OR (c AND d), 0x8F1BBCDC)
             else (b XOR c XOR d, 0xCA62C1D6))
      in [rotr a 5 + f + e + k + w ! i, a, rotr b 30, c, d])"
| "sha1_round w i st = st"

definition sha1_transform :: "u32 list \<Rightarrow> u8 list \<Rightarrow> u32 list" where
  "sha1_transform st block = map2 (+) st (fold (sha1_round (sha1_schedule block)) [0..<80] st)"

definition sha1_init :: hash_ctx where
  "sha1_init = \<lparr>h_state = [0x67452301, 0xEFCDAB89, 0x98BADCFE, 0x10325476, 0xC3D2E1F0],
     h_total = 0, h_buf = []\<rparr>"

definition sha1_update :: "hash_ctx \<Rightarrow> u8 list \<Rightarrow> hash_ctx" where
  "sha1_update = hash_update sha1_transform"

definition sha1_final :: "hash_ctx \<Rightarrow> u8 list" where
  "sha1_final ctx = concat (map write_be32 (h_state (hash_final sha1_transform lenpad_be ctx)))"

definition sha1_hash :: "u8 list \<Rightarrow> u8 list" where
  "sha1_hash data = sha1_final (sha1_update sha1_init data)"

subsection \<open>HMAC\<close>

definition hmac_key_block :: "u8 list \<Rightarrow> u8 list" where
  "hmac_key_block key =
     (let k = (if 64 < length key then sha256_hash key else key)
      in k @ replicate (64 - length k) 0)"

definition hmac_sha256 :: "u8 list \<Rightarrow> u8 list \<Rightarrow> u8 list" where
  "hmac_sha256 key data =
     (let k_pad = hmac_key_block key;
          i_pad = map (\<lambda>x. x XOR 0x36) k_pad;
          o_pad = map (\<lambda>x. x XOR 0x5c) k_pad;
          mac = sha256_final (sha256_update (sha256_update sha256_init i_pad) data)
      in sha256_final (sha256_update (sha256_update sha256_init o_pad) mac))"


section \<open>Whole blocks and the rest\<close>

function chunks64 :: "u8 list \<Rightarrow> u8 list list" where
  "chunks64 xs = (if 64 \<le> length xs then take 64 xs # chunks64 (drop 64 xs) else [])"
  by pat_completeness auto
termination by (relation "measure length") auto

declare chunks64.simps [simp del]

definition rest64 :: "u8 list \<Rightarrow> u8 list" where
  "rest64 xs = drop (length xs div 64 * 64) xs"

lemma chunks64_short [simp]: "length xs < 64 \<Longrightarrow> chunks64 xs = []" "length xs < 64 \<Longrightarrow> rest64 xs = xs"
  by (simp_all add: chunks64.simps rest64_def)

lemma chunks64_step:
  "length b = 64 \<Longrightarrow> chunks64 (b @ xs) = b # chunks64 xs" "length b = 64 \<Longrightarrow> rest64 (b @ xs) = rest64 xs"
  by (simp_all add: chunks64.simps [of "b @ xs"] rest64_def div_add_self1)

lemma length_rest64: "length (rest64 xs) = length xs mod 64"
  by (simp add: rest64_def minus_div_mult_eq_mod)

lemma hash_blocks_eq: "hash_blocks tr st xs = (foldl tr st (chunks64 xs), rest64 xs)"
proof (induction xs arbitrary: st rule: chunks64.induct)
  case (1 xs)
  show ?case
  proof (cases "64 \<le> length xs")
    case True
    have "xs = take 64 xs @ drop 64 xs" "length (take 64 xs) = 64"
      using True by simp_all
    then have "chunks64 xs = take 64 xs # chunks64 (drop 64 xs)" "rest64 xs = rest64 (drop 64 xs)"
      using chunks64_step [of "take 64 xs" "drop 64 xs"] by simp_all
    with 1 True show ?thesis
      by (simp add: hash_blocks.simps [of tr st xs])
  qed (simp add: hash_blocks.simps [of tr st xs])
qed

lemma chunks64_append:
  "length xs mod 64 = 0 \<Longrightarrow> chunks64 (xs @ ys) = chunks64 xs @ chunks64 ys"
proof (induction xs rule: chunks64.induct)
  case (1 xs)
  show ?case
  proof (cases "64 \<le> length xs")
    case True
    define b r where br: "b = take 64 xs" "r = drop 64 xs"
    have xs: "xs = b @ r" "length b = 64"
      using True by (simp_all add: br)
    have "length r mod 64 = 0"
      using 1(2) xs by simp
    then have "chunks64 (r @ ys) = chunks64 r @ chunks64 ys"
      using 1(1) True by (simp add: br)
    with xs show ?thesis
      by (simp add: chunks64_step)
  next
    case False
    with 1(2) show ?thesis by simp
  qed
qed

lemma rest64_append: "length xs mod 64 = 0 \<Longrightarrow> rest64 (xs @ ys) = rest64 ys"
  by (auto simp: rest64_def mod_eq_0_iff_dvd algebra_simps elim!: dvdE)

text \<open>The context after absorbing \<open>xs\<close>, started from the state \<open>st0\<close>.\<close>

definition absorbed :: "(u32 list \<Rightarrow> u8 list \<Rightarrow> u32 list) \<Rightarrow> u32 list \<Rightarrow> u8 list \<Rightarrow> hash_ctx" where
  "absorbed tr st0 xs =
     \<lparr>h_state = foldl tr st0 (chunks64 xs), h_total = of_nat (length xs), h_buf = rest64 xs\<rparr>"

lemma split64: obtains ws where "xs = ws @ rest64 xs" "length ws mod 64 = 0" "chunks64 xs = chunks64 ws"
proof -
  define ws where "ws = take (length xs div 64 * 64) xs"
  have "xs = ws @ rest64 xs"
    by (simp add: ws_def rest64_def)
  moreover have "length ws mod 64 = 0"
    using div_times_less_eq_dividend [of "length xs" 64] by (simp add: ws_def min_absorb2)
  moreover from calculation have "chunks64 xs = chunks64 ws"
    using chunks64_append [of ws "rest64 xs"] by (simp add: length_rest64)
  ultimately show ?thesis
    by (rule that)
qed

lemma hash_update_absorbed: "hash_update tr (absorbed tr st0 xs) ys = absorbed tr st0 (xs @ ys)"
proof -
  obtain ws where ws: "xs = ws @ rest64 xs" "length ws mod 64 = 0" "chunks64 xs = chunks64 ws"
    by (rule split64)
  define b where "b = rest64 xs"
  have b: "length b < 64"
    by (simp add: b_def length_rest64)
  have xy: "chunks64 (xs @ ys) = chunks64 xs @ chunks64 (b @ ys)" "rest64 (xs @ ys) = rest64 (b @ ys)"
    using ws chunks64_append [OF ws(2), of "b @ ys"] rest64_append [OF ws(2), of "b @ ys"]
    by (metis append_assoc b_def)+
  show ?thesis
  proof (cases "b \<noteq> [] \<and> 64 - length b \<le> length ys")
    case True
    define n where "n = 64 - length b"
    have len: "length (b @ take n ys) = 64"
      using True b by (simp add: n_def)
    have "b @ ys = (b @ take n ys) @ drop n ys"
      by simp
    then have "chunks64 (b @ ys) = (b @ take n ys) # chunks64 (drop n ys)" "rest64 (b @ ys) = rest64 (drop n ys)"
      using chunks64_step [OF len, of "drop n ys"] by metis+
    with True show ?thesis
      by (simp add: hash_update_def absorbed_def xy b_def [symmetric] n_def [symmetric] Let_def hash_blocks_eq)
  next
    case False
    show ?thesis
    proof (cases "b = []")
      case True
      then show ?thesis
        by (simp add: hash_update_def absorbed_def xy b_def [symmetric] Let_def hash_blocks_eq)
    next
      case ne: False
      then have "length (b @ ys) < 64" "length ys < 64"
        using False by auto
      with ne False show ?thesis
        by (simp add: hash_update_def absorbed_def xy b_def [symmetric] Let_def hash_blocks_eq)
    qed
  qed
qed

text \<open>The message the hash processes: the data, the padding and the length field.\<close>

definition hash_message :: "(u64 \<Rightarrow> u8 list) \<Rightarrow> u8 list \<Rightarrow> u8 list" where
  "hash_message enc xs = (let p = xs @ hash_pad (length xs mod 64) in p @ enc (of_nat (length p) * 8))"

section \<open>The interface of a block hash\<close>

text \<open>
  What the streaming interface relies on: an encoding of the length in eight bytes, and a
  transform that keeps the number of state words.
\<close>

locale block_hash =
  fixes tr :: "u32 list \<Rightarrow> u8 list \<Rightarrow> u32 list" and enc :: "u64 \<Rightarrow> u8 list"
    and ini :: hash_ctx and words :: nat
  assumes enc_length: "length (enc x) = 8"
    and tr_length: "length st = words \<Longrightarrow> length (tr st b) = words"
    and ini_length: "length (h_state ini) = words"
    and ini_empty: "h_total ini = 0" "h_buf ini = []"
begin

lemma ini_absorbed: "ini = absorbed tr (h_state ini) []"
  using ini_empty by (simp add: absorbed_def)

lemma update_append: "hash_update tr (hash_update tr ini xs) ys = hash_update tr ini (xs @ ys)"
  by (metis append_Nil hash_update_absorbed ini_absorbed)

lemma update_ini: "hash_update tr ini xs = absorbed tr (h_state ini) xs"
  by (metis append_Nil hash_update_absorbed ini_absorbed)

lemma final_state:
  "h_state (hash_final tr enc (hash_update tr ini xs)) = foldl tr (h_state ini) (chunks64 (hash_message enc xs))"
proof -
  have "hash_final tr enc (absorbed tr (h_state ini) xs) = absorbed tr (h_state ini) (hash_message enc xs)"
    by (simp add: hash_final_def Let_def hash_update_absorbed hash_message_def)
       (simp add: absorbed_def length_rest64 hash_update_absorbed [unfolded absorbed_def])
  then show ?thesis
    by (simp add: update_ini) (simp add: absorbed_def)
qed

lemma foldl_length: "length st = words \<Longrightarrow> length (foldl tr st bs) = words"
  by (induction bs arbitrary: st) (simp_all add: tr_length)

lemma final_length: "length (h_state (hash_final tr enc (hash_update tr ini xs))) = words"
  by (simp add: final_state foldl_length ini_length)

lemma update_pieces: "foldl (hash_update tr) ini pieces = hash_update tr ini (concat pieces)"
proof (induction pieces rule: rev_induct)
  case Nil
  then show ?case
    using update_ini [of "[]"] ini_absorbed by simp
qed (simp add: update_append)

end


section \<open>The three hashes\<close>

lemma length_sha256_round: "length (sha256_round w i st) = length st"
  by (cases "(w, i, st)" rule: sha256_round.cases) (simp_all add: Let_def)

lemma length_md5_round: "length (md5_round w i st) = length st"
  by (cases "(w, i, st)" rule: md5_round.cases) (simp_all add: Let_def split: prod.split)

lemma length_sha1_round: "length (sha1_round w i st) = length st"
  by (cases "(w, i, st)" rule: sha1_round.cases) (simp_all add: Let_def split: prod.split)

lemma length_fold: "(\<And>i st. length (f i st) = length st) \<Longrightarrow> length (fold f is st) = length st"
  by (induction "is" arbitrary: st) simp_all

lemma length_lenpad: "length (lenpad_be x) = 8" "length (lenpad_le x) = 8"
  by (simp_all add: lenpad_be_def lenpad_le_def)

interpretation sha256: block_hash sha256_transform lenpad_be sha256_init 8
  by unfold_locales
     (simp_all add: sha256_transform_def length_fold length_sha256_round length_lenpad sha256_init_def)

interpretation md5: block_hash md5_transform lenpad_le md5_init 4
  by unfold_locales
     (simp_all add: md5_transform_def length_fold length_md5_round length_lenpad md5_init_def)

interpretation sha1: block_hash sha1_transform lenpad_be sha1_init 5
  by unfold_locales
     (simp_all add: sha1_transform_def length_fold length_sha1_round length_lenpad sha1_init_def)

lemma length_hash_pad:
  "p < 64 \<Longrightarrow> length (hash_pad p) = (if p < 56 then 56 - p else 120 - p)"
  by (simp add: hash_pad_def)

lemma hash_message_blocks: "length (enc x) = 8 \<Longrightarrow> (\<And>x. length (enc x) = 8) \<Longrightarrow> length (hash_message enc xs) mod 64 = 0"
proof -
  assume enc: "\<And>x. length (enc x) = 8"
  define p where "p = length xs mod 64"
  obtain k where n: "length xs = 64 * k + p"
    unfolding p_def by (metis mult_div_mod_eq)
  have "p < 64"
    by (simp add: p_def)
  then have "length (hash_message enc xs) = (if p < 56 then 64 * (k + 1) else 64 * (k + 2))"
    using n by (simp add: hash_message_def Let_def enc p_def [symmetric] length_hash_pad)
  then show ?thesis by simp
qed

lemma bit_lenpad_be:
  assumes "n < 64"
  shows "bit (lenpad_be x ! (7 - n div 8)) (n mod 8) = bit x n"
proof -
  have i: "7 - n div 8 < 8" "7 - (7 - n div 8) = n div 8"
    using assms by auto
  have ff: "(0xff :: u64) = mask 8"
    by (simp add: mask_eq_exp_minus_1)
  have "8 * (n div 8) + n mod 8 = n" "n mod 8 < 64"
    using mod_less_divisor [of 8 n] by (simp, linarith)
  with i show ?thesis
    unfolding lenpad_be_def ff by (simp add: bit_simps)
qed

lemma lenpad_be_inj:
  assumes "lenpad_be x = lenpad_be y"
  shows "x = y"
proof (rule bit_word_eqI)
  fix n assume "n < LENGTH(64)"
  then have "n < 64"
    by simp
  from bit_lenpad_be [OF this, of x] bit_lenpad_be [OF this, of y] assms
  show "bit x n = bit y n" by simp
qed

lemma length_concat4: "(\<And>w. length (f w) = 4) \<Longrightarrow> length (concat (map f ws)) = 4 * length ws"
  by (induction ws) simp_all

lemma length_digests:
  "length (sha256_hash xs) = 32" "length (md5_hash xs) = 16" "length (sha1_hash xs) = 20"
proof -
  have w: "length (write_be32 v) = 4" "length (write_le32 v) = 4" for v
    by (simp_all add: write_be32_def write_le32_def)
  show "length (sha256_hash xs) = 32" "length (md5_hash xs) = 16" "length (sha1_hash xs) = 20"
    using sha256.final_length [of xs] md5.final_length [of xs] sha1.final_length [of xs]
    by (simp_all add: sha256_hash_def sha256_final_def sha256_update_def md5_hash_def md5_final_def
        md5_update_def sha1_hash_def sha1_final_def sha1_update_def
        length_concat4 [OF w(1)] length_concat4 [OF w(2)])
qed

section \<open>Properties\<close>

text \<open>
  C26. Streaming does not depend on the pieces: feeding a message to SHA-256, MD5 or SHA-1 in any
  sequence of updates leaves the same context (state, count and buffered bytes) as one update with the whole
  message, and the final step then gives the digest the one-shot function gives for it.
\<close>

theorem hash_streaming:
  "foldl sha256_update sha256_init pieces = sha256_update sha256_init (concat pieces) \<and>
   sha256_final (foldl sha256_update sha256_init pieces) = sha256_hash (concat pieces) \<and>
   foldl md5_update md5_init pieces = md5_update md5_init (concat pieces) \<and>
   md5_final (foldl md5_update md5_init pieces) = md5_hash (concat pieces) \<and>
   foldl sha1_update sha1_init pieces = sha1_update sha1_init (concat pieces) \<and>
   sha1_final (foldl sha1_update sha1_init pieces) = sha1_hash (concat pieces)"
  by (simp add: sha256_update_def md5_update_def sha1_update_def sha256_hash_def md5_hash_def
      sha1_hash_def sha256.update_pieces md5.update_pieces sha1.update_pieces)

text \<open>
  The digests are the Merkle-Damgaard iteration of the transforms over the message followed
  by the padding and the length field, which together fill whole blocks, and they have the
  sizes the headers declare.
\<close>

theorem hash_iteration:
  "sha256_hash xs = concat (map write_be32
     (foldl sha256_transform (h_state sha256_init) (chunks64 (hash_message lenpad_be xs)))) \<and>
   md5_hash xs = concat (map write_le32
     (foldl md5_transform (h_state md5_init) (chunks64 (hash_message lenpad_le xs)))) \<and>
   sha1_hash xs = concat (map write_be32
     (foldl sha1_transform (h_state sha1_init) (chunks64 (hash_message lenpad_be xs)))) \<and>
   length (hash_message lenpad_be xs) mod 64 = 0 \<and> length (hash_message lenpad_le xs) mod 64 = 0 \<and>
   length (sha256_hash xs) = 32 \<and> length (md5_hash xs) = 16 \<and> length (sha1_hash xs) = 20"
  using length_digests [of xs] hash_message_blocks [of lenpad_be _ xs] hash_message_blocks [of lenpad_le _ xs]
  by (simp add: length_lenpad)
     (simp add: sha256_hash_def sha256_final_def sha256_update_def md5_hash_def md5_final_def
        md5_update_def sha1_hash_def sha1_final_def sha1_update_def sha256.final_state md5.final_state
        sha1.final_state)

text \<open>
  The length field SHA-256 and SHA-1 hash is that of the message and its padding, not that of
  the message as the standard requires: the final routine reads the byte count after the
  padding has been counted into it.
\<close>

theorem hash_length_field_wrong:
  assumes "length xs < 2 ^ 32"
  shows "hash_message lenpad_be xs = xs @ hash_pad (length xs mod 64) @
      lenpad_be (8 * of_nat (length xs + length (hash_pad (length xs mod 64)))) \<and>
    lenpad_be (8 * of_nat (length xs + length (hash_pad (length xs mod 64)))) \<noteq>
      lenpad_be (8 * of_nat (length xs))"
proof -
  let ?p = "length (hash_pad (length xs mod 64))"
  have p: "0 < ?p" "?p \<le> 64"
    using length_hash_pad [of "length xs mod 64"] by auto
  define l l' where l: "l = (8 * of_nat (length xs) :: u64)" "l' = (8 * of_nat (length xs + ?p) :: u64)"
  have "unat l' = 8 * (length xs + ?p)" "unat l = 8 * length xs"
    using assms p by (simp_all add: l unat_word_ariths unat_of_nat)
  then have "l' \<noteq> l"
    using p by auto
  then have "lenpad_be l' \<noteq> lenpad_be l"
    using lenpad_be_inj by blast
  then show ?thesis
    unfolding l by (simp only: hash_message_def Let_def length_append append_assoc mult.commute [of _ 8]) simp
qed

theorem hash_length_field_wrong_witness:
  "hash_message lenpad_be [] = [] @ hash_pad 0 @ lenpad_be (8 * 56)"
  using hash_length_field_wrong [of "[]"] by (simp add: length_hash_pad)

text \<open>
  HMAC-SHA256 is the nested construction: the streamed computation equals hashing the outer
  pad followed by the hash of the inner pad followed by the data, with a key block of exactly
  64 bytes for every key length.
\<close>

theorem hmac_sha256_nested:
  "hmac_sha256 key data =
     sha256_hash (map (\<lambda>x. x XOR 0x5c) (hmac_key_block key) @
       sha256_hash (map (\<lambda>x. x XOR 0x36) (hmac_key_block key) @ data)) \<and>
   length (hmac_key_block key) = 64"
proof
  show "length (hmac_key_block key) = 64"
    by (simp add: hmac_key_block_def Let_def length_digests)
qed (simp add: hmac_sha256_def Let_def sha256_hash_def sha256_update_def sha256.update_append)

end
