(* ===== verification/Crypto_Aes.thy ===== *)
theory Crypto_Aes
  imports Xk_Prelude
begin

text \<open>
  The AES cipher of bsd/crypto/crypto_cipher.cpp: the block functions, the key expansion and the
  ECB, CBC and CTR modes. A block is a list of sixteen bytes and a round-key array the list of
  its words. Buffers are lists of bytes; a routine that would read or write outside of its
  arrays, or that does not return, has the value \<open>None\<close>.
\<close>

section \<open>The block cipher\<close>

definition sbox :: "u8 list" where
  "sbox =
     [0x63, 0x7c, 0x77, 0x7b, 0xf2, 0x6b, 0x6f, 0xc5, 0x30, 0x01, 0x67, 0x2b, 0xfe, 0xd7, 0xab, 0x76,
      0xca, 0x82, 0xc9, 0x7d, 0xfa, 0x59, 0x47, 0xf0, 0xad, 0xd4, 0xa2, 0xaf, 0x9c, 0xa4, 0x72, 0xc0,
      0xb7, 0xfd, 0x93, 0x26, 0x36, 0x3f, 0xf7, 0xcc, 0x34, 0xa5, 0xe5, 0xf1, 0x71, 0xd8, 0x31, 0x15,
      0x04, 0xc7, 0x23, 0xc3, 0x18, 0x96, 0x05, 0x9a, 0x07, 0x12, 0x80, 0xe2, 0xeb, 0x27, 0xb2, 0x75,
      0x09, 0x83, 0x2c, 0x1a, 0x1b, 0x6e, 0x5a, 0xa0, 0x52, 0x3b, 0xd6, 0xb3, 0x29, 0xe3, 0x2f, 0x84,
      0x53, 0xd1, 0x00, 0xed, 0x20, 0xfc, 0xb1, 0x5b, 0x6a, 0xcb, 0xbe, 0x39, 0x4a, 0x4c, 0x58, 0xcf,
      0xd0, 0xef, 0xaa, 0xfb, 0x43, 0x4d, 0x33, 0x85, 0x45, 0xf9, 0x02, 0x7f, 0x50, 0x3c, 0x9f, 0xa8,
      0x51, 0xa3, 0x40, 0x8f, 0x92, 0x9d, 0x38, 0xf5, 0xbc, 0xb6, 0xda, 0x21, 0x10, 0xff, 0xf3, 0xd2,
      0xcd, 0x0c, 0x13, 0xec, 0x5f, 0x97, 0x44, 0x17, 0xc4, 0xa7, 0x7e, 0x3d, 0x64, 0x5d, 0x19, 0x73,
      0x60, 0x81, 0x4f, 0xdc, 0x22, 0x2a, 0x90, 0x88, 0x46, 0xee, 0xb8, 0x14, 0xde, 0x5e, 0x0b, 0xdb,
      0xe0, 0x32, 0x3a, 0x0a, 0x49, 0x06, 0x24, 0x5c, 0xc2, 0xd3, 0xac, 0x62, 0x91, 0x95, 0xe4, 0x79,
      0xe7, 0xc8, 0x37, 0x6d, 0x8d, 0xd5, 0x4e, 0xa9, 0x6c, 0x56, 0xf4, 0xea, 0x65, 0x7a, 0xae, 0x08,
      0xba, 0x78, 0x25, 0x2e, 0x1c, 0xa6, 0xb4, 0xc6, 0xe8, 0xdd, 0x74, 0x1f, 0x4b, 0xbd, 0x8b, 0x8a,
      0x70, 0x3e, 0xb5, 0x66, 0x48, 0x03, 0xf6, 0x0e, 0x61, 0x35, 0x57, 0xb9, 0x86, 0xc1, 0x1d, 0x9e,
      0xe1, 0xf8, 0x98, 0x11, 0x69, 0xd9, 0x8e, 0x94, 0x9b, 0x1e, 0x87, 0xe9, 0xce, 0x55, 0x28, 0xdf,
      0x8c, 0xa1, 0x89, 0x0d, 0xbf, 0xe6, 0x42, 0x68, 0x41, 0x99, 0x2d, 0x0f, 0xb0, 0x54, 0xbb, 0x16]"

definition inv_sbox :: "u8 list" where
  "inv_sbox =
     [0x52, 0x09, 0x6a, 0xd5, 0x30, 0x36, 0xa5, 0x38, 0xbf, 0x40, 0xa3, 0x9e, 0x81, 0xf3, 0xd7, 0xfb,
      0x7c, 0xe3, 0x39, 0x82, 0x9b, 0x2f, 0xff, 0x87, 0x34, 0x8e, 0x43, 0x44, 0xc4, 0xde, 0xe9, 0xcb,
      0x54, 0x7b, 0x94, 0x32, 0xa6, 0xc2, 0x23, 0x3d, 0xee, 0x4c, 0x95, 0x0b, 0x42, 0xfa, 0xc3, 0x4e,
      0x08, 0x2e, 0xa1, 0x66, 0x28, 0xd9, 0x24, 0xb2, 0x76, 0x5b, 0xa2, 0x49, 0x6d, 0x8b, 0xd1, 0x25,
      0x72, 0xf8, 0xf6, 0x64, 0x86, 0x68, 0x98, 0x16, 0xd4, 0xa4, 0x5c, 0xcc, 0x5d, 0x65, 0xb6, 0x92,
      0x6c, 0x70, 0x48, 0x50, 0xfd, 0xed, 0xb9, 0xda, 0x5e, 0x15, 0x46, 0x57, 0xa7, 0x8d, 0x9d, 0x84,
      0x90, 0xd8, 0xab, 0x00, 0x8c, 0xbc, 0xd3, 0x0a, 0xf7, 0xe4, 0x58, 0x05, 0xb8, 0xb3, 0x45, 0x06,
      0xd0, 0x2c, 0x1e, 0x8f, 0xca, 0x3f, 0x0f, 0x02, 0xc1, 0xaf, 0xbd, 0x03, 0x01, 0x13, 0x8a, 0x6b,
      0x3a, 0x91, 0x11, 0x41, 0x4f, 0x67, 0xdc, 0xea, 0x97, 0xf2, 0xcf, 0xce, 0xf0, 0xb4, 0xe6, 0x73,
      0x96, 0xac, 0x74, 0x22, 0xe7, 0xad, 0x35, 0x85, 0xe2, 0xf9, 0x37, 0xe8, 0x1c, 0x75, 0xdf, 0x6e,
      0x47, 0xf1, 0x1a, 0x71, 0x1d, 0x29, 0xc5, 0x89, 0x6f, 0xb7, 0x62, 0x0e, 0xaa, 0x18, 0xbe, 0x1b,
      0xfc, 0x56, 0x3e, 0x4b, 0xc6, 0xd2, 0x79, 0x20, 0x9a, 0xdb, 0xc0, 0xfe, 0x78, 0xcd, 0x5a, 0xf4,
      0x1f, 0xdd, 0xa8, 0x33, 0x88, 0x07, 0xc7, 0x31, 0xb1, 0x12, 0x10, 0x59, 0x27, 0x80, 0xec, 0x5f,
      0x60, 0x51, 0x7f, 0xa9, 0x19, 0xb5, 0x4a, 0x0d, 0x2d, 0xe5, 0x7a, 0x9f, 0x93, 0xc9, 0x9c, 0xef,
      0xa0, 0xe0, 0x3b, 0x4d, 0xae, 0x2a, 0xf5, 0xb0, 0xc8, 0xeb, 0xbb, 0x3c, 0x83, 0x53, 0x99, 0x61,
      0x17, 0x2b, 0x04, 0x7e, 0xba, 0x77, 0xd6, 0x26, 0xe1, 0x69, 0x14, 0x63, 0x55, 0x21, 0x0c, 0x7d]"

definition rcon :: "u8 list" where
  "rcon = [0x00, 0x01, 0x02, 0x04, 0x08, 0x10, 0x20, 0x40, 0x80, 0x1b, 0x36]"

definition xtime :: "u8 \<Rightarrow> u8" where
  "xtime x = push_bit 1 x XOR ((drop_bit 7 x AND 1) * 0x1b)"

primrec xmul_loop :: "nat \<Rightarrow> u8 \<Rightarrow> u8 \<Rightarrow> u8 \<Rightarrow> u8" where
  "xmul_loop 0 a b p = p"
| "xmul_loop (Suc n) a b p =
     xmul_loop n (xtime a) (drop_bit 1 b) (if b AND 1 \<noteq> 0 then p XOR a else p)"

definition xmul :: "u8 \<Rightarrow> u8 \<Rightarrow> u8" where
  "xmul a b = xmul_loop 8 a b 0"

definition round_bytes :: "u32 list \<Rightarrow> nat \<Rightarrow> u8 list" where
  "round_bytes rk round =
     concat (map (\<lambda>i. let w = rk ! (round * 4 + i)
                      in [ucast (drop_bit 24 w), ucast (drop_bit 16 w), ucast (drop_bit 8 w), ucast w])
       [0..<4])"

definition add_round_key :: "u8 list \<Rightarrow> u32 list \<Rightarrow> nat \<Rightarrow> u8 list" where
  "add_round_key state rk round = map2 (XOR) state (round_bytes rk round)"

definition sub_bytes :: "u8 list \<Rightarrow> u8 list" where
  "sub_bytes state = map (\<lambda>x. sbox ! unat x) state"

fun shift_rows :: "u8 list \<Rightarrow> u8 list" where
  "shift_rows [s0, s1, s2, s3, s4, s5, s6, s7, s8, s9, s10, s11, s12, s13, s14, s15] =
     [s0, s5, s10, s15, s4, s9, s14, s3, s8, s13, s2, s7, s12, s1, s6, s11]"
| "shift_rows s = s"

definition mix_column :: "u8 \<times> u8 \<times> u8 \<times> u8 \<Rightarrow> u8 list" where
  "mix_column = (\<lambda>(a0, a1, a2, a3).
     let t = a0 XOR a1 XOR a2 XOR a3
     in [a0 XOR (xtime (a0 XOR a1) XOR t), a1 XOR (xtime (a1 XOR a2) XOR t),
         a2 XOR (xtime (a2 XOR a3) XOR t), a3 XOR (xtime (a3 XOR a0) XOR t)])"

definition columns :: "(u8 \<times> u8 \<times> u8 \<times> u8 \<Rightarrow> u8 list) \<Rightarrow> u8 list \<Rightarrow> u8 list" where
  "columns f s = concat (map (\<lambda>c. f (s ! (c * 4), s ! (c * 4 + 1), s ! (c * 4 + 2), s ! (c * 4 + 3))) [0..<4])"

definition mix_columns :: "u8 list \<Rightarrow> u8 list" where
  "mix_columns = columns mix_column"

definition sub_bytes_inv :: "u8 list \<Rightarrow> u8 list" where
  "sub_bytes_inv state = map (\<lambda>x. inv_sbox ! unat x) state"

fun shift_rows_inv :: "u8 list \<Rightarrow> u8 list" where
  "shift_rows_inv [s0, s1, s2, s3, s4, s5, s6, s7, s8, s9, s10, s11, s12, s13, s14, s15] =
     [s0, s13, s10, s7, s4, s1, s14, s11, s8, s5, s2, s15, s12, s9, s6, s3]"
| "shift_rows_inv s = s"

definition mix_column_inv :: "u8 \<times> u8 \<times> u8 \<times> u8 \<Rightarrow> u8 list" where
  "mix_column_inv = (\<lambda>(a0, a1, a2, a3).
     [xmul a0 0x0e XOR xmul a1 0x0b XOR xmul a2 0x0d XOR xmul a3 0x09,
      xmul a0 0x09 XOR xmul a1 0x0e XOR xmul a2 0x0b XOR xmul a3 0x0d,
      xmul a0 0x0d XOR xmul a1 0x09 XOR xmul a2 0x0e XOR xmul a3 0x0b,
      xmul a0 0x0b XOR xmul a1 0x0d XOR xmul a2 0x09 XOR xmul a3 0x0e])"

definition mix_columns_inv :: "u8 list \<Rightarrow> u8 list" where
  "mix_columns_inv = columns mix_column_inv"

definition sbox_word :: "u32 \<Rightarrow> nat \<Rightarrow> nat \<Rightarrow> nat \<Rightarrow> nat \<Rightarrow> u32" where
  "sbox_word temp p q r s =
     push_bit 24 (ucast (sbox ! unat (drop_bit p temp AND 0xff))) OR
     push_bit 16 (ucast (sbox ! unat (drop_bit q temp AND 0xff))) OR
     push_bit 8 (ucast (sbox ! unat (drop_bit r temp AND 0xff))) OR
     ucast (sbox ! unat (drop_bit s temp AND 0xff))"

definition expand_step :: "nat \<Rightarrow> nat \<Rightarrow> u32 list \<Rightarrow> u32 list" where
  "expand_step nk i rk =
     (let temp = rk ! (i - 1);
          temp = (if i mod nk = 0
                  then sbox_word temp 16 8 0 24 XOR push_bit 24 (ucast (rcon ! (i div nk)))
                  else if nk > 6 \<and> i mod nk = 4 then sbox_word temp 24 16 8 0
                  else temp)
      in rk @ [rk ! (i - nk) XOR temp])"

text \<open>
  With fewer than four key words the index into \<open>rcon\<close> leaves the table (or the modulus is
  zero), with more than eight the schedule does not fit into \<open>rk[60]\<close>.
\<close>

definition key_expand :: "u8 list \<Rightarrow> (u32 list \<times> nat) option" where
  "key_expand key =
     (let nk = length key div 4;
          nr = nk + 6;
          rk0 = map (\<lambda>i. push_bit 24 (ucast (key ! (4 * i))) OR push_bit 16 (ucast (key ! (4 * i + 1))) OR
                         push_bit 8 (ucast (key ! (4 * i + 2))) OR ucast (key ! (4 * i + 3))) [0..<nk]
      in if nk < 4 \<or> 8 < nk then None
         else Some (fold (expand_step nk) [nk..<4 * (nr + 1)] rk0, nr))"

definition enc_round :: "u32 list \<Rightarrow> nat \<Rightarrow> u8 list \<Rightarrow> u8 list" where
  "enc_round rk i s = add_round_key (mix_columns (shift_rows (sub_bytes s))) rk i"

definition aes_block_encrypt :: "u32 list \<Rightarrow> nat \<Rightarrow> u8 list \<Rightarrow> u8 list" where
  "aes_block_encrypt rk nr inp =
     add_round_key (shift_rows (sub_bytes
       (fold (enc_round rk) [1..<nr] (add_round_key inp rk 0)))) rk nr"

definition dec_round :: "u32 list \<Rightarrow> nat \<Rightarrow> u8 list \<Rightarrow> u8 list" where
  "dec_round rk i s = mix_columns_inv (add_round_key (sub_bytes_inv (shift_rows_inv s)) rk i)"

definition aes_block_decrypt :: "u32 list \<Rightarrow> nat \<Rightarrow> u8 list \<Rightarrow> u8 list" where
  "aes_block_decrypt rk nr inp =
     add_round_key (sub_bytes_inv (shift_rows_inv
       (fold (dec_round rk) (rev [1..<nr]) (add_round_key inp rk nr)))) rk 0"

section \<open>The modes\<close>

datatype aes_mode = MODE_ECB | MODE_CBC | MODE_CTR

record aes_ctx =
  a_rk :: "u32 list"
  a_nr :: nat
  a_mode :: aes_mode
  a_iv :: "u8 list"

definition aes_init :: "aes_mode \<Rightarrow> u8 list \<Rightarrow> u8 list option \<Rightarrow> aes_ctx option" where
  "aes_init md key iv =
     (case key_expand key of None \<Rightarrow> None
      | Some (rk, nr) \<Rightarrow>
          Some \<lparr>a_rk = rk, a_nr = nr, a_mode = md,
                a_iv = (case iv of Some v \<Rightarrow> if 16 \<le> length v then take 16 v else replicate 16 0
                        | None \<Rightarrow> replicate 16 0)\<rparr>)"

definition xor_block :: "u8 list \<Rightarrow> u8 list \<Rightarrow> u8 list" where
  "xor_block a b = map2 (XOR) a b"

definition aes_ciphertext_len :: "u32 \<Rightarrow> u32" where
  "aes_ciphertext_len n = (n div 16 + 1) * 16"

text \<open>
  The final block of the ECB branch: \<open>r\<close> is the length of the incomplete block. The first copy
  runs over the end of \<open>pad_buf\<close> when \<open>r\<close> exceeds eight, and the third statement reads
  \<open>16 - r\<close> bytes of the input from its start.
\<close>

definition ecb_pad_buf :: "u8 list \<Rightarrow> u8 list option" where
  "ecb_pad_buf inp =
     (let r = length inp mod 16;
          pad_val = 16 - r
      in if 16 < r + r \<or> length inp < pad_val then None
         else Some (replicate r 0 @ replicate pad_val (of_nat pad_val)))"

function ecb_blocks :: "(u8 list \<Rightarrow> u8 list) \<Rightarrow> u8 list \<Rightarrow> u8 list" where
  "ecb_blocks f inp =
     (if 16 \<le> length inp then f (take 16 inp) @ ecb_blocks f (drop 16 inp) else [])"
  by pat_completeness auto
termination by (relation "measure (\<lambda>(f, xs). length xs)") auto

function cbc_encrypt :: "(u8 list \<Rightarrow> u8 list) \<Rightarrow> u8 list \<Rightarrow> u8 list \<Rightarrow> u8 list" where
  "cbc_encrypt e prev inp =
     (if 16 \<le> length inp
      then let c = e (xor_block (take 16 inp) prev) in c @ cbc_encrypt e c (drop 16 inp)
      else let pad_val = 16 - length inp
           in e (xor_block (inp @ replicate pad_val (of_nat pad_val)) prev))"
  by pat_completeness auto
termination by (relation "measure (\<lambda>(e, p, xs). length xs)") auto

text \<open>\<open>for (i = 15; i >= 0; i--) if (++counter[i]) break;\<close> on the reversed counter.\<close>

primrec counter_inc_rev :: "u8 list \<Rightarrow> u8 list" where
  "counter_inc_rev [] = []"
| "counter_inc_rev (x # xs) = (if x + 1 \<noteq> 0 then (x + 1) # xs else 0 # counter_inc_rev xs)"

definition counter_inc :: "u8 list \<Rightarrow> u8 list" where
  "counter_inc c = rev (counter_inc_rev (rev c))"

function ctr_crypt :: "(u8 list \<Rightarrow> u8 list) \<Rightarrow> u8 list \<Rightarrow> u8 list \<Rightarrow> u8 list" where
  "ctr_crypt e counter inp =
     (if inp = [] then []
      else map2 (XOR) (take 16 inp) (take (length (take 16 inp)) (e counter)) @
           ctr_crypt e (counter_inc counter) (drop 16 inp))"
  by pat_completeness auto
termination by (relation "measure (\<lambda>(e, c, xs). length xs)") auto

declare ecb_blocks.simps [simp del] cbc_encrypt.simps [simp del] ctr_crypt.simps [simp del]

text \<open>
  The result is the return value with the bytes written to \<open>out\<close>. For inputs within sixteen
  bytes of \<open>2 ^ 32\<close> the block loop of ECB and CBC wraps its offset and leaves the buffers.
\<close>

definition aes_encrypt :: "aes_ctx \<Rightarrow> u8 list \<Rightarrow> u32 \<Rightarrow> (u32 \<times> u8 list) option" where
  "aes_encrypt ctx inp out_max =
     (let total = aes_ciphertext_len (of_nat (length inp));
          e = aes_block_encrypt (a_rk ctx) (a_nr ctx)
      in if out_max < total then Some (0, [])
         else case a_mode ctx of
           MODE_ECB \<Rightarrow>
             (if 2 ^ 32 - 16 \<le> length inp then None
              else case ecb_pad_buf inp of None \<Rightarrow> None
                   | Some pad_buf \<Rightarrow> Some (total, ecb_blocks e inp @ e pad_buf))
         | MODE_CBC \<Rightarrow>
             (if 2 ^ 32 - 16 \<le> length inp then None
              else Some (total, cbc_encrypt e (a_iv ctx) inp))
         | MODE_CTR \<Rightarrow> Some (of_nat (length inp), ctr_crypt e (a_iv ctx) inp))"

function cbc_decrypt :: "(u8 list \<Rightarrow> u8 list) \<Rightarrow> u8 list \<Rightarrow> u8 list \<Rightarrow> u8 list" where
  "cbc_decrypt d prev inp =
     (if 16 \<le> length inp
      then xor_block (d (take 16 inp)) prev @ cbc_decrypt d (take 16 inp) (drop 16 inp)
      else [])"
  by pat_completeness auto
termination by (relation "measure (\<lambda>(d, p, xs). length xs)") auto

declare cbc_decrypt.simps [simp del]

definition unpad :: "u8 list \<Rightarrow> u8 list" where
  "unpad out =
     (let off = length out; pad_val = last out
      in if 0 < off \<and> 0 < pad_val \<and> pad_val \<le> 16 then take (off - unat pad_val) out else out)"

definition aes_decrypt :: "aes_ctx \<Rightarrow> u8 list \<Rightarrow> u8 list" where
  "aes_decrypt ctx inp =
     (if inp = [] \<or> length inp mod 16 \<noteq> 0 then []
      else case a_mode ctx of
        MODE_ECB \<Rightarrow> unpad (ecb_blocks (aes_block_decrypt (a_rk ctx) (a_nr ctx)) inp)
      | MODE_CBC \<Rightarrow> unpad (cbc_decrypt (aes_block_decrypt (a_rk ctx) (a_nr ctx)) (a_iv ctx) inp)
      | MODE_CTR \<Rightarrow> ctr_crypt (aes_block_encrypt (a_rk ctx) (a_nr ctx)) (a_iv ctx) inp)"


section \<open>The inverse steps\<close>

lemma xor_cancel [simp]: "x XOR (x XOR y) = (y :: u8)" "(x XOR y) XOR y = (x :: u8)"
  by (simp_all add: xor.assoc flip: xor.assoc [of x x])

lemma map2_xor_twice: "length k = length s \<Longrightarrow> map2 (XOR) (map2 (XOR) s k) k = (s :: u8 list)"
  by (induction s k rule: list_induct2') simp_all

lemma length_round_bytes [simp]: "length (round_bytes rk r) = 16"
  by (simp add: round_bytes_def Let_def length_concat comp_def sum_list_triv)

lemma add_round_key_length [simp]: "length s = 16 \<Longrightarrow> length (add_round_key s rk r) = 16"
  by (simp add: add_round_key_def)

lemma add_round_key_twice: "length s = 16 \<Longrightarrow> add_round_key (add_round_key s rk r) rk r = s"
  by (simp add: add_round_key_def map2_xor_twice)

lemma list16E:
  assumes "length s = 16"
  obtains s0 s1 s2 s3 s4 s5 s6 s7 s8 s9 s10 s11 s12 s13 s14 s15
  where "s = [s0, s1, s2, s3, s4, s5, s6, s7, s8, s9, s10, s11, s12, s13, s14, s15]"
  using assms by (auto simp: numeral_eq_Suc length_Suc_conv)

lemma shift_rows_inverse: "length s = 16 \<Longrightarrow> shift_rows_inv (shift_rows s) = s"
  by (erule list16E) simp

lemma shift_rows_length [simp]: "length (shift_rows s) = length s"
  by (cases s rule: shift_rows.cases) simp_all

lemma sbox_inverse_table: "map (\<lambda>x. inv_sbox ! unat x) sbox = map of_nat [0..<256]"
  by (simp add: sbox_def inv_sbox_def upt_rec)


lemma length_sbox: "length sbox = 256"
  by (simp add: sbox_def)

lemma sbox_inverse: "inv_sbox ! unat (sbox ! unat x) = x"
proof -
  have x: "unat x < 256"
    using unsigned_less [of x, where ?'a = nat] by simp
  have "map (\<lambda>x. inv_sbox ! unat x) sbox ! unat x = map of_nat [0..<256] ! unat x"
    by (simp only: sbox_inverse_table)
  then show ?thesis
    using x by (simp add: length_sbox)
qed

lemma sub_bytes_inverse: "sub_bytes_inv (sub_bytes s) = s"
  by (simp add: sub_bytes_def sub_bytes_inv_def comp_def sbox_inverse)

lemma sub_bytes_length [simp]: "length (sub_bytes s) = length s"
  by (simp add: sub_bytes_def)

lemma xtime_bit: "xtime x = push_bit 1 x XOR (if bit x 7 then 0x1b else 0)"
proof -
  have "drop_bit 7 x AND 1 = (if bit x 7 then 1 else 0)"
    by (rule bit_word_eqI) (auto simp: bit_simps intro!: Nat.gr0I)
  then show ?thesis
    by (simp add: xtime_def)
qed

lemma xtime_xor: "xtime (x XOR y) = xtime x XOR xtime y"
  by (simp only: xtime_bit push_bit_xor bit_xor_iff)
     (simp add: xor.assoc xor.left_commute xor.commute)

lemma xmul_loop_step:
  "xmul_loop (Suc n) a b p = xmul_loop n (xtime a) (drop_bit 1 b) (if b AND 1 \<noteq> 0 then p XOR a else p)"
  by simp

lemma xmul_unfold: "xmul a b = xmul_loop (Suc (Suc (Suc (Suc (Suc (Suc (Suc (Suc 0)))))))) a b 0"
  by (simp only: xmul_def eval_nat_numeral BitM.simps)

lemma xmul_const:
  "xmul a 0x0e = xtime a XOR xtime (xtime a) XOR xtime (xtime (xtime a))"
  "xmul a 0x0b = a XOR xtime a XOR xtime (xtime (xtime a))"
  "xmul a 0x0d = a XOR xtime (xtime a) XOR xtime (xtime (xtime a))"
  "xmul a 0x09 = a XOR xtime (xtime (xtime a))"
  unfolding xmul_unfold by (simp_all add: xor.assoc)

lemma mix_column_inverse:
  "mix_column (a0, a1, a2, a3) = [b0, b1, b2, b3] \<Longrightarrow> mix_column_inv (b0, b1, b2, b3) = [a0, a1, a2, a3]"
  by (simp add: mix_column_def mix_column_inv_def Let_def, elim conjE, hypsubst)
     (simp add: xmul_const xtime_xor xor.assoc xor.left_commute xor.commute)

lemma columns16:
  "columns f [s0, s1, s2, s3, s4, s5, s6, s7, s8, s9, s10, s11, s12, s13, s14, s15] =
   f (s0, s1, s2, s3) @ f (s4, s5, s6, s7) @ f (s8, s9, s10, s11) @ f (s12, s13, s14, s15)"
  by (simp add: columns_def upt_rec)

lemma mix_column4: obtains b0 b1 b2 b3 where "mix_column t = [b0, b1, b2, b3]"
  by (cases t) (simp add: mix_column_def Let_def)

lemma mix_columns_inverse:
  assumes "length s = 16"
  shows "mix_columns_inv (mix_columns s) = s" "length (mix_columns s) = 16"
proof -
  obtain s0 s1 s2 s3 s4 s5 s6 s7 s8 s9 s10 s11 s12 s13 s14 s15 where
    s: "s = [s0, s1, s2, s3, s4, s5, s6, s7, s8, s9, s10, s11, s12, s13, s14, s15]"
    using assms by (rule list16E)
  obtain b0 b1 b2 b3 where b: "mix_column (s0, s1, s2, s3) = [b0, b1, b2, b3]"
    by (rule mix_column4)
  obtain b4 b5 b6 b7 where b': "mix_column (s4, s5, s6, s7) = [b4, b5, b6, b7]"
    by (rule mix_column4)
  obtain b8 b9 b10 b11 where b'': "mix_column (s8, s9, s10, s11) = [b8, b9, b10, b11]"
    by (rule mix_column4)
  obtain b12 b13 b14 b15 where b''': "mix_column (s12, s13, s14, s15) = [b12, b13, b14, b15]"
    by (rule mix_column4)
  have m: "mix_columns s = [b0, b1, b2, b3, b4, b5, b6, b7, b8, b9, b10, b11, b12, b13, b14, b15]"
    by (simp add: s mix_columns_def columns16 b b' b'' b''')
  show "mix_columns_inv (mix_columns s) = s"
    unfolding m mix_columns_inv_def columns16
    by (simp add: s mix_column_inverse [OF b] mix_column_inverse [OF b'] mix_column_inverse [OF b'']
        mix_column_inverse [OF b'''])
  show "length (mix_columns s) = 16"
    by (simp add: m)
qed

lemmas block_lengths = add_round_key_length shift_rows_length sub_bytes_length mix_columns_inverse(2)

lemma enc_rounds_length: "length s = 16 \<Longrightarrow> length (fold (enc_round rk) is s) = 16"
  by (induction "is" arbitrary: s) (simp_all add: enc_round_def block_lengths)

lemma dec_enc_round:
  "length s = 16 \<Longrightarrow>
   dec_round rk i (shift_rows (sub_bytes (enc_round rk i s))) = shift_rows (sub_bytes s)"
  by (simp add: dec_round_def enc_round_def shift_rows_inverse sub_bytes_inverse add_round_key_twice
      mix_columns_inverse block_lengths)

lemma dec_enc_rounds:
  "length s = 16 \<Longrightarrow>
   fold (dec_round rk) (rev [1..<n]) (shift_rows (sub_bytes (fold (enc_round rk) [1..<n] s))) =
   shift_rows (sub_bytes s)"
proof (induction n)
  case (Suc n)
  then show ?case
    by (cases "1 \<le> n") (simp_all add: dec_enc_round enc_rounds_length)
qed simp

lemma aes_block_inverse:
  assumes "length s = 16"
  shows "length (aes_block_encrypt rk nr s) = 16"
    "aes_block_decrypt rk nr (aes_block_encrypt rk nr s) = s"
proof -
  define x where "x = add_round_key s rk 0"
  have x: "length x = 16"
    using assms by (simp add: x_def block_lengths)
  then show "length (aes_block_encrypt rk nr s) = 16"
    by (simp add: aes_block_encrypt_def x_def [symmetric] enc_rounds_length block_lengths)
  have "aes_block_decrypt rk nr (aes_block_encrypt rk nr s) =
      add_round_key (sub_bytes_inv (shift_rows_inv (shift_rows (sub_bytes x)))) rk 0"
    using x by (simp add: aes_block_encrypt_def aes_block_decrypt_def x_def [symmetric]
        enc_rounds_length add_round_key_twice dec_enc_rounds [unfolded One_nat_def] block_lengths)
  also have "\<dots> = s"
    using x assms
    by (simp add: shift_rows_inverse sub_bytes_inverse x_def add_round_key_twice block_lengths)
  finally show "aes_block_decrypt rk nr (aes_block_encrypt rk nr s) = s" .
qed

section \<open>The modes over a block cipher\<close>

lemma length_counter_inc [simp]: "length (counter_inc c) = length c"
proof -
  have "length (counter_inc_rev xs) = length xs" for xs
    by (induction xs) simp_all
  then show ?thesis
    by (simp add: counter_inc_def)
qed

text \<open>What the modes rely on: a block function that keeps the length and has an inverse.\<close>

locale block_cipher =
  fixes e d :: "u8 list \<Rightarrow> u8 list"
  assumes block_length: "length b = 16 \<Longrightarrow> length (e b) = 16"
    and block_inverse: "length b = 16 \<Longrightarrow> d (e b) = b"
begin

lemma cbc_length:
  "length prev = 16 \<Longrightarrow> length (cbc_encrypt e prev m) = (length m div 16 + 1) * 16"
proof (induction m arbitrary: prev rule: length_induct)
  case (1 m)
  show ?case
  proof (cases "16 \<le> length m")
    case True
    have "length (e (xor_block (take 16 m) prev)) = 16"
      using True 1(2) by (simp add: block_length xor_block_def)
    with 1 True show ?thesis
      by (simp add: cbc_encrypt.simps [of e prev m] Let_def le_div_geq)
  next
    case False
    with 1(2) show ?thesis
      by (simp add: cbc_encrypt.simps [of e prev m] Let_def block_length xor_block_def)
  qed
qed

lemma cbc_inverse:
  "length prev = 16 \<Longrightarrow> cbc_decrypt d prev (cbc_encrypt e prev m) =
     m @ replicate (16 - length m mod 16) (of_nat (16 - length m mod 16))"
proof (induction m arbitrary: prev rule: length_induct)
  case (1 m)
  show ?case
  proof (cases "16 \<le> length m")
    case True
    define c where "c = e (xor_block (take 16 m) prev)"
    have x: "length (xor_block (take 16 m) prev) = 16"
      using True 1(2) by (simp add: xor_block_def)
    then have c: "length c = 16" "d c = xor_block (take 16 m) prev"
      by (simp_all add: c_def block_length block_inverse)
    have "cbc_decrypt d prev (cbc_encrypt e prev m) =
        xor_block (d c) prev @ cbc_decrypt d c (cbc_encrypt e c (drop 16 m))"
      using True c(1) by (simp add: cbc_encrypt.simps [of e prev m] Let_def c_def [symmetric]
          cbc_decrypt.simps [of d prev])
    also have "xor_block (d c) prev = take 16 m"
      using True 1(2) c(2) by (simp add: xor_block_def map2_xor_twice)
    also have "cbc_decrypt d c (cbc_encrypt e c (drop 16 m)) =
        drop 16 m @ replicate (16 - length m mod 16) (of_nat (16 - length m mod 16))"
      using 1(1) True c(1) by (simp add: le_mod_geq)
    finally show ?thesis
      by (simp flip: append_assoc)
  next
    case False
    define b where "b = m @ replicate (16 - length m) (of_nat (16 - length m) :: u8)"
    have b: "length b = 16" "length (xor_block b prev) = 16"
      using False 1(2) by (simp_all add: b_def xor_block_def)
    have "cbc_encrypt e prev m = e (xor_block b prev)"
      using False by (simp add: cbc_encrypt.simps [of e prev m] Let_def b_def)
    moreover have "cbc_decrypt d p [] = []" for p
      by (simp add: cbc_decrypt.simps)
    ultimately have "cbc_decrypt d prev (cbc_encrypt e prev m) = xor_block (xor_block b prev) prev"
      using b by (simp add: cbc_decrypt.simps [of d prev] block_length block_inverse)
    also have "\<dots> = b"
      using b 1(2) by (simp add: xor_block_def map2_xor_twice)
    finally show ?thesis
      using False by (simp add: b_def)
  qed
qed

lemma ecb_inverse:
  "ecb_blocks d (ecb_blocks e m @ rest) = take (16 * (length m div 16)) m @ ecb_blocks d rest"
proof (induction m rule: length_induct)
  case (1 m)
  show ?case
  proof (cases "16 \<le> length m")
    case True
    then have l: "length (e (take 16 m)) = 16" "d (e (take 16 m)) = take 16 m"
      by (simp_all add: block_length block_inverse)
    have "ecb_blocks d (ecb_blocks e m @ rest) =
        take 16 m @ ecb_blocks d (ecb_blocks e (drop 16 m) @ rest)"
      using True l by (simp add: ecb_blocks.simps [of e m]
          ecb_blocks.simps [of d "e (take 16 m) @ _"])
    also have "\<dots> = take 16 m @ take (16 * ((length m - 16) div 16)) (drop 16 m) @ ecb_blocks d rest"
      using 1 True by simp
    also have "\<dots> = take (16 + 16 * ((length m - 16) div 16)) m @ ecb_blocks d rest"
      by (simp add: take_add)
    finally show ?thesis
      using True by (simp add: le_div_geq)
  next
    case False
    then show ?thesis
      by (simp add: ecb_blocks.simps [of e m])
  qed
qed

lemma ecb_length: "length (ecb_blocks e m) = 16 * (length m div 16)"
proof (induction m rule: length_induct)
  case (1 m)
  then show ?case
    by (cases "16 \<le> length m") (simp_all add: ecb_blocks.simps [of e m] block_length le_div_geq)
qed

lemma ctr_length_inverse:
  "length c = 16 \<Longrightarrow>
   length (ctr_crypt e c m) = length m \<and> ctr_crypt e c (ctr_crypt e c m) = m"
proof (induction m arbitrary: c rule: length_induct)
  case (1 m)
  show ?case
  proof (cases "m = []")
    case True
    then show ?thesis
      by (simp add: ctr_crypt.simps)
  next
    case False
    define n where "n = length (take 16 m)"
    define x where "x = map2 (XOR) (take 16 m) (take n (e c))"
    define r where "r = ctr_crypt e (counter_inc c) (drop 16 m)"
    have x: "length x = n" "x \<noteq> []"
      using False block_length [OF 1(2)] by (auto simp: x_def n_def)
    have "length (drop 16 m) < length m"
      using False by simp
    with 1 have r: "length r = length m - 16" "ctr_crypt e (counter_inc c) r = drop 16 m"
      by (simp_all add: r_def length_counter_inc)
    have m: "ctr_crypt e c m = x @ r"
      using False by (simp add: ctr_crypt.simps [of e c m] x_def r_def n_def)
    have t: "take 16 (x @ r) = x" "drop 16 (x @ r) = r"
      using x r by (auto simp: n_def min_def)
    have "ctr_crypt e c (x @ r) = map2 (XOR) x (take n (e c)) @ drop 16 m"
      using x(2) r(2) by (simp add: ctr_crypt.simps [of e c "x @ r"] t x(1) del: take_append drop_append)
    also have "map2 (XOR) x (take n (e c)) = take 16 m"
      using 1(2) by (simp add: x_def map2_xor_twice n_def block_length)
    finally show ?thesis
      using x r by (auto simp: m n_def)
  qed
qed

end

interpretation aes: block_cipher "aes_block_encrypt rk nr" "aes_block_decrypt rk nr" for rk nr
  by unfold_locales (simp_all add: aes_block_inverse)

section \<open>The context\<close>

lemma aes_init_iv:
  "aes_init md key iv = Some ctx \<Longrightarrow> length (a_iv ctx) = 16 \<and> a_mode ctx = md"
  by (auto simp: aes_init_def split: option.splits prod.splits if_splits)

lemma aes_ciphertext_len_value:
  assumes "n < 2 ^ 32 - 16"
  shows "unat (aes_ciphertext_len (of_nat n)) = (n div 16 + 1) * 16"
proof -
  have n: "unat (of_nat n :: u32) = n"
    using assms by (simp add: unat_of_nat take_bit_eq_mod)
  define q where "q = (of_nat n div 16 :: u32)"
  have d: "unat q = n div 16"
    by (simp add: q_def unat_div n)
  have b: "n div 16 + 1 < 2 ^ 28"
    using assms by (auto simp: div_less_iff_less_mult)
  show ?thesis
    using b by (simp add: aes_ciphertext_len_def unat_word_ariths d flip: q_def)
qed

lemma aes_init_accepts:
  "16 \<le> length key \<Longrightarrow> length key \<le> 32 \<Longrightarrow> \<exists>ctx. aes_init md key iv = Some ctx"
  by (auto simp: aes_init_def key_expand_def Let_def)

lemma unpad_append:
  assumes "0 < p" "p \<le> 16"
  shows "unpad (m @ replicate p (of_nat p)) = m"
proof -
  have u: "unat (of_nat p :: u8) = p"
    using assms by (simp add: unat_of_nat take_bit_eq_mod)
  have "0 < (of_nat p :: u8)" "(of_nat p :: u8) \<le> 16"
    using assms by (simp_all add: word_less_nat_alt word_le_nat_alt u)
  then show ?thesis
    using assms by (simp add: unpad_def Let_def last_append u)
qed

text \<open>
  Decrypting a block undoes encrypting it, under every key schedule and number of rounds: the
  inverse S-box, the inverse row shifts, the inverse column mix over GF(256) and the round keys in
  reverse order cancel the rounds. The ciphertext is again a block.
\<close>

theorem aes_block_roundtrip:
  assumes "length b = 16"
  shows "length (aes_block_encrypt rk nr b) = 16 \<and>
         aes_block_decrypt rk nr (aes_block_encrypt rk nr b) = b"
  using assms by (simp add: aes_block_inverse)

theorem aes_block_roundtrip_witness:
  "aes_block_decrypt (replicate 44 7) 10 (aes_block_encrypt (replicate 44 7) 10 (replicate 16 1)) =
   replicate 16 1"
  using aes_block_roundtrip [of "replicate 16 1"] by simp

lemma cbc_message_roundtrip:
  assumes "aes_init MODE_CBC key iv = Some ctx"
    and "length m < 2 ^ 32 - 16"
    and "aes_ciphertext_len (of_nat (length m)) \<le> out_max"
  shows "\<exists>c. aes_encrypt ctx m out_max = Some (aes_ciphertext_len (of_nat (length m)), c) \<and>
             length c = unat (aes_ciphertext_len (of_nat (length m))) \<and>
             aes_decrypt ctx c = m"
proof -
  define c where "c = cbc_encrypt (aes_block_encrypt (a_rk ctx) (a_nr ctx)) (a_iv ctx) m"
  have iv: "length (a_iv ctx) = 16" "a_mode ctx = MODE_CBC"
    using aes_init_iv [OF assms(1)] by simp_all
  have c: "length c = (length m div 16 + 1) * 16"
    using iv by (simp add: c_def aes.cbc_length)
  then have "c \<noteq> []" "length c mod 16 = 0"
    by auto
  then have "aes_decrypt ctx c =
      unpad (cbc_decrypt (aes_block_decrypt (a_rk ctx) (a_nr ctx)) (a_iv ctx) c)"
    by (simp add: aes_decrypt_def iv)
  also have "\<dots> = m"
    unfolding c_def aes.cbc_inverse [OF iv(1)] by (rule unpad_append) simp_all
  finally have "aes_decrypt ctx c = m" .
  moreover have "aes_encrypt ctx m out_max = Some (aes_ciphertext_len (of_nat (length m)), c)"
    using assms(2,3) by (simp add: aes_encrypt_def Let_def iv c_def leD)
  ultimately show ?thesis
    using c assms(2) by (simp add: aes_ciphertext_len_value)
qed

text \<open>
  C14. CBC round trip: for every initialised context in CBC mode and every message that leaves room
  for the padding, encryption succeeds as soon as the caller provides the announced ciphertext
  length, writes exactly that many bytes, and decrypting them returns the message, its length
  included.
\<close>

theorem aes_cbc_roundtrip:
  assumes "aes_init MODE_CBC key iv = Some ctx"
    and "length m < 2 ^ 32 - 16"
    and "aes_ciphertext_len (of_nat (length m)) \<le> out_max"
  shows "\<exists>c. aes_encrypt ctx m out_max = Some (aes_ciphertext_len (of_nat (length m)), c) \<and>
             length c = unat (aes_ciphertext_len (of_nat (length m))) \<and>
             aes_decrypt ctx c = m"
  using assms by (rule cbc_message_roundtrip)

theorem aes_cbc_roundtrip_witness:
  "\<exists>ctx c. aes_init MODE_CBC (replicate 16 3) None = Some ctx \<and>
     aes_encrypt ctx [1, 2, 3] 16 = Some (16, c) \<and> length c = 16 \<and> aes_decrypt ctx c = [1, 2, 3]"
proof -
  obtain ctx where ctx: "aes_init MODE_CBC (replicate 16 3) None = Some ctx"
    using aes_init_accepts [of "replicate 16 3"] by auto
  have "aes_ciphertext_len (of_nat (length [1 :: u8, 2, 3])) = 16"
    by code_simp
  with ctx aes_cbc_roundtrip [OF ctx, of "[1, 2, 3]" 16] show ?thesis
    by auto
qed

text \<open>
  CTR mode encrypts messages of any length byte for byte, but decryption refuses what
  encryption accepts: a message of whole blocks comes back, and for every other length the
  decryption of its own ciphertext returns nothing.
\<close>

theorem aes_ctr_partial_block_refused:
  assumes "aes_init MODE_CTR key iv = Some ctx"
    and "length m < 2 ^ 32"
    and "aes_ciphertext_len (of_nat (length m)) \<le> out_max"
  shows "\<exists>c. aes_encrypt ctx m out_max = Some (of_nat (length m), c) \<and> length c = length m \<and>
             aes_decrypt ctx c = (if length m mod 16 = 0 then m else [])"
proof -
  define c where "c = ctr_crypt (aes_block_encrypt (a_rk ctx) (a_nr ctx)) (a_iv ctx) m"
  have iv: "length (a_iv ctx) = 16" "a_mode ctx = MODE_CTR"
    using aes_init_iv [OF assms(1)] by simp_all
  have c: "length c = length m" "ctr_crypt (aes_block_encrypt (a_rk ctx) (a_nr ctx)) (a_iv ctx) c = m"
    using aes.ctr_length_inverse [OF iv(1)] by (simp_all add: c_def)
  have "aes_decrypt ctx c = (if length m mod 16 = 0 then m else [])"
    using c by (auto simp: aes_decrypt_def iv)
  moreover have "aes_encrypt ctx m out_max = Some (of_nat (length m), c)"
    using assms(3) by (simp add: aes_encrypt_def Let_def iv c_def leD)
  ultimately show ?thesis
    using c by simp
qed

theorem aes_ctr_partial_block_refused_witness:
  "\<exists>ctx c. aes_init MODE_CTR (replicate 16 3) None = Some ctx \<and>
     aes_encrypt ctx [1, 2, 3] 16 = Some (3, c) \<and> aes_decrypt ctx c = []"
proof -
  obtain ctx where ctx: "aes_init MODE_CTR (replicate 16 3) None = Some ctx"
    using aes_init_accepts [of "replicate 16 3"] by auto
  have "aes_ciphertext_len (of_nat (length [1 :: u8, 2, 3])) = 16"
    by code_simp
  with ctx aes_ctr_partial_block_refused [OF ctx, of "[1, 2, 3]" 16] show ?thesis
    by auto
qed

text \<open>
  ECB mode loses the end of every message that is not a whole number of blocks: where the
  padding code stays inside its buffer, decryption returns the whole blocks followed by zero bytes
  in place of the message's last \<open>length m mod 16\<close> bytes.
\<close>

theorem aes_ecb_tail_lost:
  assumes "aes_init MODE_ECB key iv = Some ctx"
    and "length m < 2 ^ 32 - 16" and "16 \<le> length m" and "length m mod 16 \<le> 8"
    and "aes_ciphertext_len (of_nat (length m)) \<le> out_max"
  shows "\<exists>c. aes_encrypt ctx m out_max = Some (aes_ciphertext_len (of_nat (length m)), c) \<and>
             aes_decrypt ctx c =
               take (length m - length m mod 16) m @ replicate (length m mod 16) 0"
proof -
  define r where "r = length m mod 16"
  define b where "b = replicate r 0 @ replicate (16 - r) (of_nat (16 - r) :: u8)"
  define e where "e = aes_block_encrypt (a_rk ctx) (a_nr ctx)"
  define d where "d = aes_block_decrypt (a_rk ctx) (a_nr ctx)"
  define c where "c = ecb_blocks e m @ e b"
  have md: "a_mode ctx = MODE_ECB"
    using aes_init_iv [OF assms(1)] by simp
  have r: "r \<le> 8" "length b = 16" "16 * (length m div 16) = length m - r"
    using assms(4) by (simp_all add: r_def b_def minus_mod_eq_mult_div)
  have eb: "length (e b) = 16" "d (e b) = b"
    using r(2) by (simp_all add: e_def d_def aes_block_inverse)
  have "ecb_pad_buf m = Some b"
    using assms(3) r(1) by (simp add: ecb_pad_buf_def Let_def b_def flip: r_def)
  then have enc: "aes_encrypt ctx m out_max = Some (aes_ciphertext_len (of_nat (length m)), c)"
    using assms(2,5) by (simp add: aes_encrypt_def Let_def md c_def e_def leD)
  have l: "length c = 16 * (length m div 16) + 16"
    by (simp add: c_def eb e_def [symmetric] aes.ecb_length [of "a_rk ctx" "a_nr ctx", folded e_def])
  then have "c \<noteq> []" "length c mod 16 = 0"
    by auto
  then have "aes_decrypt ctx c = unpad (ecb_blocks d c)"
    by (simp add: aes_decrypt_def md d_def)
  also have "ecb_blocks d c = take (length m - r) m @ b"
    using aes.ecb_inverse [of "a_rk ctx" "a_nr ctx", folded e_def d_def] eb
    by (simp add: c_def r(3) ecb_blocks.simps [of d "e b"] ecb_blocks.simps [of d "[]"])
  also have "unpad \<dots> = take (length m - r) m @ replicate r 0"
    using unpad_append [of "16 - r" "take (length m - r) m @ replicate r 0"] r(1)
    by (simp add: b_def)
  finally show ?thesis
    using enc by (simp add: r_def)
qed

theorem aes_ecb_tail_lost_witness:
  "\<exists>ctx c. aes_init MODE_ECB (replicate 16 3) None = Some ctx \<and>
     aes_encrypt ctx (replicate 17 5) 32 = Some (32, c) \<and>
     aes_decrypt ctx c = replicate 16 5 @ [0]"
proof -
  obtain ctx where ctx: "aes_init MODE_ECB (replicate 16 3) None = Some ctx"
    using aes_init_accepts [of "replicate 16 3"] by auto
  have "aes_ciphertext_len (of_nat 17) = 32"
    by code_simp
  with ctx aes_ecb_tail_lost [OF ctx, of "replicate 17 5" 32] show ?thesis
    by auto
qed

end
