(* ===== verification/Crypto_Util.thy ===== *)
theory Crypto_Util
  imports Crypto_Hash Crypto_Aes
begin

text \<open>
  Keys and text encodings of the crypto library: bsd/crypto/crypto_key.cpp and
  bsd/crypto/crypto_util.cpp. Output buffers are the lists of the bytes written, in order; a result
  \<open>None\<close> stands for an access outside the caller's buffers.
\<close>

section \<open>Keys\<close>

record crypto_key =
  k_data :: "u8 list"
  k_len :: u32

definition simple_rng :: "u32 \<Rightarrow> u32" where
  "simple_rng s =
     (let s = s XOR push_bit 13 s;
          s = s XOR drop_bit 17 s;
          s = s XOR push_bit 5 s
      in s)"

definition key_init :: crypto_key where
  "key_init = \<lparr>k_data = replicate 32 0, k_len = 0\<rparr>"

text \<open>\<open>memcpy(k->data, data, len)\<close>: the bytes behind the copied prefix keep their value.\<close>

definition set_prefix :: "u8 list \<Rightarrow> u8 list \<Rightarrow> u8 list" where
  "set_prefix new old = new @ drop (length new) old"

definition key_from_bytes :: "crypto_key \<Rightarrow> u8 list \<Rightarrow> u32 \<Rightarrow> crypto_key option" where
  "key_from_bytes k data len =
     (let len = (if 32 < len then 32 else len)
      in if length data < unat len then None
         else Some (k\<lparr>k_data := set_prefix (take (unat len) data) (k_data k), k_len := len\<rparr>))"

primrec rng_bytes :: "u32 \<Rightarrow> nat \<Rightarrow> u32 \<Rightarrow> u8 list \<times> u32" where
  "rng_bytes i 0 s = ([], s)"
| "rng_bytes i (Suc n) s =
     (let s = simple_rng s; (bs, s') = rng_bytes (i + 1) n s
      in (ucast (s XOR (i * 0x37 + 0xAB)) # bs, s'))"

definition key_generate :: "crypto_key \<Rightarrow> u32 \<Rightarrow> u32 \<Rightarrow> crypto_key \<times> u32" where
  "key_generate k len s =
     (let len = (if 32 < len then 32 else len);
          (bs, s') = rng_bytes 0 (unat len) s
      in (k\<lparr>k_data := set_prefix bs (k_data k), k_len := len\<rparr>, s'))"

definition derive_byte :: "cstr \<Rightarrow> u32 \<Rightarrow> nat \<Rightarrow> u8" where
  "derive_byte password iterations i =
     (let accum = hmac_sha256 password [of_nat (i + 1)];
          accum = hmac_sha256 password accum;
          accum = ((\<lambda>a. map2 (XOR) a (hmac_sha256 password a)) ^^ (unat iterations - 1)) accum
      in foldl (XOR) 0 accum)"

text \<open>The salt is an argument of the routine and is not read.\<close>

definition key_derive :: "crypto_key \<Rightarrow> cstr \<Rightarrow> u8 list \<Rightarrow> u32 \<Rightarrow> u32 \<Rightarrow> crypto_key" where
  "key_derive k password salt key_len iterations =
     (let key_len = (if 32 < key_len then 32 else key_len);
          block = map (derive_byte password iterations) [0..<unat key_len]
      in k\<lparr>k_data := set_prefix block (k_data k), k_len := key_len\<rparr>)"

definition key_verify :: "crypto_key \<Rightarrow> crypto_key \<Rightarrow> bool" where
  "key_verify a b \<longleftrightarrow>
     k_len a = k_len b \<and> take (unat (k_len a)) (k_data a) = take (unat (k_len a)) (k_data b)"

section \<open>Hexadecimal text\<close>

definition hextab :: cstr where
  "hextab = bytes_of ''0123456789abcdef''"

definition hex_byte :: "u8 \<Rightarrow> cstr" where
  "hex_byte b = [hextab ! unat (drop_bit 4 b AND 0x0f), hextab ! unat (b AND 0x0f)]"

text \<open>
  The test \<open>max_bytes * 2 + 1 > hex_max\<close> is made in 32 bits; a limit of zero bytes wraps to the
  largest half. The result is the text without its terminator.
\<close>

definition crypto_bytes_to_hex :: "u8 list \<Rightarrow> u32 \<Rightarrow> cstr option" where
  "crypto_bytes_to_hex data hex_max =
     (let len = of_nat (length data);
          max_bytes = (if hex_max < len * 2 + 1 then (hex_max - 1) div 2 else len)
      in if length data < unat max_bytes \<or> unat hex_max \<le> 2 * unat max_bytes then None
         else Some (concat (map hex_byte (take (unat max_bytes) data))))"

definition key_to_hex :: "crypto_key \<Rightarrow> u32 \<Rightarrow> cstr option" where
  "key_to_hex k hex_max =
     (let max_bytes = (if hex_max < k_len k * 2 + 1 then (hex_max - 1) div 2 else k_len k)
      in if length (k_data k) < unat max_bytes \<or> unat hex_max \<le> 2 * unat max_bytes then None
         else Some (concat (map hex_byte (take (unat max_bytes) (k_data k)))))"

definition hex_digit :: "u8 \<Rightarrow> u8 option" where
  "hex_digit c =
     (if 0x30 \<le> c \<and> c \<le> 0x39 then Some (c - 0x30)
      else if 0x61 \<le> c \<and> c \<le> 0x66 then Some (c - 0x61 + 10)
      else if 0x41 \<le> c \<and> c \<le> 0x46 then Some (c - 0x41 + 10)
      else None)"

text \<open>The loop over pairs of digits: \<open>None\<close> when it meets a character that is no digit.\<close>

fun hex_pairs :: "cstr \<Rightarrow> nat \<Rightarrow> u8 list option" where
  "hex_pairs (h # l # hex) (Suc room) =
     (case (hex_digit h, hex_digit l) of
        (Some hi, Some lo) \<Rightarrow> map_option ((#) (push_bit 4 hi OR lo)) (hex_pairs hex room)
      | _ \<Rightarrow> None)"
| "hex_pairs _ _ = Some []"

text \<open>The returned count; for a nonzero count also the bytes stored.\<close>

definition crypto_hex_to_bytes :: "cstr \<Rightarrow> u32 \<Rightarrow> u8 list" where
  "crypto_hex_to_bytes hex bytes_max =
     (if length hex mod 2 \<noteq> 0 then []
      else case hex_pairs hex (unat bytes_max) of None \<Rightarrow> [] | Some bs \<Rightarrow> bs)"

definition crypto_sha256_hex :: "u8 list \<Rightarrow> cstr option" where
  "crypto_sha256_hex data = crypto_bytes_to_hex (sha256_hash data) 65"

definition crypto_md5_hex :: "u8 list \<Rightarrow> cstr option" where
  "crypto_md5_hex data = crypto_bytes_to_hex (md5_hash data) 33"

definition crypto_print_digest :: "u8 list \<Rightarrow> cstr option" where
  "crypto_print_digest digest = crypto_bytes_to_hex digest 65"

section \<open>One-call encryption\<close>

definition crypto_aes_encrypt ::
  "u8 list \<Rightarrow> u8 list option \<Rightarrow> u8 list \<Rightarrow> u32 \<Rightarrow> (u32 \<times> u8 list) option" where
  "crypto_aes_encrypt key iv inp out_max =
     (case aes_init MODE_CBC key iv of None \<Rightarrow> None | Some ctx \<Rightarrow> aes_encrypt ctx inp out_max)"

definition crypto_aes_decrypt :: "u8 list \<Rightarrow> u8 list option \<Rightarrow> u8 list \<Rightarrow> u8 list option" where
  "crypto_aes_decrypt key iv inp =
     (case aes_init MODE_CBC key iv of None \<Rightarrow> None | Some ctx \<Rightarrow> Some (aes_decrypt ctx inp))"

section \<open>Base64\<close>

definition b64_table :: cstr where
  "b64_table = bytes_of ''ABCDEFGHIJKLMNOPQRSTUVWXYZabcdefghijklmnopqrstuvwxyz0123456789+/''"

definition b64_triple :: "u8 \<Rightarrow> u8 \<Rightarrow> u8 \<Rightarrow> u32" where
  "b64_triple a b c = push_bit 16 (ucast a) OR push_bit 8 (ucast b) OR ucast c"

definition b64_char :: "u32 \<Rightarrow> nat \<Rightarrow> u8" where
  "b64_char triple sh = b64_table ! unat (drop_bit sh triple AND 0x3F)"

fun b64_encode_loop :: "u8 list \<Rightarrow> cstr" where
  "b64_encode_loop [] = []"
| "b64_encode_loop [a] =
     (let t = b64_triple a 0 0 in [b64_char t 18, b64_char t 12, 0x3D, 0x3D])"
| "b64_encode_loop [a, b] =
     (let t = b64_triple a b 0 in [b64_char t 18, b64_char t 12, b64_char t 6, 0x3D])"
| "b64_encode_loop (a # b # c # data) =
     (let t = b64_triple a b c
      in [b64_char t 18, b64_char t 12, b64_char t 6, b64_char t 0] @ b64_encode_loop data)"

text \<open>
  Inputs whose encoding does not fit into 32 bits of length make \<open>needed\<close> or \<open>j\<close> wrap around.
\<close>

definition crypto_base64_encode :: "u8 list \<Rightarrow> u32 \<Rightarrow> cstr option" where
  "crypto_base64_encode data out_max =
     (let needed = ((of_nat (length data) + 2) div 3) * 4 + 1
      in if 3 * 2 ^ 30 - 2 \<le> length data then None
         else if out_max < needed then Some []
         else Some (b64_encode_loop data))"

definition b64_dec :: "u8 \<Rightarrow> int" where
  "b64_dec c =
     (if 0x41 \<le> c \<and> c \<le> 0x5A then uint (c - 0x41)
      else if 0x61 \<le> c \<and> c \<le> 0x7A then uint (c - 0x61) + 26
      else if 0x30 \<le> c \<and> c \<le> 0x39 then uint (c - 0x30) + 52
      else if c = 0x2B then 62
      else if c = 0x2F then 63
      else - 1)"

text \<open>
  One round of the decoding loop at the text from \<open>in + i\<close> on, with \<open>n = in_len - i\<close> characters
  of it inside the given length and \<open>room = out_max - j\<close>: the bytes stored. The two last tests
  read the text at \<open>i + 2\<close> and \<open>i + 3\<close> whether or not these lie inside the length.
\<close>

definition b64_quad :: "cstr \<Rightarrow> nat \<Rightarrow> nat \<Rightarrow> u8 list option" where
  "b64_quad s n room =
     (let a = b64_dec (s ! 0);
          b = (if 1 < n then b64_dec (s ! 1) else 0);
          c = (if 2 < n \<and> s ! 2 \<noteq> 0x3D then b64_dec (s ! 2) else - 1);
          d = (if 3 < n \<and> s ! 3 \<noteq> 0x3D then b64_dec (s ! 3) else - 1);
          a = (if a < 0 then 0 else a);
          b = (if b < 0 then 0 else b);
          triple = push_bit 18 (of_int a) OR push_bit 12 (of_int b);
          triple = (if 0 \<le> c then triple OR push_bit 6 (of_int c) else triple);
          triple = (if 0 \<le> d then triple OR of_int d else triple) :: u32;
          o1 = (if 0 < room then [ucast (drop_bit 16 triple)] else []);
          g2 = (length o1 < room);
          o2 = (if g2 \<and> s ! 2 \<noteq> 0x3D then o1 @ [ucast (drop_bit 8 triple)] else o1);
          g3 = (length o2 < room);
          o3 = (if g3 \<and> s ! 3 \<noteq> 0x3D then o2 @ [ucast triple] else o2)
      in if length s < n \<or> (g2 \<and> length s < 3) \<or> (g3 \<and> length s < 4) then None else Some o3)"

function b64_decode_loop :: "cstr \<Rightarrow> nat \<Rightarrow> nat \<Rightarrow> u8 list option" where
  "b64_decode_loop s n room =
     (if n = 0 then Some []
      else case b64_quad s n room of None \<Rightarrow> None
           | Some bs \<Rightarrow> map_option ((@) bs) (b64_decode_loop (drop 4 s) (n - 4) (room - length bs)))"
  by pat_completeness auto
termination by (relation "measure (\<lambda>(s, n, room). n)") auto

declare b64_decode_loop.simps [simp del]

definition b64_pad :: "cstr \<Rightarrow> nat \<Rightarrow> u32" where
  "b64_pad s n = (if 2 \<le> n \<and> s ! (n - 1) = 0x3D then 1 else 0) +
                 (if 2 \<le> n \<and> s ! (n - 2) = 0x3D then 1 else 0)"

definition crypto_base64_decode :: "cstr \<Rightarrow> nat \<Rightarrow> u32 \<Rightarrow> u8 list option" where
  "crypto_base64_decode s in_len out_max =
     (if length s < in_len \<or> 2 ^ 32 - 4 < in_len then None
      else let needed = (of_nat in_len div 4) * 3 - b64_pad s in_len
           in if out_max < needed then Some []
              else b64_decode_loop s in_len (unat out_max))"

section \<open>Well-formed keys\<close>

definition key_wf :: "crypto_key \<Rightarrow> bool" where
  "key_wf k \<longleftrightarrow> length (k_data k) = 32 \<and> k_len k \<le> 32"

lemma length_set_prefix: "length new \<le> length old \<Longrightarrow> length (set_prefix new old) = length old"
  by (simp add: set_prefix_def)

lemma take_set_prefix [simp]: "take (length new) (set_prefix new old) = new"
  by (simp add: set_prefix_def)

lemma length_rng_bytes [simp]: "length (fst (rng_bytes i n s)) = n"
  by (induction n arbitrary: i s) (simp_all add: Let_def split: prod.splits, metis fst_conv)

lemma xorshift_zero:
  fixes s :: u32
  assumes "f (0 :: u32) = 0" "(f ^^ k) s = 0" "s XOR f s = 0"
  shows "s = 0"
proof -
  have "f s = s"
    using arg_cong [OF assms(3), of "(XOR) s"] by (simp flip: xor.assoc)
  then have "(f ^^ k) s = s"
    by (induction k) simp_all
  with assms(2) show ?thesis
    by simp
qed

lemma push_bit_funpow: "(push_bit n ^^ k) s = push_bit (k * n) (s :: u32)"
  by (induction k) (simp_all add: add.commute)

lemma drop_bit_funpow: "(drop_bit n ^^ k) s = drop_bit (k * n) (s :: u32)"
  by (induction k) (simp_all add: add.commute)

lemma shifted_out: "push_bit 39 (s :: u32) = 0" "drop_bit 34 s = 0" "push_bit 35 s = 0"
  by (auto intro!: bit_word_eqI simp: bit_simps dest: bit_imp_le_length)

lemma simple_rng_zero: "simple_rng s = 0 \<longleftrightarrow> s = 0"
proof
  define a where "a = s XOR push_bit 13 s"
  define b where "b = a XOR drop_bit 17 a"
  assume "simple_rng s = 0"
  then have "b XOR push_bit 5 b = 0"
    by (simp add: simple_rng_def Let_def a_def b_def)
  then have "b = 0"
    using xorshift_zero [of "push_bit 5" 7 b] by (simp add: push_bit_funpow shifted_out)
  then have "a = 0"
    using xorshift_zero [of "drop_bit 17" 2 a] by (simp add: drop_bit_funpow shifted_out b_def)
  then show "s = 0"
    using xorshift_zero [of "push_bit 13" 3 s] by (simp add: push_bit_funpow shifted_out a_def)
qed (simp add: simple_rng_def)

lemma rng_bytes_nonzero: "s \<noteq> 0 \<Longrightarrow> snd (rng_bytes i n s) \<noteq> 0"
  by (induction n arbitrary: i s) (auto simp: Let_def simple_rng_zero split: prod.splits, metis snd_conv simple_rng_zero)

text \<open>
  Every key operation keeps keys well formed: the buffer stays 32 bytes long and the length
  field never exceeds it, whatever length the caller asks for. A key made from bytes holds exactly
  the requested prefix, and generating keys never drives the generator into its fixed point zero.
\<close>

theorem key_operations_wf:
  assumes "key_wf k"
  shows "key_wf key_init \<and>
    (\<forall>data len k'. key_from_bytes k data len = Some k' \<longrightarrow>
       key_wf k' \<and> take (unat (k_len k')) (k_data k') = take (min (unat len) 32) data) \<and>
    (\<forall>len s k' s'. key_generate k len s = (k', s') \<longrightarrow>
       key_wf k' \<and> unat (k_len k') = min (unat len) 32 \<and> (s \<noteq> 0 \<longrightarrow> s' \<noteq> 0)) \<and>
    (\<forall>password salt len n. key_wf (key_derive k password salt len n) \<and>
       unat (k_len (key_derive k password salt len n)) = min (unat len) 32)"
proof (intro conjI allI impI)
  show "key_wf key_init"
    by (simp add: key_wf_def key_init_def)
next
  fix data len k'
  assume k': "key_from_bytes k data len = Some k'"
  show "key_wf k'"
    using assms k' by (auto simp: key_from_bytes_def Let_def key_wf_def length_set_prefix
        word_le_nat_alt word_less_nat_alt split: if_splits)
  show "take (unat (k_len k')) (k_data k') = take (min (unat len) 32) data"
    using k' by (auto simp: key_from_bytes_def Let_def set_prefix_def word_less_nat_alt
        split: if_splits)
next
  fix len s k' s'
  assume g: "key_generate k len s = (k', s')"
  define l where "l = (if 32 < len then 32 else len)"
  have l: "unat l = min (unat len) 32" "l \<le> 32"
    by (auto simp: l_def word_less_nat_alt word_le_nat_alt)
  have k': "k' = k\<lparr>k_data := set_prefix (fst (rng_bytes 0 (unat l) s)) (k_data k), k_len := l\<rparr>"
    "s' = snd (rng_bytes 0 (unat l) s)"
    using g by (simp_all add: key_generate_def Let_def l_def split_def)
  show "key_wf k'" "unat (k_len k') = min (unat len) 32"
    using assms l by (simp_all add: k' key_wf_def length_set_prefix)
  show "s' \<noteq> 0" if "s \<noteq> 0"
    using that by (simp add: k' rng_bytes_nonzero)
next
  fix password :: cstr and salt len n
  show "key_wf (key_derive k password salt len n)"
    using assms by (auto simp: key_derive_def Let_def key_wf_def length_set_prefix word_less_nat_alt
        word_le_nat_alt)
  show "unat (k_len (key_derive k password salt len n)) = min (unat len) 32"
    by (auto simp: key_derive_def Let_def word_less_nat_alt)
qed

theorem key_operations_wf_witness:
  "key_wf key_init \<and> key_wf (fst (key_generate key_init 100 0x12345678)) \<and>
   snd (key_generate key_init 100 0x12345678) \<noteq> 0"
  using key_operations_wf [of key_init]
  by (cases "key_generate key_init 100 0x12345678") (auto simp: key_wf_def key_init_def)

section \<open>Hexadecimal round trip\<close>

lemma hextab_digits: "\<forall>k < 16. hex_digit (hextab ! k) = Some (of_nat k)"
  by code_simp

lemma hex_digit_nibble:
  assumes "unat x < 16"
  shows "hex_digit (hextab ! unat x) = Some (x :: u8)"
  using hextab_digits assms by simp

lemma nibble_split: "push_bit 4 (drop_bit 4 b AND 0x0f) OR (b AND 0x0f) = (b :: u8)"
proof -
  have m: "(0x0f :: u8) = mask 4"
    by (simp add: mask_eq_exp_minus_1)
  show ?thesis
    unfolding m by (rule bit_word_eqI) (auto simp: bit_simps)
qed

lemma nibble_bound: "unat ((x :: u8) AND 0x0f) < 16"
proof -
  have m: "(0x0f :: u8) = mask 4"
    by (simp add: mask_eq_exp_minus_1)
  show ?thesis
    unfolding m unat_and_mask by simp
qed

lemma hex_pairs_bytes:
  "length bs \<le> room \<Longrightarrow> hex_pairs (concat (map hex_byte bs)) room = Some bs"
proof (induction bs arbitrary: room)
  case (Cons b bs)
  then obtain r where "room = Suc r" "length bs \<le> r"
    by (cases room) auto
  with Cons.IH show ?case
    by (simp add: hex_byte_def hex_digit_nibble nibble_bound nibble_split [simplified])
qed simp

lemma length_hex_bytes [simp]: "length (concat (map hex_byte bs)) = 2 * length bs"
  by (induction bs) (simp_all add: hex_byte_def)

lemma hex_limit:
  assumes "l < 2 ^ 31" "0 < (hex_max :: u32)"
  shows "unat (if hex_max < of_nat l * 2 + 1 then (hex_max - 1) div 2 else of_nat l :: u32) =
         min l ((unat hex_max - 1) div 2)"
proof -
  have l: "unat (of_nat l :: u32) = l"
    using assms(1) by (simp add: unat_of_nat take_bit_eq_mod)
  define w where "w = (of_nat l :: u32)"
  have w: "unat w = l"
    by (simp add: w_def l)
  have t: "unat (w * 2 + 1) = 2 * l + 1"
    using assms(1) by (simp add: unat_word_ariths w)
  have h: "unat (hex_max - 1) = unat hex_max - 1"
    using assms(2) by (simp add: unat_sub word_le_nat_alt word_less_nat_alt)
  have "unat ((hex_max - 1) div 2) = (unat hex_max - 1) div 2"
    by (simp add: unat_div h)
  then show ?thesis
    unfolding w_def [symmetric] using assms(2)
    by (auto simp: word_less_nat_alt t w min_def)
qed

text \<open>
  Writing bytes as hexadecimal text never leaves a nonempty output buffer: the text with its
  terminator fits, it covers as many whole bytes as there is room for, and reading the text back
  gives exactly these bytes.
\<close>

theorem hex_roundtrip:
  assumes "length data < 2 ^ 31" and "0 < hex_max"
  shows "\<exists>hex. crypto_bytes_to_hex data hex_max = Some hex \<and> length hex < unat hex_max \<and>
    crypto_hex_to_bytes hex (of_nat (length data)) = take ((unat hex_max - 1) div 2) data"
proof -
  define n where "n = min (length data) ((unat hex_max - 1) div 2)"
  define hex where "hex = concat (map hex_byte (take n data))"
  have n: "2 * n < unat hex_max" "n \<le> length data" "take n data = take ((unat hex_max - 1) div 2) data"
    using assms(2) by (auto simp: n_def word_less_nat_alt min_def)
  have "crypto_bytes_to_hex data hex_max = Some hex"
    unfolding crypto_bytes_to_hex_def Let_def hex_limit [OF assms] n_def [symmetric]
    using n(1,2) by (simp add: hex_def)
  moreover have "unat (of_nat (length data) :: u32) = length data"
    using assms(1) by (simp add: unat_of_nat take_bit_eq_mod)
  then have "crypto_hex_to_bytes hex (of_nat (length data)) = take n data"
    using n(2) by (simp add: crypto_hex_to_bytes_def hex_def hex_pairs_bytes)
  moreover have "length hex < unat hex_max"
    using n(1,2) by (simp add: hex_def)
  ultimately show ?thesis
    using n(3) by auto
qed

theorem hex_roundtrip_witness:
  "crypto_hex_to_bytes (the (crypto_bytes_to_hex [0xde, 0xad, 0xbe] 6)) 3 = [0xde, 0xad]"
  using hex_roundtrip [of "[0xde, 0xad, 0xbe]" 6] by auto

section \<open>Base64 round trip\<close>

lemma b64_table_list: "map b64_dec b64_table = map int [0..<64]" "0x3D \<notin> set b64_table"
  by code_simp+

lemma b64_table_codes:
  assumes "k < 64"
  shows "b64_dec (b64_table ! k) = int k \<and> b64_table ! k \<noteq> 0x3D"
proof -
  have l: "length b64_table = 64"
    using arg_cong [OF b64_table_list(1), of length] by simp
  have "map b64_dec b64_table ! k = int k"
    unfolding b64_table_list using assms by simp
  moreover have "b64_table ! k \<in> set b64_table"
    using assms l by simp
  then have "b64_table ! k \<noteq> 0x3D"
    using b64_table_list(2) by metis
  ultimately show ?thesis
    using assms l by simp
qed

lemma sextet: "(x :: u32) AND 0x3F = take_bit 6 x"
  by (simp add: take_bit_eq_mask mask_eq_exp_minus_1)

lemma sextet_bound: "unat (take_bit 6 (x :: u32)) < 64"
  using take_bit_nat_less_exp [of 6 "unat x"] by (simp add: unsigned_take_bit_eq)

lemma b64_char_dec:
  "b64_dec (b64_char t sh) = uint (take_bit 6 (drop_bit sh t))" "b64_char t sh \<noteq> 0x3D"
  using b64_table_codes sextet_bound [of "drop_bit sh t"] by (simp_all add: b64_char_def sextet)

lemma bit_triple:
  "bit (b64_triple a b c) n \<longleftrightarrow>
     (n < 8 \<and> bit c n) \<or> (8 \<le> n \<and> n < 16 \<and> bit b (n - 8)) \<or> (16 \<le> n \<and> n < 24 \<and> bit a (n - 16))"
  by (auto simp: b64_triple_def bit_simps dest: bit_imp_le_length)

lemma triple_bytes:
  "ucast (drop_bit 16 (b64_triple a b c)) = a"
  "ucast (drop_bit 8 (b64_triple a b c)) = b"
  "ucast (b64_triple a b c) = c"
  by (rule bit_word_eqI, auto simp: bit_simps bit_triple)+

lemma triple_tail:
  "take_bit 6 (b64_triple a b 0) = 0"
  "take_bit 6 (drop_bit 6 (b64_triple a 0 0)) = 0"
  by (rule bit_word_eqI, auto simp: bit_simps bit_triple)+

lemma triple_sextets:
  "push_bit 18 (take_bit 6 (drop_bit 18 (b64_triple a b c))) OR
   push_bit 12 (take_bit 6 (drop_bit 12 (b64_triple a b c))) OR
   push_bit 6 (take_bit 6 (drop_bit 6 (b64_triple a b c))) OR
   take_bit 6 (b64_triple a b c) = b64_triple a b c"
  (is "?u = ?t")
proof (rule bit_word_eqI)
  fix n assume "n < LENGTH(32)"
  consider "n < 6" | "6 \<le> n" "n < 12" | "12 \<le> n" "n < 18" | "18 \<le> n" "n < 24" | "24 \<le> n"
    by linarith
  then have "bit ?u n \<longleftrightarrow> n < 24 \<and> bit ?t n"
    using \<open>n < LENGTH(32)\<close> by cases (simp_all add: bit_simps less_diff_conv2)
  also have "\<dots> \<longleftrightarrow> bit ?t n"
    by (auto simp: bit_triple)
  finally show "bit ?u n \<longleftrightarrow> bit ?t n" .
qed

lemma b64_quad_whole:
  assumes "t = b64_triple a b c" "3 \<le> room" "4 \<le> n" "n \<le> 4 + length rest"
  shows "b64_quad ([b64_char t 18, b64_char t 12, b64_char t 6, b64_char t 0] @ rest) n room =
         Some [a, b, c]"
  using assms triple_sextets [of a b c] triple_bytes [of a b c]
  by (simp add: b64_quad_def Let_def b64_char_dec or.assoc del: drop_bit_or)

lemma b64_quad_two:
  assumes "t = b64_triple a b 0" "2 \<le> room" "n = 4"
  shows "b64_quad [b64_char t 18, b64_char t 12, b64_char t 6, 0x3D] n room = Some [a, b]"
  using assms triple_sextets [of a b 0] triple_bytes [of a b 0]
  by (simp add: b64_quad_def Let_def b64_char_dec or.assoc triple_tail del: drop_bit_or)

lemma b64_quad_one:
  assumes "t = b64_triple a 0 0" "1 \<le> room" "n = 4"
  shows "b64_quad [b64_char t 18, b64_char t 12, 0x3D, 0x3D] n room = Some [a]"
  using assms triple_sextets [of a 0 0] triple_bytes [of a 0 0]
  by (simp add: b64_quad_def Let_def b64_char_dec or.assoc triple_tail del: drop_bit_or)

lemma b64_encode_length: "length (b64_encode_loop data) = 4 * ((length data + 2) div 3)"
proof (induction data rule: b64_encode_loop.induct)
  case (4 a b c data)
  have "(length (a # b # c # data) + 2) div 3 = Suc ((length data + 2) div 3)"
    by simp
  with 4 show ?case
    by (simp add: Let_def)
qed (simp_all add: Let_def)

lemma b64_decode_encode:
  "length data \<le> room \<Longrightarrow>
   b64_decode_loop (b64_encode_loop data) (length (b64_encode_loop data)) room = Some data"
proof (induction data arbitrary: room rule: b64_encode_loop.induct)
  case 1
  then show ?case
    by (simp add: b64_decode_loop.simps)
next
  case (2 a)
  then show ?case
    by (simp add: Let_def b64_decode_loop.simps b64_quad_one)
next
  case (3 a b)
  then show ?case
    by (simp add: Let_def b64_decode_loop.simps b64_quad_two)
next
  case (4 a b c data)
  define t where "t = b64_triple a b c"
  define r where "r = b64_encode_loop data"
  define s where "s = [b64_char t 18, b64_char t 12, b64_char t 6, b64_char t 0] @ r"
  have e: "b64_encode_loop (a # b # c # data) = s"
    by (simp add: s_def t_def r_def Let_def)
  have s: "length s = 4 + length r" "drop 4 s = r"
    by (simp_all add: s_def)
  have q: "b64_quad s (4 + length r) room = Some [a, b, c]"
    unfolding s_def by (rule b64_quad_whole) (use 4(2) t_def in simp_all)
  have "b64_decode_loop r (length r) (room - 3) = Some data"
    using 4 by (simp add: r_def t_def)
  then show ?case
    unfolding e by (subst b64_decode_loop.simps) (simp add: q s numeral_3_eq_3)
qed

lemma b64_pad_append:
  assumes "2 \<le> length r" "n = length p + length r"
  shows "b64_pad (p @ r) n = b64_pad r (length r)"
proof -
  have i: "(p @ r) ! (n - 1) = r ! (length r - 1)" "(p @ r) ! (n - 2) = r ! (length r - 2)"
  proof -
    have n: "n - 1 = length p + (length r - 1)" "n - 2 = length p + (length r - 2)"
      using assms by linarith+
    show "(p @ r) ! (n - 1) = r ! (length r - 1)" "(p @ r) ! (n - 2) = r ! (length r - 2)"
      unfolding n by (rule nth_append_length_plus)+
  qed
  show ?thesis
    unfolding b64_pad_def i using assms by simp
qed

lemma b64_pad_encode:
  "unat (b64_pad (b64_encode_loop data) (length (b64_encode_loop data))) + length data =
   3 * ((length data + 2) div 3)"
proof (induction data rule: b64_encode_loop.induct)
  case (4 a b c data)
  define r where "r = b64_encode_loop data"
  define t where "t = b64_triple a b c"
  have "(length (a # b # c # data) + 2) div 3 = Suc ((length data + 2) div 3)"
    by simp
  moreover have "b64_pad ([b64_char t 18, b64_char t 12, b64_char t 6, b64_char t 0] @ r)
        (Suc (Suc (Suc (Suc (length r))))) =
      b64_pad r (length r)"
  proof (cases "r = []")
    case True
    then show ?thesis
      by (simp add: b64_pad_def b64_char_dec)
  next
    case False
    then have "2 \<le> length r"
      by (cases data rule: b64_encode_loop.cases) (simp_all add: r_def Let_def)
    then show ?thesis
      by (rule b64_pad_append) simp
  qed
  ultimately show ?case
    using 4 by (simp add: Let_def r_def t_def)
qed (simp_all add: b64_pad_def Let_def b64_char_dec)

lemma unat_of_nat_u32: "n < 2 ^ 32 \<Longrightarrow> unat (of_nat n :: u32) = n"
  by (simp add: unat_of_nat take_bit_eq_mod)

text \<open>
  Base64 round trip: for every input whose encoding has a 32-bit length, encoding into a
  buffer with room for the text and its terminator writes four characters per started group of
  three bytes, and decoding this text into a buffer with room for the input returns the input,
  padding included. The room both routines ask for is exactly what they use.
\<close>

theorem base64_roundtrip:
  assumes "length data < 3 * 2 ^ 30 - 2"
    and "4 * ((length data + 2) div 3) < unat out_max"
    and "length data \<le> unat room"
  shows "\<exists>s. crypto_base64_encode data out_max = Some s \<and>
             length s = 4 * ((length data + 2) div 3) \<and>
             crypto_base64_decode s (length s) room = Some data"
proof -
  define s where "s = b64_encode_loop data"
  define g where "g = (length data + 2) div 3"
  have g: "g < 2 ^ 30"
    using assms(1) by (auto simp: g_def div_less_iff_less_mult)
  have l: "length s = 4 * g"
    by (simp add: s_def g_def b64_encode_length)
  define w where "w = ((of_nat (length data) + 2) div 3 :: u32)"
  have w: "unat w = g"
  proof -
    have "unat (of_nat (length data) + 2 :: u32) = length data + 2"
      using assms(1) unat_of_nat_u32 [of "length data + 2"] by (simp add: add.commute)
    then show ?thesis
      by (simp add: w_def g_def unat_div)
  qed
  have n: "unat (w * 4 + 1) = 4 * g + 1"
    using g by (simp add: unat_word_ariths w)
  have enc: "crypto_base64_encode data out_max = Some s"
    using assms(1,2) n by (simp add: crypto_base64_encode_def Let_def w_def [symmetric] s_def
        word_less_nat_alt g_def)
  define v where "v = (of_nat (length s) div 4 :: u32)"
  define p where "p = b64_pad s (length s)"
  have "unat v = g"
    using g unat_of_nat_u32 [of "length s"] by (simp add: v_def unat_div l)
  then have v: "unat (v * 3) = 3 * g"
    using g by (simp add: unat_word_ariths)
  have p: "unat p + length data = 3 * g"
    using b64_pad_encode [of data] by (simp add: s_def g_def p_def)
  then have "p \<le> v * 3"
    unfolding word_le_nat_alt v by linarith
  then have "unat (v * 3 - p) = length data"
    using p v by (simp add: unat_sub)
  then have "\<not> room < v * 3 - p"
    using assms(3) by (simp add: word_less_nat_alt)
  moreover have "\<not> 2 ^ 32 - 4 < length s"
    using g l by simp
  moreover have "b64_decode_loop s (length s) (unat room) = Some data"
    using b64_decode_encode [OF assms(3)] by (simp add: s_def)
  ultimately have "crypto_base64_decode s (length s) room = Some data"
    unfolding crypto_base64_decode_def Let_def v_def [symmetric] p_def [symmetric] by simp
  then show ?thesis
    using enc l by (auto simp: g_def)
qed

theorem base64_roundtrip_witness:
  "\<exists>s. crypto_base64_encode [1, 2, 3, 4] 9 = Some s \<and> length s = 8 \<and>
       crypto_base64_decode s 8 4 = Some [1, 2, 3, 4]"
proof -
  have "length [1, 2, 3, 4 :: u8] = 4"
    by simp
  with base64_roundtrip [of "[1, 2, 3, 4]" 9 4] show ?thesis
    by (simp only: unat_numeral) force
qed

section \<open>Encryption under a derived key\<close>

definition key_bytes :: "crypto_key \<Rightarrow> u8 list" where
  "key_bytes k = take (unat (k_len k)) (k_data k)"

lemma length_derived_key:
  assumes "key_wf k"
  shows "length (key_bytes (key_derive k password salt len n)) = min (unat len) 32"
  using assms by (auto simp: key_bytes_def key_derive_def Let_def key_wf_def set_prefix_def
      word_less_nat_alt)

text \<open>
  Keys derived from one password under two different salts open each other's messages: a
  message of any length encrypted under the one is returned by decryption under the other, so the
  salt adds nothing to the key.
\<close>

theorem derived_key_salt_irrelevant:
  assumes "key_wf k" and "16 \<le> len" and "length m < 2 ^ 32 - 16"
    and "aes_ciphertext_len (of_nat (length m)) \<le> out_max"
  shows "\<exists>c. crypto_aes_encrypt (key_bytes (key_derive k password salt1 len n)) iv m out_max =
               Some (aes_ciphertext_len (of_nat (length m)), c) \<and>
             crypto_aes_decrypt (key_bytes (key_derive k password salt2 len n)) iv c = Some m"
proof -
  have salt: "key_derive k password salt2 len n = key_derive k password salt1 len n"
    by (simp add: key_derive_def)
  define key where "key = key_bytes (key_derive k password salt1 len n)"
  have "16 \<le> length key" "length key \<le> 32"
    using assms(1,2) by (simp_all add: key_def length_derived_key word_le_nat_alt)
  then obtain ctx where ctx: "aes_init MODE_CBC key iv = Some ctx"
    using aes_init_accepts by blast
  show ?thesis
    using cbc_message_roundtrip [OF ctx assms(3,4)]
    by (auto simp: crypto_aes_encrypt_def crypto_aes_decrypt_def salt ctx simp flip: key_def)
qed

theorem derived_key_salt_irrelevant_witness:
  "\<exists>c. crypto_aes_encrypt (key_bytes (key_derive key_init [0x70] [1] 16 2)) None [7] 16 = Some (16, c) \<and>
       crypto_aes_decrypt (key_bytes (key_derive key_init [0x70] [2] 16 2)) None c = Some [7]"
proof -
  have "aes_ciphertext_len (of_nat (length [7 :: u8])) = 16"
    by code_simp
  moreover have "key_wf key_init"
    by (simp add: key_wf_def key_init_def)
  ultimately show ?thesis
    using derived_key_salt_irrelevant [of key_init 16 "[7]" 16 "[0x70]" "[1]" 2 None "[2]"] by simp
qed

end
