(* ===== verification/Bsd_Ramfs.thy ===== *)
theory Bsd_Ramfs
  imports Libkern_String
begin

text \<open>
  The boot file system: the flat file table of bsd/fs/ramfs (class \<open>RamFS\<close> and the C interface of
  compat.cpp) and the unpacking of the initial cpio archive. The table is the list of its live
  entries; \<open>f_data\<close> is the address of the contents in the archive. Entries beyond the list are
  free slots.
\<close>

section \<open>The file table\<close>

record file_entry =
  f_name :: cstr
  f_data :: u64
  f_size :: u32

type_synonym ramfs = "file_entry list"

abbreviation RAMFS_MAX_ENTRIES :: nat where "RAMFS_MAX_ENTRIES \<equiv> 128"
abbreviation RAMFS_MAX_FILES :: nat where "RAMFS_MAX_FILES \<equiv> 32"
abbreviation RAMFS_NAME_MAX :: nat where "RAMFS_NAME_MAX \<equiv> 64"

definition ramfs_reset :: ramfs where
  "ramfs_reset = []"

definition skip_slashes :: "cstr \<Rightarrow> cstr" where
  "skip_slashes = dropWhile (\<lambda>c. c = 0x2F)"

fun skip_dots :: "cstr \<Rightarrow> cstr" where
  "skip_dots (a # b # s) = (if a = 0x2E \<and> b = 0x2F then skip_dots s else a # b # s)"
| "skip_dots s = s"

text \<open>
  The copy into the name field is a \<open>strncpy\<close> of 63 bytes; \<open>None\<close> stands for its overrun on a
  name that does not leave room for the terminator.
\<close>

definition sanitize_name :: "cstr \<Rightarrow> cstr option" where
  "sanitize_name src = strncpy_buf (skip_slashes (skip_dots (skip_slashes src))) (RAMFS_NAME_MAX - 1)"

definition add_entry :: "nat \<Rightarrow> cstr \<Rightarrow> u64 \<Rightarrow> u32 \<Rightarrow> ramfs \<Rightarrow> (int \<times> ramfs) option" where
  "add_entry cap name data sz fs =
     (if cap \<le> length fs then Some (- 1, fs)
      else case sanitize_name name of None \<Rightarrow> None
           | Some n \<Rightarrow> Some (0, fs @ [\<lparr>f_name = n, f_data = data, f_size = sz\<rparr>]))"

definition RamFS_add :: "cstr \<Rightarrow> u64 \<Rightarrow> u32 \<Rightarrow> ramfs \<Rightarrow> (int \<times> ramfs) option" where
  "RamFS_add = add_entry RAMFS_MAX_ENTRIES"

definition RamFS_lookup :: "cstr \<Rightarrow> ramfs \<Rightarrow> file_entry option" where
  "RamFS_lookup path fs = List.find (\<lambda>f. f_name f = skip_slashes path) fs"

primrec remove_first :: "cstr \<Rightarrow> ramfs \<Rightarrow> ramfs option" where
  "remove_first p [] = None"
| "remove_first p (f # fs) =
     (if f_name f = p then Some fs else map_option ((#) f) (remove_first p fs))"

definition RamFS_remove :: "cstr \<Rightarrow> ramfs \<Rightarrow> int \<times> ramfs" where
  "RamFS_remove name fs =
     (case remove_first (skip_slashes name) fs of None \<Rightarrow> (- 1, fs) | Some fs' \<Rightarrow> (0, fs'))"

definition ramfs_add :: "cstr \<Rightarrow> u64 \<Rightarrow> u32 \<Rightarrow> ramfs \<Rightarrow> ramfs option" where
  "ramfs_add name data sz fs = map_option snd (add_entry RAMFS_MAX_FILES name data sz fs)"

definition ramfs_lookup :: "cstr \<Rightarrow> ramfs \<Rightarrow> file_entry option" where
  "ramfs_lookup path fs = List.find (\<lambda>f. f_name f = skip_slashes path) fs"

section \<open>The archive\<close>

text \<open>Characters are signed: a byte from 128 on is sign-extended before it is added.\<close>

definition cpio_digit :: "u8 \<Rightarrow> u32" where
  "cpio_digit c = (if 0x30 \<le> c \<and> c \<le> 0x39 then ucast c - 0x30 else scast (c OR 0x20) - 0x61 + 10)"

definition cpio_hex :: "mem \<Rightarrow> u64 \<Rightarrow> nat \<Rightarrow> u32" where
  "cpio_hex m s n = foldl (\<lambda>v c. v * 16 + cpio_digit c) 0 (load_bytes s n m)"

definition valid_cpio_magic :: "mem \<Rightarrow> u64 \<Rightarrow> bool" where
  "valid_cpio_magic m h \<longleftrightarrow> load_bytes h 6 m = bytes_of ''070701''"

definition is_hex :: "u8 \<Rightarrow> bool" where
  "is_hex c \<longleftrightarrow> (0x30 \<le> c \<and> c \<le> 0x39) \<or> (0x61 \<le> c \<and> c \<le> 0x66) \<or> (0x41 \<le> c \<and> c \<le> 0x46)"

definition valid_hex_field :: "mem \<Rightarrow> u64 \<Rightarrow> nat \<Rightarrow> bool" where
  "valid_hex_field m s n \<longleftrightarrow> list_all is_hex (load_bytes s n m)"

definition valid_cpio_name :: "mem \<Rightarrow> u64 \<Rightarrow> u32 \<Rightarrow> bool" where
  "valid_cpio_name m name namesize \<longleftrightarrow>
     2 \<le> namesize \<and> m (name + ucast (namesize - 1)) = 0 \<and>
     list_all (\<lambda>c. c \<noteq> 0 \<and> c \<noteq> 10 \<and> c \<noteq> 13 \<and> c \<noteq> 9) (load_bytes name (unat namesize - 1) m) \<and>
     sint namesize \<le> int RAMFS_NAME_MAX"

definition cpio_checks :: "mem \<Rightarrow> u64 \<Rightarrow> u32 \<Rightarrow> bool" where
  "cpio_checks m h namesize \<longleftrightarrow>
     valid_cpio_magic m h \<and> valid_hex_field m (h + 6) 104 \<and>
     (2 \<le> namesize \<and> namesize < 64 \<longrightarrow> valid_cpio_name m (h + 110) namesize)"

text \<open>The name as a string: the copied bytes up to their first NUL.\<close>

definition cpio_name :: "mem \<Rightarrow> u64 \<Rightarrow> u32 \<Rightarrow> u32 \<Rightarrow> cstr" where
  "cpio_name m arc offset namesize =
     takeWhile (\<lambda>c. c \<noteq> 0)
       (map (\<lambda>i. m (arc + ucast (offset + 110 + of_nat i))) [0..<unat namesize - 1])"

definition align4 :: "u32 \<Rightarrow> u32" where
  "align4 x = (x + 3) AND NOT 3"

definition hidden_name :: "cstr \<Rightarrow> bool" where
  "hidden_name name \<longleftrightarrow> name = [0x2E] \<or> take 2 name = [0x2E, 0x2F]"

text \<open>
  The unpacking loop, which the class and the C interface share; only the class validates the
  headers (\<open>chk\<close>), and the tables differ in their capacity. The result is the returned code with
  the table. A run that does not return is \<open>None\<close>.
\<close>

partial_function (option) cpio_loop ::
  "bool \<Rightarrow> nat \<Rightarrow> mem \<Rightarrow> u64 \<Rightarrow> u32 \<Rightarrow> u32 \<Rightarrow> ramfs \<Rightarrow> (int \<times> ramfs) option" where
  "cpio_loop chk cap m arc len offset fs =
     (if \<not> offset + 110 \<le> len then Some (0, fs)
      else
        let h = arc + ucast offset;
            filesize = cpio_hex m (h + 54) 8;
            namesize = cpio_hex m (h + 94) 8;
            name = cpio_name m arc offset namesize;
            data_off = align4 (offset + 110 + namesize)
        in if chk \<and> \<not> cpio_checks m h namesize \<or> namesize < 2 \<or> 64 \<le> namesize then Some (- 1, fs)
           else if name = bytes_of ''TRAILER!!!'' then Some (0, fs)
           else if len < data_off + filesize then Some (- 1, fs)
           else if hidden_name name
           then cpio_loop chk cap m arc len (align4 (data_off + filesize)) fs
           else case add_entry cap name (arc + ucast data_off) filesize fs of None \<Rightarrow> None
                | Some (_, fs') \<Rightarrow> cpio_loop chk cap m arc len (align4 (data_off + filesize)) fs')"

definition unpack_cpio :: "mem \<Rightarrow> u64 \<Rightarrow> u32 \<Rightarrow> (int \<times> ramfs) option" where
  "unpack_cpio m archive len = cpio_loop True RAMFS_MAX_ENTRIES m archive len 0 []"

definition cpio_unpack :: "mem \<Rightarrow> u64 \<Rightarrow> u32 \<Rightarrow> (int \<times> ramfs) option" where
  "cpio_unpack m arc len = cpio_loop False RAMFS_MAX_FILES m arc len 0 []"

section \<open>Names\<close>

text \<open>
  The name under which a path is stored: the path is any number of slashes, any number of times \<open>./\<close>, again
  slashes, and the name, which does not begin with a slash. The second group of slashes only occurs behind a
  \<open>./\<close>, and without it the name does not begin with \<open>./\<close>. A path has exactly one such name.
\<close>

abbreviation slash :: u8 where "slash \<equiv> 0x2F"
abbreviation dotslash :: cstr where "dotslash \<equiv> [0x2E, 0x2F]"

definition relative :: "cstr \<Rightarrow> bool" where
  "relative p \<longleftrightarrow> p = [] \<or> hd p \<noteq> slash"

definition stored_as :: "cstr \<Rightarrow> cstr \<Rightarrow> bool" where
  "stored_as path k \<longleftrightarrow> relative k \<and>
     (\<exists>i j l. path = replicate i slash @ concat (replicate j dotslash) @ replicate l slash @ k \<and>
        (j = 0 \<longrightarrow> l = 0) \<and> (l = 0 \<longrightarrow> take 2 k \<noteq> dotslash))"

lemma skip_slashes_relative: "relative p \<Longrightarrow> skip_slashes p = p"
  by (cases p) (simp_all add: skip_slashes_def relative_def)

lemma skip_slashes_replicate: "relative p \<Longrightarrow> skip_slashes (replicate i slash @ p) = p"
  by (induction i) (simp_all add: skip_slashes_relative, simp add: skip_slashes_def)

lemma relative_skip_slashes: "relative (skip_slashes p)"
  by (induction p) (simp_all add: skip_slashes_def relative_def)

lemma skip_slashes_split: "\<exists>i. p = replicate i slash @ skip_slashes p"
proof (induction p)
  case (Cons a p)
  show ?case
  proof (cases "a = slash")
    case True
    from Cons obtain i where "p = replicate i slash @ skip_slashes p" ..
    with True have "a # p = replicate (Suc i) slash @ skip_slashes (a # p)"
      by (simp add: skip_slashes_def)
    then show ?thesis ..
  qed (auto simp: skip_slashes_def intro: exI [of _ 0])
qed (simp add: skip_slashes_def)

lemma skip_dots_id: "take 2 p \<noteq> dotslash \<Longrightarrow> skip_dots p = p"
  by (cases p rule: skip_dots.cases) (auto simp: numeral_2_eq_2)

lemma skip_dots_replicate: "take 2 p \<noteq> dotslash \<Longrightarrow> skip_dots (concat (replicate j dotslash) @ p) = p"
  by (induction j) (simp_all add: skip_dots_id)

lemma skip_dots_split:
  "\<exists>j. p = concat (replicate j dotslash) @ skip_dots p \<and> take 2 (skip_dots p) \<noteq> dotslash"
proof (induction p rule: skip_dots.induct)
  case (1 a b s)
  show ?case
  proof (cases "a = 0x2E \<and> b = slash")
    case True
    from 1 [OF True] obtain j where "s = concat (replicate j dotslash) @ skip_dots s" "take 2 (skip_dots s) \<noteq> dotslash"
      by blast
    with True have "a # b # s = concat (replicate (Suc j) dotslash) @ skip_dots (a # b # s)"
      "take 2 (skip_dots (a # b # s)) \<noteq> dotslash"
      by simp_all
    then show ?thesis by blast
  qed (auto simp: numeral_2_eq_2 intro: exI [of _ 0])
qed (auto intro: exI [of _ 0])

lemma stored_as_skip: "stored_as path k \<longleftrightarrow> skip_slashes (skip_dots (skip_slashes path)) = k"
proof
  assume "stored_as path k"
  then obtain i j l where k: "relative k"
      and p: "path = replicate i slash @ concat (replicate j dotslash) @ replicate l slash @ k"
      "j = 0 \<longrightarrow> l = 0" "l = 0 \<longrightarrow> take 2 k \<noteq> dotslash"
    by (auto simp: stored_as_def)
  have "relative (concat (replicate j dotslash) @ replicate l slash @ k)"
    using p(2) k by (cases j) (simp_all add: relative_def)
  then have "skip_slashes path = concat (replicate j dotslash) @ replicate l slash @ k"
    using p(1) skip_slashes_replicate by simp
  moreover have "take 2 (replicate l slash @ k) \<noteq> dotslash"
    using p(3) by (cases l) (simp_all add: numeral_2_eq_2)
  ultimately show "skip_slashes (skip_dots (skip_slashes path)) = k"
    using skip_slashes_replicate [OF k] skip_dots_replicate by simp
next
  assume k: "skip_slashes (skip_dots (skip_slashes path)) = k"
  obtain i j l where i: "path = replicate i slash @ skip_slashes path"
      and j: "skip_slashes path = concat (replicate j dotslash) @ skip_dots (skip_slashes path)"
        "take 2 (skip_dots (skip_slashes path)) \<noteq> dotslash"
      and l: "skip_dots (skip_slashes path) = replicate l slash @ k"
    using skip_slashes_split [of path] skip_dots_split [of "skip_slashes path"]
      skip_slashes_split [of "skip_dots (skip_slashes path)"] k by metis
  have "l = 0" if "j = 0"
    using that j(1) l relative_skip_slashes [of path] by (cases l) (auto simp: relative_def)
  moreover have "take 2 k \<noteq> dotslash" if "l = 0"
    using that j(2) l by simp
  moreover have "path = replicate i slash @ concat (replicate j dotslash) @ replicate l slash @ k"
    using i j(1) l by simp
  ultimately show "stored_as path k"
    using relative_skip_slashes [of "skip_dots (skip_slashes path)", unfolded k] unfolding stored_as_def by blast
qed

lemma sanitize_stored: "sanitize_name path = Some k \<longleftrightarrow> stored_as path k \<and> length k < RAMFS_NAME_MAX - 1"
  by (auto simp: sanitize_name_def strncpy_buf_def stored_as_skip)

section \<open>The table as a map\<close>

text \<open>
  Adding does not look for an entry of the same name, so a name may occur several times. The table stands
  for a map from names to the list of their contents, oldest first.
\<close>

definition ramfs_files :: "ramfs \<Rightarrow> cstr \<Rightarrow> (u64 \<times> u32) list" where
  "ramfs_files fs k = map (\<lambda>f. (f_data f, f_size f)) (filter (\<lambda>f. f_name f = k) fs)"

definition ramfs_ok :: "nat \<Rightarrow> ramfs \<Rightarrow> bool" where
  "ramfs_ok cap fs \<longleftrightarrow> length fs \<le> cap \<and> (\<forall>f \<in> set fs. length (f_name f) < RAMFS_NAME_MAX - 1)"

lemma find_files:
  "map_option (\<lambda>f. (f_data f, f_size f)) (List.find (\<lambda>f. f_name f = k) fs) =
    (case ramfs_files fs k of [] \<Rightarrow> None | x # _ \<Rightarrow> Some x)"
  by (induction fs) (auto simp: ramfs_files_def)

lemma files_snoc:
  "ramfs_files (fs @ [\<lparr>f_name = k, f_data = d, f_size = s\<rparr>]) = (ramfs_files fs)(k := ramfs_files fs k @ [(d, s)])"
  by (simp add: ramfs_files_def fun_eq_iff)

lemma files_Nil: "ramfs_files fs k = [] \<longleftrightarrow> k \<notin> f_name ` set fs"
  by (auto simp: ramfs_files_def filter_empty_conv)

lemma remove_first_None: "remove_first p fs = None \<longleftrightarrow> p \<notin> f_name ` set fs"
  by (induction fs) auto

lemma remove_first_files:
  "remove_first p fs = Some fs' \<Longrightarrow>
    ramfs_files fs' = (ramfs_files fs)(p := tl (ramfs_files fs p)) \<and> set fs' \<subseteq> set fs \<and> length fs = Suc (length fs')"
proof (induction fs arbitrary: fs')
  case (Cons f fs)
  show ?case
  proof (cases "f_name f = p")
    case True
    with Cons.prems show ?thesis
      by (auto simp: ramfs_files_def fun_eq_iff)
  next
    case False
    then obtain gs where gs: "remove_first p fs = Some gs" "fs' = f # gs"
      using Cons.prems by auto
    with Cons.IH [OF gs(1)] False show ?thesis
      by (auto simp: ramfs_files_def fun_eq_iff)
  qed
qed simp

text \<open>
  What the users of a file table rely on, shared by the class and by the C interface: a new entry
  is appended while there is room, and a lookup returns the first entry of the name.
\<close>

locale file_table =
  fixes cap :: nat
    and add :: "cstr \<Rightarrow> u64 \<Rightarrow> u32 \<Rightarrow> ramfs \<Rightarrow> ramfs option"
    and lookup :: "cstr \<Rightarrow> ramfs \<Rightarrow> file_entry option"
  assumes add_full: "cap \<le> length fs \<Longrightarrow> add n d s fs = Some fs"
    and add_new: "length fs < cap \<Longrightarrow> stored_as n k \<Longrightarrow> length k < RAMFS_NAME_MAX - 1 \<Longrightarrow>
      add n d s fs = Some (fs @ [\<lparr>f_name = k, f_data = d, f_size = s\<rparr>])"
    and lookup_first: "relative k \<Longrightarrow> lookup (replicate i slash @ k) fs = List.find (\<lambda>f. f_name f = k) fs"
begin

lemma lookup_files:
  "relative k \<Longrightarrow> map_option (\<lambda>f. (f_data f, f_size f)) (lookup (replicate i slash @ k) fs) =
    (case ramfs_files fs k of [] \<Rightarrow> None | x # _ \<Rightarrow> Some x)"
  by (simp add: lookup_first find_files)

lemma add_files:
  assumes "ramfs_ok cap fs" "stored_as n k" "length k < RAMFS_NAME_MAX - 1" "add n d s fs = Some fs'"
  shows "ramfs_files fs' =
      (if length fs < cap then (ramfs_files fs)(k := ramfs_files fs k @ [(d, s)]) else ramfs_files fs)"
    and "ramfs_ok cap fs'"
  using assms add_new [OF _ assms(2,3)] add_full
  by (cases "length fs < cap"; force simp: files_snoc ramfs_ok_def)+

lemma add_found:
  assumes "length fs < cap" "ramfs_ok cap fs" "stored_as n k" "length k < RAMFS_NAME_MAX - 1" "add n d s fs = Some fs'"
    and "ramfs_files fs k = []"
  shows "\<exists>f. lookup (replicate i slash @ k) fs' = Some f \<and> f_data f = d \<and> f_size f = s"
  using lookup_files [of k i fs'] add_files(1) [OF assms(2-5)] assms(1,3,6) by (auto simp: stored_as_def)

end

lemma add_entry_new:
  "length fs < cap \<Longrightarrow> stored_as n k \<Longrightarrow> length k < RAMFS_NAME_MAX - 1 \<Longrightarrow>
    add_entry cap n d s fs = Some (0, fs @ [\<lparr>f_name = k, f_data = d, f_size = s\<rparr>])"
  using sanitize_stored [of n k] by (simp add: add_entry_def)

interpretation rfs: file_table RAMFS_MAX_ENTRIES
  "\<lambda>n d s fs. map_option snd (RamFS_add n d s fs)" RamFS_lookup
  by unfold_locales (auto simp: RamFS_add_def add_entry_new RamFS_lookup_def skip_slashes_replicate, simp add: add_entry_def)

interpretation cfs: file_table RAMFS_MAX_FILES ramfs_add ramfs_lookup
  by unfold_locales (auto simp: ramfs_add_def add_entry_new ramfs_lookup_def skip_slashes_replicate, simp add: add_entry_def)

text \<open>
  C24. The file table implements a map from names to lists of contents, oldest first. For every table within its
  bounds, names of at most 62 bytes, and paths with any number of leading slashes: a lookup returns the oldest file
  of the name or nothing; adding a file fails exactly when the table is full and otherwise puts the file last in the
  list of its name, which is the path without leading slashes and \<open>./\<close>; removing takes the oldest file of the name
  away, so that a later one becomes visible, and reports a name that is not there. No operation changes another
  name, and the table stays within its bounds.
\<close>

theorem ramfs_refines_map:
  assumes "ramfs_ok RAMFS_MAX_ENTRIES fs" "relative p" "stored_as name k" "length k < RAMFS_NAME_MAX - 1"
  shows "map_option (\<lambda>f. (f_data f, f_size f)) (RamFS_lookup (replicate i slash @ p) fs) =
      (case ramfs_files fs p of [] \<Rightarrow> None | x # _ \<Rightarrow> Some x) \<and>
    (\<exists>fs'. RamFS_add name d s fs = Some (if length fs < RAMFS_MAX_ENTRIES then 0 else - 1, fs') \<and>
       ramfs_files fs' = (if length fs < RAMFS_MAX_ENTRIES
         then (ramfs_files fs)(k := ramfs_files fs k @ [(d, s)]) else ramfs_files fs) \<and>
       ramfs_ok RAMFS_MAX_ENTRIES fs') \<and>
    (\<exists>fs'. RamFS_remove (replicate i slash @ p) fs = (if ramfs_files fs p = [] then - 1 else 0, fs') \<and>
       ramfs_files fs' = (ramfs_files fs)(p := tl (ramfs_files fs p)) \<and> ramfs_ok RAMFS_MAX_ENTRIES fs')"
proof (intro conjI)
  show "map_option (\<lambda>f. (f_data f, f_size f)) (RamFS_lookup (replicate i slash @ p) fs) =
      (case ramfs_files fs p of [] \<Rightarrow> None | x # _ \<Rightarrow> Some x)"
    by (rule rfs.lookup_files [OF assms(2)])
next
  obtain fs' where a: "RamFS_add name d s fs = Some (if length fs < RAMFS_MAX_ENTRIES then 0 else - 1, fs')"
    using add_entry_new [OF _ assms(3,4)] by (cases "length fs < RAMFS_MAX_ENTRIES") (auto simp: RamFS_add_def add_entry_def)
  then show "\<exists>fs'. RamFS_add name d s fs = Some (if length fs < RAMFS_MAX_ENTRIES then 0 else - 1, fs') \<and>
       ramfs_files fs' = (if length fs < RAMFS_MAX_ENTRIES
         then (ramfs_files fs)(k := ramfs_files fs k @ [(d, s)]) else ramfs_files fs) \<and>
       ramfs_ok RAMFS_MAX_ENTRIES fs'"
    using rfs.add_files [OF assms(1,3,4), of d s fs'] by simp
next
  have p: "skip_slashes (replicate i slash @ p) = p"
    by (rule skip_slashes_replicate [OF assms(2)])
  show "\<exists>fs'. RamFS_remove (replicate i slash @ p) fs = (if ramfs_files fs p = [] then - 1 else 0, fs') \<and>
       ramfs_files fs' = (ramfs_files fs)(p := tl (ramfs_files fs p)) \<and> ramfs_ok RAMFS_MAX_ENTRIES fs'"
  proof (cases "remove_first p fs")
    case None
    then have "ramfs_files fs p = []"
      by (simp add: remove_first_None files_Nil)
    moreover from this have "(ramfs_files fs)(p := tl (ramfs_files fs p)) = ramfs_files fs"
      by (simp add: fun_eq_iff)
    ultimately show ?thesis
      using None assms(1) by (simp add: RamFS_remove_def p)
  next
    case (Some fs')
    have "ramfs_files fs p \<noteq> []"
      using Some remove_first_None [of p fs] by (simp add: files_Nil)
    then show ?thesis
      using Some remove_first_files [OF Some] assms(1) by (auto simp: RamFS_remove_def p ramfs_ok_def)
  qed
qed

theorem ramfs_refines_map_witness:
  "\<exists>fs'. RamFS_add [0x2F, 0x61] 0x1000 5 ramfs_reset = Some (0, fs') \<and> ramfs_files fs' [0x61] = [(0x1000, 5)]"
proof -
  have "ramfs_ok RAMFS_MAX_ENTRIES ramfs_reset" "relative []" "stored_as [0x2F, 0x61] [0x61]" "length [0x61 :: u8] < RAMFS_NAME_MAX - 1"
    by (simp_all add: ramfs_ok_def ramfs_reset_def relative_def stored_as_skip skip_slashes_def)
  from ramfs_refines_map [OF this, of 0 "0x1000" 5] show ?thesis
    by (auto simp: ramfs_reset_def) (simp add: ramfs_files_def)
qed

section \<open>A reference encoder for archives\<close>

definition hex_char :: "nat \<Rightarrow> u8" where
  "hex_char d = (if d < 10 then of_nat (48 + d) else of_nat (87 + d))"

definition hex8 :: "nat \<Rightarrow> u8 list" where
  "hex8 n = map (\<lambda>i. hex_char (n div 16 ^ i mod 16)) [7, 6, 5, 4, 3, 2, 1, 0]"

definition pad4 :: "nat \<Rightarrow> u8 list" where
  "pad4 n = replicate ((4 - n mod 4) mod 4) 0"

text \<open>
  An entry in the \<open>newc\<close> format: magic, thirteen fields of which only the sizes of file and name
  matter to the kernel, the terminated name and the contents, each padded to four bytes.
\<close>

definition cpio_entry :: "cstr \<times> u8 list \<Rightarrow> u8 list" where
  "cpio_entry = (\<lambda>(name, data).
     bytes_of ''070701'' @ concat (replicate 6 (hex8 0)) @ hex8 (length data) @
     concat (replicate 4 (hex8 0)) @ hex8 (length name + 1) @ hex8 0 @
     name @ [0] @ pad4 (length name + 111) @ data @ pad4 (length data))"

definition cpio_archive :: "(cstr \<times> u8 list) list \<Rightarrow> u8 list" where
  "cpio_archive es = concat (map cpio_entry es) @ cpio_entry (bytes_of ''TRAILER!!!'', [])"

definition at :: "mem \<Rightarrow> u64 \<Rightarrow> nat \<Rightarrow> u8 list \<Rightarrow> bool" where
  "at m arc k xs \<longleftrightarrow> load_bytes (arc + of_nat k) (length xs) m = xs"

lemma load_bytes_add:
  "load_bytes a (i + j) m = load_bytes a i m @ load_bytes (a + of_nat i) j m"
proof -
  have "[0..<i + j] = [0..<i] @ map (\<lambda>k. k + i) [0..<j]"
    using upt_add_eq_append [of 0 i j] map_add_upt [of i j] by (simp add: add.commute)
  then show ?thesis
    by (simp add: load_bytes_def ac_simps)
qed

lemma length_load_bytes [simp]: "length (load_bytes a n m) = n"
  by (simp add: load_bytes_def)

lemma at_append: "at m arc k (xs @ ys) \<longleftrightarrow> at m arc k xs \<and> at m arc (k + length xs) ys"
  by (simp add: at_def load_bytes_add add.assoc)

lemma at_Nil [simp]: "at m arc k []"
  by (simp add: at_def load_bytes_def)

lemma hex_char_list: "map (\<lambda>d. cpio_digit (hex_char d)) [0..<16] = map of_nat [0..<16]"
  "list_all (\<lambda>d. is_hex (hex_char d)) [0..<16]"
  by code_simp+

lemma cpio_digit_char: "d < 16 \<Longrightarrow> cpio_digit (hex_char d) = of_nat d"
  using arg_cong [OF hex_char_list(1), of "\<lambda>xs. xs ! d"] by simp

lemma is_hex_char: "d < 16 \<Longrightarrow> is_hex (hex_char d)"
  using hex_char_list(2) by (simp add: list_all_iff)

lemma length_hex8 [simp]: "length (hex8 n) = 8"
  by (simp add: hex8_def)

lemma list_all_hex8 [simp]: "list_all is_hex (hex8 n)"
  by (simp add: hex8_def is_hex_char)

lemma hex_step: "of_nat (n div 16 ^ Suc i) * 16 + of_nat (n div 16 ^ i mod 16) = (of_nat (n div 16 ^ i) :: u32)"
proof -
  have "n div 16 ^ Suc i = n div 16 ^ i div 16"
    by (simp only: power_Suc2 div_mult2_eq)
  then have "n div 16 ^ Suc i * 16 + n div 16 ^ i mod 16 = n div 16 ^ i"
    by (simp only: div_mult_mod_eq)
  then show ?thesis
    by (metis of_nat_add of_nat_mult of_nat_numeral)
qed

lemma foldl_hex:
  "foldl (\<lambda>v c. v * 16 + cpio_digit c) (of_nat (n div 16 ^ k))
     (map (\<lambda>i. hex_char (n div 16 ^ i mod 16)) (rev [0..<k])) = of_nat n"
proof (induction k)
  case (Suc k)
  have "cpio_digit (hex_char (n div 16 ^ k mod 16)) = of_nat (n div 16 ^ k mod 16)"
    by (rule cpio_digit_char) simp
  then show ?case
    using Suc hex_step [of n k] by (simp del: power_Suc of_nat_mod)
qed simp

lemma foldl_hex8:
  assumes "n < 2 ^ 32"
  shows "foldl (\<lambda>v c. v * 16 + cpio_digit c) 0 (hex8 n) = of_nat n"
proof -
  have "n div 16 ^ 8 = 0"
    using assms by simp
  moreover have "rev [0..<8] = [7, 6, 5, 4, 3, 2, 1, 0 :: nat]"
    by (simp add: upt_rec)
  ultimately show ?thesis
    using foldl_hex [of n 8] by (simp add: hex8_def)
qed

lemma unat_align4:
  assumes "unat x + 3 < 2 ^ 32"
  shows "unat (align4 x) = (unat x + 3) div 4 * 4"
proof -
  have m: "(3 :: u32) = mask 2"
    by (simp add: mask_eq_exp_minus_1)
  define y where "y = x + 3"
  have y: "unat y = unat x + 3"
    using assms by (simp add: y_def unat_word_ariths)
  have "align4 x = y AND NOT (mask 2)"
    by (simp only: align4_def y_def m [symmetric])
  then show ?thesis
    by (simp add: unat_and_not_mask minus_mod_eq_div_mult y)
qed

lemma mod4E:
  obtains q where "k = 4 * q" | q where "k = 4 * q + 1" | q where "k = 4 * q + 2" | q where "k = 4 * q + (3 :: nat)"
proof -
  have "k mod 4 < 4"
    by simp
  then consider "k mod 4 = 0" | "k mod 4 = 1" | "k mod 4 = 2" | "k mod 4 = 3"
    by linarith
  then show ?thesis
    using mult_div_mod_eq [of 4 k] that by cases (metis add_0_right)+
qed

lemma length_pad4:
  assumes "n mod 4 = 0"
  shows "(n + k + 3) div 4 * 4 = n + k + length (pad4 k)"
proof -
  obtain p where "n = 4 * p"
    using assms by auto
  then show ?thesis
    by (cases k rule: mod4E; simp add: pad4_def mod_Suc; presburger)
qed

lemma pad4_multiple: "(k + length (pad4 k)) mod 4 = 0"
  by (cases k rule: mod4E) (simp_all add: pad4_def mod_Suc)

lemma mod4_add: "a mod 4 = 0 \<Longrightarrow> b mod 4 = 0 \<Longrightarrow> (a + b) mod 4 = (0 :: nat)"
  by presburger

lemma length_cpio_entry:
  "length (cpio_entry (name, data)) =
     length name + 111 + length (pad4 (length name + 111)) + length data + length (pad4 (length data))"
  by (simp add: cpio_entry_def bytes_of_def length_concat map_replicate sum_list_replicate)

lemma cpio_entry_multiple: "length (cpio_entry (name, data)) mod 4 = 0"
proof -
  have "((length name + 111 + length (pad4 (length name + 111))) +
      (length data + length (pad4 (length data)))) mod 4 = 0"
    by (intro mod4_add pad4_multiple)
  then show ?thesis
    by (simp add: length_cpio_entry add.assoc)
qed

lemma entry_at:
  assumes "at m arc k (cpio_entry (name, data))"
  shows "load_bytes (arc + of_nat k) 6 m = bytes_of ''070701''"
    and "list_all is_hex (load_bytes (arc + of_nat k + 6) 104 m)"
    and "load_bytes (arc + of_nat k + 54) 8 m = hex8 (length data)"
    and "load_bytes (arc + of_nat k + 94) 8 m = hex8 (length name + 1)"
    and "at m arc (k + 110) (name @ [0])"
    and "at m arc (k + (length name + 111) + length (pad4 (length name + 111))) data"
proof -
  define pre where "pre = concat (replicate 6 (hex8 0))"
  define mid where "mid = concat (replicate 4 (hex8 0))"
  define blk where "blk = pre @ hex8 (length data) @ mid @ hex8 (length name + 1) @ hex8 0"
  have len: "length pre = 48" "length mid = 32"
    by (simp_all add: pre_def mid_def length_concat map_replicate sum_list_replicate)
  have hex: "list_all is_hex blk"
    by (simp add: blk_def pre_def mid_def numeral_eq_Suc)
  have l6: "length (bytes_of ''070701'') = 6"
    by (simp add: bytes_of_def)
  have lb: "length blk = 104"
    by (simp add: blk_def len)
  have e: "cpio_entry (name, data) = bytes_of ''070701'' @ blk @
      (name @ [0]) @ pad4 (length name + 111) @ data @ pad4 (length data)"
    by (simp add: cpio_entry_def blk_def pre_def mid_def)
  have a: "at m arc k (bytes_of ''070701'')" "at m arc (k + 6) blk"
    "at m arc (k + 110) (name @ [0])"
    "at m arc (k + 110 + (length name + 1) + length (pad4 (length name + 111))) data"
    using assms unfolding e at_append l6 lb by (simp_all add: add.assoc at_append)
  show "load_bytes (arc + of_nat k) 6 m = bytes_of ''070701''"
    using a(1) l6 by (simp add: at_def)
  show "list_all is_hex (load_bytes (arc + of_nat k + 6) 104 m)"
    using a(2) lb hex by (simp add: at_def add.assoc)
  have b: "at m arc (k + 54) (hex8 (length data))" "at m arc (k + 94) (hex8 (length name + 1))"
    using a(2) unfolding blk_def at_append len by (simp_all add: len add.assoc)
  show "load_bytes (arc + of_nat k + 54) 8 m = hex8 (length data)"
    "load_bytes (arc + of_nat k + 94) 8 m = hex8 (length name + 1)"
    using b by (simp_all add: at_def add.assoc)
  show "at m arc (k + 110) (name @ [0])"
    by (rule a(3))
  show "at m arc (k + (length name + 111) + length (pad4 (length name + 111))) data"
    using a(4) by (simp only: add.assoc [of k 110] add.assoc [of 110]) (simp add: ac_simps)
qed

section \<open>Unpacking an encoded archive\<close>

definition archive_name :: "cstr \<Rightarrow> bool" where
  "archive_name n \<longleftrightarrow> n \<noteq> [] \<and> length n < RAMFS_NAME_MAX - 1 \<and>
     list_all (\<lambda>c. c \<noteq> 0 \<and> c \<noteq> 10 \<and> c \<noteq> 13 \<and> c \<noteq> 9) n"

lemma cpio_name_at:
  assumes "at m arc (k + 110) (name @ [0])" "0 \<notin> set name" "k + 110 + length name < 2 ^ 32"
  shows "cpio_name m arc (of_nat k) (of_nat (length name + 1)) = name"
proof -
  have n: "unat (of_nat (length name + 1) :: u32) - 1 = length name"
    using assms(3) by (simp only: unat_of_nat) (simp add: take_bit_eq_mod)
  have c: "ucast (of_nat k + 110 + of_nat i :: u32) = (of_nat (k + 110) + of_nat i :: u64)"
    if "i < length name" for i
  proof -
    have "unat (of_nat k + 110 + of_nat i :: u32) = unat (of_nat (k + 110 + i) :: u32)"
      by simp
    also have "\<dots> = k + 110 + i"
      using that assms(3) by (simp only: unat_of_nat) (simp add: take_bit_eq_mod)
    finally have "ucast (of_nat k + 110 + of_nat i :: u32) = (of_nat (k + 110 + i) :: u64)"
      by (metis of_nat_unat)
    then show ?thesis
      by simp
  qed
  have "m (arc + ucast (of_nat k + 110 + of_nat i :: u32)) = m (arc + of_nat (k + 110) + of_nat i)"
    if "i < length name" for i
    unfolding c [OF that] by (simp only: add.assoc)
  then have "map (\<lambda>i. m (arc + ucast (of_nat k + 110 + of_nat i :: u32))) [0..<length name] =
      load_bytes (arc + of_nat (k + 110)) (length name) m"
    unfolding load_bytes_def by (intro map_cong) auto
  also have "\<dots> = name"
    using assms(1) [unfolded at_append] by (simp add: at_def)
  finally show ?thesis
    unfolding cpio_name_def n using assms(2) by (simp add: takeWhile_eq_all_conv) metis
qed

lemma unat_of_nat_32: "k < 2 ^ 32 \<Longrightarrow> unat (of_nat k :: u32) = k"
  by (simp add: unat_of_nat take_bit_eq_mod)

lemma ucast_of_nat_32: "k < 2 ^ 32 \<Longrightarrow> ucast (of_nat k :: u32) = (of_nat k :: u64)"
  by (metis of_nat_unat unat_of_nat_32)

lemma align4_of_nat:
  assumes "k mod 4 = 0" "k + n + 3 < 2 ^ 32"
  shows "align4 (of_nat (k + n)) = of_nat (k + n + length (pad4 n))"
proof -
  have "unat (align4 (of_nat (k + n))) = k + n + length (pad4 n)"
    using unat_align4 [of "of_nat (k + n)"] assms length_pad4 [of k n]
    by (simp only: unat_of_nat_32)
  then show ?thesis
    by (metis of_nat_unat ucast_id)
qed

lemma sint_u32_small:
  assumes "unat (w :: u32) < 2 ^ 31"
  shows "sint w = int (unat w)"
proof -
  have "uint w < 2 ^ 31"
    using assms by (simp add: unat_less_iff_uint)
  moreover have "- (2 ^ 31) \<le> uint w"
    by (rule order_trans [OF _ unsigned_greater_eq]) simp
  ultimately show ?thesis
    using signed_take_bit_int_eq_self [of 31 "uint w"] by (simp add: sint_uint)
qed

lemma cpio_checks_at:
  assumes "at m arc k (cpio_entry (name, data))" "archive_name name"
  shows "cpio_checks m (arc + of_nat k) (of_nat (length name + 1))"
proof -
  define w where "w = (of_nat (length name + 1) :: u32)"
  have w: "unat w = length name + 1"
    unfolding w_def by (rule unat_of_nat_32) (use assms(2) in \<open>simp add: archive_name_def\<close>)
  have w1: "ucast (w - 1) = (of_nat (length name) :: u64)"
    by (simp add: w_def) (use assms(2) in \<open>simp add: archive_name_def ucast_of_nat_32\<close>)
  have n: "load_bytes (arc + of_nat k + 110) (length name) m = name"
    "m (arc + of_nat k + 110 + of_nat (length name)) = 0"
    using entry_at(5) [OF assms(1)] by (simp_all add: at_append at_def load_bytes_def add.assoc)
  have "sint w = int (length name + 1)"
    using assms(2) w sint_u32_small [of w] by (simp add: archive_name_def)
  then show ?thesis
    unfolding w_def [symmetric] cpio_checks_def valid_cpio_magic_def valid_hex_field_def valid_cpio_name_def
    using entry_at(1,2) [OF assms(1)] n w w1 assms(2)
    by (auto simp: archive_name_def word_le_nat_alt)
qed

lemma cpio_loop_entry:
  assumes "at m arc k (cpio_entry (name, data))" "archive_name name" "k mod 4 = 0"
    and "k + length (cpio_entry (name, data)) \<le> unat len" "unat len + 3 < 2 ^ 32"
    and "name \<noteq> bytes_of ''TRAILER!!!''"
    and "sanitize_name name = Some n" "\<not> hidden_name name \<longrightarrow> length fs < cap"
  defines "data_off \<equiv> k + (length name + 111) + length (pad4 (length name + 111))"
  shows "cpio_loop chk cap m arc len (of_nat k) fs =
    cpio_loop chk cap m arc len (of_nat (k + length (cpio_entry (name, data))))
      (if hidden_name name then fs
       else fs @ [\<lparr>f_name = n, f_data = arc + of_nat data_off, f_size = of_nat (length data)\<rparr>])"
    and "load_bytes (arc + of_nat data_off) (length data) m = data"
proof -
  show "load_bytes (arc + of_nat data_off) (length data) m = data"
    using entry_at(6) [OF assms(1)] unfolding at_def data_off_def .
  have e: "k + length (cpio_entry (name, data)) = data_off + length data + length (pad4 (length data))"
    by (simp add: data_off_def length_cpio_entry)
  have b: "data_off + length data + length (pad4 (length data)) + 3 < 2 ^ 32"
    using assms(4,5) unfolding e by linarith
  then have b': "k + (length name + 111) + 3 < 2 ^ 32" "length data < 2 ^ 32" "length name + 1 < 2 ^ 32"
    by (simp_all add: data_off_def)
  have h: "cpio_hex m (arc + of_nat k + 54) 8 = of_nat (length data)"
    "cpio_hex m (arc + of_nat k + 94) 8 = of_nat (length name + 1)"
    unfolding cpio_hex_def entry_at(3,4) [OF assms(1)] using b' by (simp_all only: foldl_hex8)
  have nm: "cpio_name m arc (of_nat k) (of_nat (length name + 1)) = name"
    using entry_at(5) [OF assms(1)] b'(1) assms(2)
    by (intro cpio_name_at) (auto simp: archive_name_def list_all_iff)
  have "of_nat k + 110 + of_nat (length name + 1) = (of_nat (k + (length name + 111)) :: u32)"
    by simp
  then have d: "align4 (of_nat k + 110 + of_nat (length name + 1)) = of_nat data_off"
    using align4_of_nat [OF assms(3) b'(1)] by (simp only: data_off_def)
  have dm: "data_off mod 4 = 0"
    using mod4_add [OF assms(3) pad4_multiple [of "length name + 111"]] by (simp add: data_off_def add.assoc)
  have nx: "align4 (of_nat data_off + of_nat (length data)) =
      of_nat (k + length (cpio_entry (name, data)))"
    using align4_of_nat [OF dm, of "length data"] b e by (simp del: length_pad4)
  have lt: "\<not> len < of_nat data_off + of_nat (length data)"
    using assms(4) b unat_of_nat_32 [of "data_off + length data"] e
    by (simp add: word_less_nat_alt)
  have ns: "\<not> (of_nat (length name + 1) :: u32) < 2" "\<not> 64 \<le> (of_nat (length name + 1) :: u32)"
    using assms(2) unat_of_nat_32 [of "length name + 1"]
    by (auto simp: word_less_nat_alt word_le_nat_alt archive_name_def)
  have hd: "of_nat k + 110 \<le> len"
    using assms(4) b unat_of_nat_32 [of "k + 110"] e by (simp add: word_le_nat_alt data_off_def)
  have uc: "ucast (of_nat k :: u32) = (of_nat k :: u64)" "ucast (of_nat data_off :: u32) = (of_nat data_off :: u64)"
  proof -
    have "k < 2 ^ 32" "data_off < 2 ^ 32"
      using b b'(1) by linarith+
    then show "ucast (of_nat k :: u32) = (of_nat k :: u64)"
      "ucast (of_nat data_off :: u32) = (of_nat data_off :: u64)"
      by (simp_all only: ucast_of_nat_32)
  qed
  show "cpio_loop chk cap m arc len (of_nat k) fs =
    cpio_loop chk cap m arc len (of_nat (k + length (cpio_entry (name, data))))
      (if hidden_name name then fs
       else fs @ [\<lparr>f_name = n, f_data = arc + of_nat data_off, f_size = of_nat (length data)\<rparr>])"
    apply (subst cpio_loop.simps)
    unfolding Let_def uc h nm d nx
    using hd ns lt assms(6-8) cpio_checks_at [OF assms(1,2)] uc
    by (cases "hidden_name name") (simp_all add: add_entry_def)
qed

lemma cpio_loop_trailer:
  assumes "at m arc k (cpio_entry (bytes_of ''TRAILER!!!'', []))" "k + 124 \<le> unat len"
  shows "cpio_loop chk cap m arc len (of_nat k) fs = Some (0, fs)"
proof -
  let ?t = "bytes_of ''TRAILER!!!''"
  have t: "length ?t = 10" "0 \<notin> set ?t" "archive_name ?t"
    by (simp_all add: bytes_of_def archive_name_def)
  have b: "k + 124 < 2 ^ 32"
    using assms(2) unsigned_less [of len, where ?'a = nat] by simp
  have h: "cpio_hex m (arc + of_nat k + 94) 8 = of_nat (length ?t + 1)"
    unfolding cpio_hex_def entry_at(4) [OF assms(1)] t by (simp add: foldl_hex8)
  have nm: "cpio_name m arc (of_nat k) (of_nat (length ?t + 1)) = ?t"
    using entry_at(5) [OF assms(1)] t(1,2) b by (intro cpio_name_at) simp_all
  have hd: "of_nat k + 110 \<le> len"
    using assms(2) b unat_of_nat_32 [of "k + 110"] by (simp add: word_le_nat_alt)
  have uc: "ucast (of_nat k :: u32) = (of_nat k :: u64)"
    using b by (intro ucast_of_nat_32) simp
  have ns: "\<not> (of_nat (length ?t + 1) :: u32) < 2" "\<not> 64 \<le> (of_nat (length ?t + 1) :: u32)"
    by (simp_all add: t)
  show ?thesis
    apply (subst cpio_loop.simps)
    unfolding Let_def uc h nm using hd ns cpio_checks_at [OF assms(1) t(3)] by simp
qed

definition unpacked :: "mem \<Rightarrow> cstr \<times> u8 list \<Rightarrow> file_entry \<Rightarrow> bool" where
  "unpacked m = (\<lambda>(n, d) f. stored_as n (f_name f) \<and> unat (f_size f) = length d \<and>
     load_bytes (f_data f) (length d) m = d)"

text \<open>The entries that are unpacked: all but the directory itself and those with a path that begins with \<open>./\<close>.\<close>

definition visible :: "(cstr \<times> u8 list) list \<Rightarrow> (cstr \<times> u8 list) list" where
  "visible es = filter (\<lambda>(n, d). n \<noteq> bytes_of ''.'' \<and> n \<noteq> bytes_of ''./'' @ drop 2 n) es"

lemma hidden_name_iff: "hidden_name n \<longleftrightarrow> n = bytes_of ''.'' \<or> n = bytes_of ''./'' @ drop 2 n"
proof -
  have "take 2 n = [0x2E, 0x2F] \<longleftrightarrow> n = [0x2E, 0x2F] @ drop 2 n"
    by (metis append_eq_conv_conj append_take_drop_id length_Cons list.size(3) numeral_2_eq_2)
  then show ?thesis
    by (simp add: hidden_name_def bytes_of_def)
qed

lemma skip_length: "length (skip_slashes n) \<le> length n" "length (skip_dots n) \<le> length n"
  by (simp_all add: skip_slashes_def length_dropWhile_le) (induction n rule: skip_dots.induct; auto)

lemma archive_name_sanitize:
  assumes "archive_name n"
  obtains k where "sanitize_name n = Some k"
proof -
  have "length (skip_slashes (skip_dots (skip_slashes n))) < RAMFS_NAME_MAX - 1"
    using assms skip_length(1) [of "skip_dots (skip_slashes n)"] skip_length(2) [of "skip_slashes n"]
      skip_length(1) [of n] by (simp add: archive_name_def)
  then show ?thesis
    by (intro that) (simp add: sanitize_name_def strncpy_buf_def)
qed

lemma cpio_loop_entries:
  assumes "at m arc k (concat (map cpio_entry es))" "k mod 4 = 0"
    and "k + length (concat (map cpio_entry es)) \<le> unat len" "unat len + 3 < 2 ^ 32"
    and "\<forall>(n, d) \<in> set es. archive_name n \<and> n \<noteq> bytes_of ''TRAILER!!!''"
  shows "\<exists>gs. list_all2 (unpacked m) (visible es) gs \<and>
    (\<forall>chk cap fs. length fs + length gs \<le> cap \<longrightarrow>
       cpio_loop chk cap m arc len (of_nat k) fs =
       cpio_loop chk cap m arc len (of_nat (k + length (concat (map cpio_entry es)))) (fs @ gs))"
  using assms
proof (induction es arbitrary: k)
  case Nil
  then show ?case
    by (simp add: visible_def)
next
  case (Cons e es)
  obtain name data where e: "e = (name, data)"
    by fastforce
  define c where "c = length (cpio_entry (name, data))"
  define off where "off = k + (length name + 111) + length (pad4 (length name + 111))"
  obtain n where n: "sanitize_name name = Some n" "archive_name name" "name \<noteq> bytes_of ''TRAILER!!!''"
    using Cons.prems(5) archive_name_sanitize e by fastforce
  have a: "at m arc k (cpio_entry (name, data))" "at m arc (k + c) (concat (map cpio_entry es))"
    using Cons.prems(1) by (simp_all add: at_append e c_def)
  have l: "k + c + length (concat (map cpio_entry es)) \<le> unat len" "(k + c) mod 4 = 0"
    using Cons.prems(2,3) cpio_entry_multiple by (auto simp: e c_def intro: mod4_add)
  have dl: "length data < 2 ^ 32"
    using l(1) Cons.prems(4) by (simp add: c_def length_cpio_entry)
  have le: "k + length (cpio_entry (name, data)) \<le> unat len"
    using l(1) by (simp add: c_def)
  obtain gs where gs: "list_all2 (unpacked m) (visible es) gs"
    "\<forall>chk cap fs. length fs + length gs \<le> cap \<longrightarrow>
       cpio_loop chk cap m arc len (of_nat (k + c)) fs =
       cpio_loop chk cap m arc len (of_nat (k + c + length (concat (map cpio_entry es)))) (fs @ gs)"
    using Cons.IH [OF a(2) l(2,1) Cons.prems(4)] Cons.prems(5) by auto
  define g where "g = \<lparr>f_name = n, f_data = arc + of_nat off, f_size = of_nat (length data)\<rparr>"
  define hs where "hs = (if hidden_name name then gs else g # gs)"
  note step = cpio_loop_entry [OF a(1) n(2) Cons.prems(2) le Cons.prems(4) n(3,1), folded off_def g_def c_def]
  have "unpacked m (name, data) g"
    using step(2) [of "[]" 1] n(1) dl by (simp add: unpacked_def g_def unat_of_nat_32 sanitize_stored)
  then have "list_all2 (unpacked m) (visible (e # es)) hs"
    using gs(1) by (simp add: e hs_def visible_def hidden_name_iff)
  moreover have "cpio_loop chk cap m arc len (of_nat k) fs =
      cpio_loop chk cap m arc len (of_nat (k + length (concat (map cpio_entry (e # es))))) (fs @ hs)"
    if "length fs + length hs \<le> cap" for chk cap fs
    using step(1) [of fs cap chk] gs(2) that
    by (auto simp: e hs_def add.assoc simp flip: c_def split: if_splits)
  ultimately show ?case
    by blast
qed

text \<open>
  C7. The kernel unpacks what the reference encoder writes: for archives of fewer than 4 GiB whose paths have 1 to
  62 bytes without NUL, tab, line feed and carriage return and of which at most 32 are to be unpacked, both the
  validating unpacker and the one used at boot return success with the same table. It lists in order all entries
  of the archive except \<open>.\<close> and those whose path begins with \<open>./\<close>, which the kernel skips, each under its path
  without leading slashes (and without what \<open>stored_as\<close> removes behind them), with its size and with a pointer to
  exactly its bytes.
\<close>

theorem cpio_roundtrip:
  assumes "load_bytes arc (length (cpio_archive es)) m = cpio_archive es"
    and "length (cpio_archive es) \<le> unat len" "unat len + 3 < 2 ^ 32"
    and "\<forall>(n, d) \<in> set es. archive_name n \<and> n \<noteq> bytes_of ''TRAILER!!!''"
    and "length (visible es) \<le> RAMFS_MAX_FILES"
  shows "\<exists>fs. cpio_unpack m arc len = Some (0, fs) \<and> unpack_cpio m arc len = Some (0, fs) \<and>
    list_all2 (unpacked m) (visible es) fs"
proof -
  define c where "c = length (concat (map cpio_entry es))"
  have a: "at m arc 0 (concat (map cpio_entry es))"
    "at m arc c (cpio_entry (bytes_of ''TRAILER!!!'', []))"
    using assms(1) at_append [of m arc 0] by (simp_all add: cpio_archive_def at_def c_def)
  have t: "length (cpio_entry (bytes_of ''TRAILER!!!'', [])) = 124"
    by (simp add: length_cpio_entry bytes_of_def pad4_def)
  have l: "c + 124 \<le> unat len"
    using assms(2) t by (simp add: cpio_archive_def c_def)
  obtain gs where gs: "list_all2 (unpacked m) (visible es) gs"
    "\<And>chk cap fs. length fs + length gs \<le> cap \<Longrightarrow> cpio_loop chk cap m arc len (of_nat 0) fs =
       cpio_loop chk cap m arc len (of_nat (0 + c)) (fs @ gs)"
    using cpio_loop_entries [OF a(1) _ _ assms(3,4)] l unfolding c_def by auto
  have "length gs \<le> RAMFS_MAX_FILES"
    using assms(5) list_all2_lengthD [OF gs(1)] by simp
  then show ?thesis
    using gs(1) gs(2) [of "[]" RAMFS_MAX_FILES False] gs(2) [of "[]" RAMFS_MAX_ENTRIES True]
      cpio_loop_trailer [OF a(2) l]
    by (simp add: cpio_unpack_def unpack_cpio_def)
qed

definition mem_of :: "u64 \<Rightarrow> u8 list \<Rightarrow> mem" where
  "mem_of arc xs = (\<lambda>a. if unat (a - arc) < length xs then xs ! unat (a - arc) else 0)"

lemma load_mem_of:
  assumes "length xs < 2 ^ 32"
  shows "load_bytes arc (length xs) (mem_of arc xs) = xs"
proof -
  have "unat (of_nat i :: u64) = i" if "i < length xs" for i
    using that assms by (simp add: unat_of_nat take_bit_eq_mod)
  then show ?thesis
    by (intro nth_equalityI) (simp_all add: load_bytes_def mem_of_def)
qed

theorem cpio_roundtrip_witness:
  "\<exists>fs. cpio_unpack (mem_of 0x100000 (cpio_archive [([0x61], [1, 2, 3]), ([0x2E], [])])) 0x100000 4096 = Some (0, fs) \<and>
     length fs = 1"
proof -
  let ?es = "[([0x61], [1, 2, 3]), ([0x2E], [])] :: (cstr \<times> u8 list) list"
  have l: "length (cpio_archive ?es) = 352"
    by (simp add: cpio_archive_def length_cpio_entry pad4_def bytes_of_def)
  have v: "length (visible ?es) = 1"
    by (simp add: visible_def bytes_of_def)
  have "\<exists>fs. cpio_unpack (mem_of 0x100000 (cpio_archive ?es)) 0x100000 4096 = Some (0, fs) \<and>
      unpack_cpio (mem_of 0x100000 (cpio_archive ?es)) 0x100000 4096 = Some (0, fs) \<and>
      list_all2 (unpacked (mem_of 0x100000 (cpio_archive ?es))) (visible ?es) fs"
    by (rule cpio_roundtrip [OF load_mem_of])
       (use l v in \<open>simp_all add: archive_name_def bytes_of_def\<close>)
  then show ?thesis
    using v by (auto dest: list_all2_lengthD)
qed

section \<open>An archive that is never left\<close>

text \<open>
  A header whose file size is the negative of its data offset: the end of the file wraps to zero,
  which passes the bounds test, and the next header is the first one again.
\<close>

definition looping_header :: "mem \<Rightarrow> u64 \<Rightarrow> u32 \<Rightarrow> bool" where
  "looping_header m arc len \<longleftrightarrow>
     (let namesize = cpio_hex m (arc + 94) 8
      in 110 \<le> len \<and> 2 \<le> namesize \<and> namesize < 64 \<and>
         cpio_name m arc 0 namesize \<noteq> bytes_of ''TRAILER!!!'' \<and>
         cpio_hex m (arc + 54) 8 = - align4 (110 + namesize))"

lemma align4_0: "align4 0 = 0"
  by (simp add: align4_def)

lemma looping_header_not_left:
  assumes "cpio_loop chk cap m arc len offset fs = Some y"
  shows "looping_header m arc len \<longrightarrow>
    (chk \<longrightarrow> cpio_checks m arc (cpio_hex m (arc + 94) 8)) \<longrightarrow> offset \<noteq> 0"
proof (rule cpio_loop.raw_induct [OF _ assms, where P = "\<lambda>chk cap m arc len offset fs y.
    looping_header m arc len \<longrightarrow> (chk \<longrightarrow> cpio_checks m arc (cpio_hex m (arc + 94) 8)) \<longrightarrow> offset \<noteq> 0"],
    intro impI notI)
  fix loop chk cap m arc len offset fs y
  assume IH: "\<And>chk cap m arc len offset fs y. loop chk cap m arc len offset fs = Some y \<Longrightarrow>
      looping_header m arc len \<longrightarrow> (chk \<longrightarrow> cpio_checks m arc (cpio_hex m (arc + 94) 8)) \<longrightarrow> offset \<noteq> 0"
    and body: "(if \<not> offset + 110 \<le> len then Some (0, fs)
      else
        let h = arc + ucast offset;
            filesize = cpio_hex m (h + 54) 8;
            namesize = cpio_hex m (h + 94) 8;
            name = cpio_name m arc offset namesize;
            data_off = align4 (offset + 110 + namesize)
        in if chk \<and> \<not> cpio_checks m h namesize \<or> namesize < 2 \<or> 64 \<le> namesize then Some (- 1, fs)
           else if name = bytes_of ''TRAILER!!!'' then Some (0, fs)
           else if len < data_off + filesize then Some (- 1, fs)
           else if hidden_name name
           then loop chk cap m arc len (align4 (data_off + filesize)) fs
           else case add_entry cap name (arc + ucast data_off) filesize fs of None \<Rightarrow> None
                | Some (_, fs') \<Rightarrow> loop chk cap m arc len (align4 (data_off + filesize)) fs') = Some y"
    and lh: "looping_header m arc len"
    and c: "chk \<longrightarrow> cpio_checks m arc (cpio_hex m (arc + 94) 8)" and z: "offset = 0"
  have "\<exists>fs'. loop chk cap m arc len 0 fs' = Some y"
    using body lh c align4_0
    by (auto simp: z looping_header_def Let_def split: if_splits option.splits prod.splits)
  then show False
    using IH lh c by blast
qed

text \<open>
  C35. Unpacking need not end: if the first header announces a file size that is the negative of
  its data offset, neither unpacker returns, whatever the length of the archive; the header passes
  the bounds test because the sum wraps around, and the scan goes back to the start.
\<close>

theorem cpio_unpack_diverges:
  assumes "looping_header m arc len"
  shows "cpio_unpack m arc len = None \<and>
    (cpio_checks m arc (cpio_hex m (arc + 94) 8) \<longrightarrow> unpack_cpio m arc len = None)"
proof -
  have "cpio_loop False c m arc len 0 [] = None" for c
    using looping_header_not_left [of False c m arc len 0 "[]"] assms
    by (cases "cpio_loop False c m arc len 0 []") auto
  moreover have "cpio_loop True c m arc len 0 [] = None"
    if "cpio_checks m arc (cpio_hex m (arc + 94) 8)" for c
    using looping_header_not_left [of True c m arc len 0 "[]"] assms that
    by (cases "cpio_loop True c m arc len 0 []") auto
  ultimately show ?thesis
    by (simp add: cpio_unpack_def unpack_cpio_def)
qed

definition looping_archive :: "u8 list" where
  "looping_archive = bytes_of ''070701'' @ concat (replicate 6 (hex8 0)) @ hex8 (2 ^ 32 - 112) @
     concat (replicate 4 (hex8 0)) @ hex8 2 @ hex8 0 @ [0x61, 0]"

theorem cpio_unpack_diverges_witness:
  "cpio_unpack (mem_of 0x100000 looping_archive) 0x100000 112 = None"
proof -
  let ?m = "mem_of 0x100000 looping_archive"
  define pre where "pre = bytes_of ''070701'' @ concat (replicate 6 (hex8 0))"
  define mid where "mid = concat (replicate 4 (hex8 0))"
  have len: "length pre = 54" "length mid = 32"
    by (simp_all add: pre_def mid_def bytes_of_def length_concat map_replicate sum_list_replicate)
  have e: "looping_archive = pre @ hex8 (2 ^ 32 - 112) @ mid @ hex8 2 @ hex8 0 @ [0x61, 0]"
    by (simp add: looping_archive_def pre_def mid_def)
  have "at ?m 0x100000 0 looping_archive"
    using load_mem_of [of looping_archive "0x100000"] by (simp add: at_def e len)
  then have a: "load_bytes 0x100036 8 ?m = hex8 (2 ^ 32 - 112)" "load_bytes 0x10005E 8 ?m = hex8 2"
    "load_bytes 0x10006E 2 ?m = [0x61, 0]"
    unfolding e at_append len by (simp_all add: at_def len numeral_2_eq_2)
  from a(3) have "?m 0x10006E = 0x61"
    by (simp add: load_bytes_def numeral_2_eq_2)
  with a(1,2) have "looping_header ?m 0x100000 112"
    by (simp add: looping_header_def cpio_hex_def foldl_hex8 cpio_name_def align4_def bytes_of_def)
  then show ?thesis
    using cpio_unpack_diverges by simp
qed

end
