(* ===== verification/Kern_Elf.thy ===== *)
theory Kern_Elf
  imports Vm_Paging
begin

text \<open>
  The loader of bsd/kern/elf/elf.c on top of the paging code. Page tables are the 64-bit cells of
  \<open>vm_state\<close>; all other memory is bytes at physical addresses (\<open>s_ram\<close>), which the processor
  reaches through the current translation. The kernel runs with write protection off, so an access
  faults exactly when the address is not mapped; a fault is \<open>None\<close>.
\<close>

section \<open>Bytes behind the translation\<close>

record sys =
  s_vm :: vm_state
  s_ram :: "u64 \<Rightarrow> u8"

definition v2p :: "vm_state \<Rightarrow> u64 \<Rightarrow> u64 option" where
  "v2p s va = map_option fst (mmu (vm_cr3 s) s va)"

definition vread :: "u64 \<Rightarrow> sys \<Rightarrow> u8 option" where
  "vread va s = map_option (s_ram s) (v2p (s_vm s) va)"

definition vwrite :: "u64 \<Rightarrow> u8 \<Rightarrow> sys \<Rightarrow> sys option" where
  "vwrite va b s = map_option (\<lambda>pa. s\<lparr>s_ram := (s_ram s)(pa := b)\<rparr>) (v2p (s_vm s) va)"

text \<open>The effect of \<open>memcpy\<close> and \<open>memset\<close> to a mapped destination: the bytes in order.\<close>

primrec vstore :: "u64 \<Rightarrow> u8 list \<Rightarrow> sys \<Rightarrow> sys option" where
  "vstore va [] s = Some s"
| "vstore va (b # bs) s = (case vwrite va b s of None \<Rightarrow> None | Some s' \<Rightarrow> vstore (va + 1) bs s')"

section \<open>Headers\<close>

definition le :: "nat \<Rightarrow> u8 list \<Rightarrow> nat \<Rightarrow> 'a::len word" where
  "le k img off = foldr (\<lambda>b acc. push_bit 8 acc OR ucast b) (take k (drop off img)) 0"

record elf64_ehdr =
  e_ident :: "u8 list"
  e_type :: u16
  e_machine :: u16
  e_version :: u32
  e_entry :: u64
  e_phoff :: u64
  e_shoff :: u64
  e_flags :: u32
  e_ehsize :: u16
  e_phentsize :: u16
  e_phnum :: u16
  e_shentsize :: u16
  e_shnum :: u16
  e_shstrndx :: u16

definition read_ehdr :: "u8 list \<Rightarrow> elf64_ehdr" where
  "read_ehdr img = \<lparr>e_ident = take 16 img, e_type = le 2 img 16, e_machine = le 2 img 18,
     e_version = le 4 img 20, e_entry = le 8 img 24, e_phoff = le 8 img 32, e_shoff = le 8 img 40,
     e_flags = le 4 img 48, e_ehsize = le 2 img 52, e_phentsize = le 2 img 54, e_phnum = le 2 img 56,
     e_shentsize = le 2 img 58, e_shnum = le 2 img 60, e_shstrndx = le 2 img 62\<rparr>"

record elf64_phdr =
  p_type :: u32
  p_flags :: u32
  p_offset :: u64
  p_vaddr :: u64
  p_paddr :: u64
  p_filesz :: u64
  p_memsz :: u64
  p_align :: u64

text \<open>\<open>ph[i]\<close> with \<open>ph = img + e_phoff\<close>; \<open>None\<close> when it does not lie inside the image.\<close>

definition read_phdr :: "u8 list \<Rightarrow> u64 \<Rightarrow> nat \<Rightarrow> elf64_phdr option" where
  "read_phdr img phoff i =
     (let off = unat phoff + 56 * i
      in if length img < off + 56 then None
         else Some \<lparr>p_type = le 4 img off, p_flags = le 4 img (off + 4), p_offset = le 8 img (off + 8),
                    p_vaddr = le 8 img (off + 16), p_paddr = le 8 img (off + 24), p_filesz = le 8 img (off + 32),
                    p_memsz = le 8 img (off + 40), p_align = le 8 img (off + 48)\<rparr>)"

definition elf_valid :: "u8 list \<Rightarrow> bool" where
  "elf_valid img \<longleftrightarrow> 64 \<le> length img \<and>
     (let eh = read_ehdr img
      in take 4 (e_ident eh) = [0x7F, 0x45, 0x4C, 0x46] \<and> e_ident eh ! 4 = 2 \<and> e_ident eh ! 5 = 1 \<and>
         e_type eh = 2 \<and> e_machine eh = 62)"

section \<open>Loading\<close>

fun alloc_pages :: "u32 \<Rightarrow> u64 list \<Rightarrow> vm_state \<Rightarrow> bool \<times> vm_state" where
  "alloc_pages flags [] s = (True, s)"
| "alloc_pages flags (v # vs) s =
     (case paging_alloc_and_map v flags s of (p, s') \<Rightarrow>
        if p = 0 then (False, s') else alloc_pages flags vs s')"

definition seg_pages :: "elf64_phdr \<Rightarrow> u64 list" where
  "seg_pages ph =
     page_range (page_down (p_vaddr ph)) (page_down (p_vaddr ph + p_memsz ph + PAGE_SIZE - 1))"

text \<open>The first loop; a header outside of the image faults.\<close>

fun map_segments :: "u64 \<Rightarrow> elf64_phdr option list \<Rightarrow> vm_state \<Rightarrow> (bool \<times> vm_state) option" where
  "map_segments sz [] s = Some (True, s)"
| "map_segments sz (None # phs) s = None"
| "map_segments sz (Some ph # phs) s =
     (if p_type ph \<noteq> 1 then map_segments sz phs s
      else if sz < p_offset ph + p_filesz ph \<or> p_memsz ph < p_filesz ph then Some (False, s)
      else case alloc_pages 6 (seg_pages ph) s of
             (False, s') \<Rightarrow> Some (False, s')
           | (True, s') \<Rightarrow> map_segments sz phs s')"

text \<open>The lengths of \<open>memcpy\<close> and \<open>memset\<close> are 32 bits wide.\<close>

definition seg_bytes :: "u8 list \<Rightarrow> elf64_phdr \<Rightarrow> u8 list option" where
  "seg_bytes img ph =
     (let n = unat (ucast (p_filesz ph) :: u32); off = unat (p_offset ph)
      in if 0 < n \<and> length img < off + n then None else Some (take n (drop off img)))"

definition copy_segment :: "u8 list \<Rightarrow> elf64_phdr \<Rightarrow> sys \<Rightarrow> sys option" where
  "copy_segment img ph s =
     (case seg_bytes img ph of None \<Rightarrow> None
      | Some bs \<Rightarrow>
          (case vstore (p_vaddr ph) bs s of None \<Rightarrow> None
           | Some s' \<Rightarrow> if p_filesz ph < p_memsz ph
               then vstore (p_vaddr ph + p_filesz ph)
                      (replicate (unat (ucast (p_memsz ph - p_filesz ph) :: u32)) 0) s'
               else Some s'))"

fun copy_segments ::
  "u8 list \<Rightarrow> elf64_phdr option list \<Rightarrow> u64 \<times> u64 \<Rightarrow> sys \<Rightarrow> ((u64 \<times> u64) \<times> sys) option" where
  "copy_segments img [] b s = Some (b, s)"
| "copy_segments img (None # phs) b s = None"
| "copy_segments img (Some ph # phs) (lo, hi) s =
     (if p_type ph \<noteq> 1 then copy_segments img phs (lo, hi) s
      else case copy_segment img ph s of None \<Rightarrow> None
           | Some s' \<Rightarrow> copy_segments img phs
               (if p_vaddr ph < lo then p_vaddr ph else lo,
                if hi < p_vaddr ph + p_memsz ph then p_vaddr ph + p_memsz ph else hi) s')"

datatype elf_result = ElfFail | ElfLoaded u64 u64 u64

definition elf_load :: "u8 list \<Rightarrow> sys \<Rightarrow> (elf_result \<times> sys) option" where
  "elf_load img s =
     (let eh = read_ehdr img;
          sz = of_nat (length img) :: u64;
          phs = map (read_phdr img (e_phoff eh)) [0..<unat (e_phnum eh)]
      in if \<not> elf_valid img \<or> e_ehsize eh < 64 \<or> e_phentsize eh < 56 \<or> e_phnum eh = 0
            \<or> sz < e_phoff eh + ucast (e_phnum eh) * ucast (e_phentsize eh)
         then Some (ElfFail, s)
         else case map_segments sz phs (s_vm s) of None \<Rightarrow> None
              | Some (False, vm) \<Rightarrow> Some (ElfFail, s\<lparr>s_vm := vm\<rparr>)
              | Some (True, vm) \<Rightarrow>
                  (case copy_segments img phs (- 1, 0) (s\<lparr>s_vm := vm\<rparr>) of None \<Rightarrow> None
                   | Some ((lo, hi), s') \<Rightarrow>
                       Some (if lo = - 1 then ElfFail else ElfLoaded (e_entry eh) lo hi, s')))"

definition elf_load_pd :: "u64 \<Rightarrow> u8 list \<Rightarrow> sys \<Rightarrow> (elf_result \<times> sys) option" where
  "elf_load_pd pd_phys img s =
     (if pd_phys = 0 then Some (ElfFail, s)
      else case cli_save (s_vm s) of (eflags, vm1) \<Rightarrow>
        let old_cr3 = paging_cr3 vm1
        in map_option (\<lambda>(r, s'). (r, s'\<lparr>s_vm := if_restore eflags (paging_load_cr3 old_cr3 (s_vm s'))\<rparr>))
             (elf_load img (s\<lparr>s_vm := paging_load_cr3 pd_phys vm1\<rparr>)))"

section \<open>Translation of whole pages\<close>

definition user_page :: "u64 \<Rightarrow> bool" where
  "user_page x \<longleftrightarrow> page_aligned x \<and> unat x < 2 ^ 47"

lemma bit_page_down: "bit (page_down a) n \<longleftrightarrow> 12 \<le> n \<and> bit a n"
proof -
  have "page_down a = a AND NOT (mask 12)"
    by (simp only: page_down_def mask_12 [symmetric]) simp
  then show ?thesis
    by (auto simp: bit_simps dest: bit_imp_le_length)
qed

lemma page_down_hi:
  assumes "page_down a = page_down b" "12 \<le> n"
  shows "bit a n = bit b n"
  using assms bit_page_down [of a n] bit_page_down [of b n] by simp

lemma drop_bit_page:
  assumes "page_down a = page_down b" "12 \<le> n"
  shows "drop_bit n a = drop_bit n b"
  using page_down_hi [OF assms(1)] assms(2) by (intro bit_word_eqI) (simp add: bit_simps)

lemma index_page:
  assumes "page_down a = page_down b"
  shows "PML4_INDEX a = PML4_INDEX b" "PDPT_INDEX a = PDPT_INDEX b" "PD_INDEX a = PD_INDEX b"
    "PT_INDEX a = PT_INDEX b"
  using drop_bit_page [OF assms]
  by (simp_all add: PML4_INDEX_def PDPT_INDEX_def PD_INDEX_def PT_INDEX_def)

definition in_frame :: "u64 \<Rightarrow> u64 \<Rightarrow> u64" where
  "in_frame f va = (f AND NOT (mask 12)) OR (va AND mask 12)"

lemma in_frame_leaf:
  assumes "page_down a = page_down b" "12 \<le> n"
  shows "in_frame ((e AND NOT (mask n)) OR (a AND mask n)) b = (e AND NOT (mask n)) OR (b AND mask n)"
  using page_down_hi [OF assms(1)] assms(2)
  by (intro bit_word_eqI) (auto simp: in_frame_def bit_simps)

lemma in_frame_leaf_12:
  assumes "e AND mask 12 = 0"
  shows "in_frame (e OR (a AND mask 12)) b = e OR (b AND mask 12)"
proof (rule bit_word_eqI)
  fix n assume l: "n < LENGTH(64)"
  have "\<not> (bit e n \<and> n < 12)"
    using assms bit_and_iff [of e "mask 12" n] by (auto simp: bit_simps)
  then show "bit (in_frame (e OR (a AND mask 12)) b) n \<longleftrightarrow> bit (e OR (b AND mask 12)) n"
    using l by (auto simp: in_frame_def bit_simps)
qed

lemma phys_mask_low: "(e AND PHYS_MASK) AND mask 12 = 0"
proof -
  have "PHYS_MASK AND mask 12 = 0"
    by (simp add: PHYS_MASK_def mask_eq_exp_minus_1)
  then show ?thesis
    by (simp only: and.assoc) simp
qed

lemma v2p_page:
  assumes "page_down a = page_down b" "v2p s a = Some p"
  shows "v2p s b = Some (in_frame p b)"
  using assms(2) unfolding v2p_def mmu_def Let_def index_page [OF assms(1)]
  by (auto split: if_splits simp: in_frame_leaf_12 [OF phys_mask_low]
      in_frame_leaf [OF assms(1), of _ "_ AND PHYS_MASK", unfolded and.assoc])

lemma user_page_eq:
  assumes "user_page x" "user_page y" "same_page x y"
  shows "x = y"
proof (rule same_page_inj)
  have "drop_bit 48 z = 0" if "user_page z" for z
    using that by (simp add: user_page_def word_unat_eq_iff unat_drop_bit_eq) (simp add: drop_bit_eq_div)
  with assms show "drop_bit 48 x = drop_bit 48 y"
    by simp
qed (use assms in \<open>simp_all add: user_page_def\<close>)

lemma user_page_kernel_va: "unat x < 2 ^ 47 \<Longrightarrow> kernel_va x"
proof -
  assume "unat x < 2 ^ 47"
  then have "unat (drop_bit 39 x) < 256"
    by (simp add: unat_drop_bit div_less_iff_less_mult)
  moreover have "unat (PML4_INDEX x) \<le> unat (drop_bit 39 x)"
    unfolding PML4_INDEX_def word_le_nat_alt [symmetric] by (rule word_and_le2)
  ultimately show ?thesis
    by (auto simp: kernel_va_def)
qed

section \<open>Allocating the pages of the segments\<close>

lemma vm_pmm_update [simp]:
  "rd b i (s\<lparr>vm_pmm := p\<rparr>) = rd b i s" "tab (s\<lparr>vm_pmm := p\<rparr>) q = tab s q"
  "ent (s\<lparr>vm_pmm := p\<rparr>) q i = ent s q i" "mmu c (s\<lparr>vm_pmm := p\<rparr>) va = mmu c s va"
proof -
  have r: "rd b i (s\<lparr>vm_pmm := p\<rparr>) = rd b i s" for b i
    by (simp add: rd_def)
  show t: "tab (s\<lparr>vm_pmm := p\<rparr>) q = tab s q" for q
  proof (induction q)
    case (Cons a q)
    then show ?case by (simp add: tab_Cons ent_def r split: option.split)
  qed simp
  show "ent (s\<lparr>vm_pmm := p\<rparr>) q i = ent s q i"
    by (simp add: ent_def r t split: option.split)
  show "mmu c (s\<lparr>vm_pmm := p\<rparr>) va = mmu c s va"
    unfolding mmu_def r ..
  show "rd b i (s\<lparr>vm_pmm := p\<rparr>) = rd b i s"
    by (rule r)
qed

lemma alloc_map_step:
  assumes wf: "vm_wf s" and x: "user_page x" and fr: "4 \<le> card (pmm_frames (vm_pmm s))"
  obtains t s' where "paging_alloc_and_map x flags s = (t, s')" "t \<noteq> 0" "t \<in> pmm_frames (vm_pmm s)"
    "page_aligned t" "vm_wf s'" "vm_cr3 s' = vm_cr3 s" "pmm_frames (vm_pmm s') \<subseteq> pmm_frames (vm_pmm s) - {t}"
    "card (pmm_frames (vm_pmm s)) \<le> card (pmm_frames (vm_pmm s')) + 4"
    "v2p s' x = Some t" "\<forall>y. user_page y \<longrightarrow> y \<noteq> x \<longrightarrow> v2p s' y = v2p s y"
proof -
  have fin: "finite (pmm_frames (vm_pmm s))"
    by (simp add: pmm_frames_def)
  have "pmm_frames (vm_pmm s) \<noteq> {}"
    using fr by auto
  from vm_alloc_frame [OF wf this] obtain t p where a: "vm_alloc s = (t, s\<lparr>vm_pmm := p\<rparr>)" "t \<noteq> 0"
      "t \<in> pmm_frames (vm_pmm s)" "page_aligned t" "pmm_ok p" "pmm_frames p = pmm_frames (vm_pmm s) - {t}"
    by metis
  define s1 where "s1 = s\<lparr>vm_pmm := p\<rparr>"
  have same: "tab s1 q = tab s q" "ent s1 q i = ent s q i" "mmu c s1 va = mmu c s va" "vm_cr3 s1 = vm_cr3 s"
    for q i c va
    by (simp_all add: s1_def)
  have c1: "card (pmm_frames p) = card (pmm_frames (vm_pmm s)) - 1"
    using a(3,6) fin by simp
  have wf1: "vm_wf s1"
    using wf a(5,6) unfolding vm_wf_def same by (simp add: s1_def)
  have k: "kernel_va x" if "user_page x" for x
    using that user_page_kernel_va by (simp add: user_page_def)
  have "3 \<le> card (pmm_frames (vm_pmm s1))"
    using fr c1 by (simp add: s1_def)
  note eff = map_page_effect [OF wf1 k [OF x] this, where pa = t and flags = flags]
  define s' where "s' = paging_map_page x t flags s1"
  have p3: "prepared 3 s1 s'"
    using eff(1) by (simp add: s'_def)
  have tx: "(t AND PHYS_MASK) OR (x AND mask 12) = t"
    using vm_wfD(2) [OF wf a(3)] x by (simp add: phys_ok_def user_page_def page_aligned_def mask_12)
  show thesis
  proof (rule that)
    show "paging_alloc_and_map x flags s = (t, s')"
      using a(1,2) by (simp add: paging_alloc_and_map_def s'_def s1_def)
    show "vm_wf s'" "vm_cr3 s' = vm_cr3 s" "pmm_frames (vm_pmm s') \<subseteq> pmm_frames (vm_pmm s) - {t}"
      "card (pmm_frames (vm_pmm s)) \<le> card (pmm_frames (vm_pmm s')) + 4"
      using p3 c1 a(6) by (auto simp: prepared_def same) (auto simp: s1_def)
    show "v2p s' x = Some t"
      using eff(2) p3 by (simp add: v2p_def s'_def prepared_def tx)
    show "\<forall>y. user_page y \<longrightarrow> y \<noteq> x \<longrightarrow> v2p s' y = v2p s y"
    proof (intro allI impI)
      fix y assume y: "user_page y" "y \<noteq> x"
      then have "\<not> same_page x y"
        using user_page_eq x by blast
      with eff(3) k [OF y(1)] have "mmu (vm_cr3 s1) s' y =
          map_option (recache (large_mapped s1 x \<and> same_2m x y) flags) (mmu (vm_cr3 s1) s1 y)"
        by (simp add: s'_def)
      then show "v2p s' y = v2p s y"
        using p3 by (simp add: v2p_def prepared_def same option.map_comp)
          (simp add: recache_def comp_def case_prod_beta)
    qed
  qed (use a in simp_all)
qed

text \<open>
  The state between the two loops: the pages \<open>Y\<close> are mapped, each to a page frame of its own
  (\<open>F\<close>) that the allocator does not hold.
\<close>

definition frames_for :: "(u64 \<Rightarrow> u64) \<Rightarrow> u64 set \<Rightarrow> vm_state \<Rightarrow> bool" where
  "frames_for F Y s \<longleftrightarrow> vm_wf s \<and> inj_on F Y \<and>
     (\<forall>x \<in> Y. user_page x \<and> v2p s x = Some (F x) \<and> page_aligned (F x) \<and> F x \<notin> pmm_frames (vm_pmm s))"

lemma frames_for_step:
  assumes "frames_for F Y s" "user_page x" "4 \<le> card (pmm_frames (vm_pmm s))"
  obtains t s' where "paging_alloc_and_map x flags s = (t, s')" "t \<noteq> 0" "vm_cr3 s' = vm_cr3 s"
    "card (pmm_frames (vm_pmm s)) \<le> card (pmm_frames (vm_pmm s')) + 4"
    "frames_for (F(x := t)) (insert x Y) s'"
proof -
  have "vm_wf s"
    using assms(1) by (simp add: frames_for_def)
  from alloc_map_step [OF this assms(2,3)] obtain t s' where st:
      "paging_alloc_and_map x flags s = (t, s')" "t \<noteq> 0" "t \<in> pmm_frames (vm_pmm s)"
      "page_aligned t" "vm_wf s'" "vm_cr3 s' = vm_cr3 s" "pmm_frames (vm_pmm s') \<subseteq> pmm_frames (vm_pmm s) - {t}"
      "card (pmm_frames (vm_pmm s)) \<le> card (pmm_frames (vm_pmm s')) + 4"
      "v2p s' x = Some t" "\<forall>y. user_page y \<longrightarrow> y \<noteq> x \<longrightarrow> v2p s' y = v2p s y"
    by metis
  have "frames_for (F(x := t)) (insert x Y) s'"
    using assms(1,2) st(3-5,7,9,10) by (auto simp: frames_for_def inj_on_def)
  with st that show thesis
    by blast
qed

lemma alloc_pages_ok:
  assumes "frames_for F Y s" "\<forall>x \<in> set xs. user_page x" "4 * length xs \<le> card (pmm_frames (vm_pmm s))"
  shows "\<exists>F' s'. alloc_pages flags xs s = (True, s') \<and> frames_for F' (Y \<union> set xs) s' \<and> vm_cr3 s' = vm_cr3 s \<and>
    card (pmm_frames (vm_pmm s)) \<le> card (pmm_frames (vm_pmm s')) + 4 * length xs"
  using assms
proof (induction xs arbitrary: F Y s)
  case Nil
  then show ?case by auto
next
  case (Cons x xs)
  then have "user_page x" "4 \<le> card (pmm_frames (vm_pmm s))"
    by simp_all
  from frames_for_step [OF Cons.prems(1) this] obtain t s1 where t: "paging_alloc_and_map x flags s = (t, s1)"
      "t \<noteq> 0" "vm_cr3 s1 = vm_cr3 s" "card (pmm_frames (vm_pmm s)) \<le> card (pmm_frames (vm_pmm s1)) + 4"
      "frames_for (F(x := t)) (insert x Y) s1"
    by metis
  have "\<forall>x \<in> set xs. user_page x" "4 * length xs \<le> card (pmm_frames (vm_pmm s1))"
    using Cons.prems t(4) by simp_all
  from Cons.IH [OF t(5) this] t show ?case
    by auto
qed

section \<open>Writing through the mapping\<close>

lemma in_frame_inj:
  assumes "page_aligned f" "page_aligned g" "in_frame f a = in_frame g b"
  shows "f = g" "a AND mask 12 = b AND mask 12"
proof -
  have lo: "\<not> bit z n" if "page_aligned z" "n < 12" for z n
    using that bit_page_down [of z n] by simp
  have b: "bit (in_frame f a) n = bit (in_frame g b) n" for n
    using assms(3) by simp
  show "f = g"
  proof (rule bit_word_eqI)
    fix n assume "n < LENGTH(64)"
    then show "bit f n = bit g n"
      using b [of n] lo [OF assms(1), of n] lo [OF assms(2), of n]
      by (cases "n < 12") (simp_all add: in_frame_def bit_simps)
  qed
  show "a AND mask 12 = b AND mask 12"
  proof (rule bit_word_eqI)
    fix n assume "n < LENGTH(64)"
    then show "bit (a AND mask 12) n = bit (b AND mask 12) n"
      using b [of n] by (cases "n < 12") (simp_all add: in_frame_def bit_simps)
  qed
qed

lemma page_down_low_eq:
  assumes "page_down a = page_down b" "a AND mask 12 = b AND mask 12"
  shows "a = b"
proof (rule bit_word_eqI)
  fix n assume "n < LENGTH(64)"
  then show "bit a n = bit b n"
    using page_down_hi [OF assms(1), of n] arg_cong [OF assms(2), of "\<lambda>w. bit w n"]
    by (cases "n < 12") (auto simp: bit_simps)
qed

lemma frames_for_v2p:
  assumes "frames_for F Y s" "page_down u \<in> Y"
  shows "v2p s u = Some (in_frame (F (page_down u)) u)"
  using assms v2p_page [of "page_down u" u s] by (auto simp: frames_for_def)

lemma frames_for_inj:
  assumes "frames_for F Y s" "page_down u \<in> Y" "page_down w \<in> Y" "v2p s u = v2p s w"
  shows "u = w"
proof -
  have i: "in_frame (F (page_down u)) u = in_frame (F (page_down w)) w"
    using assms(4) frames_for_v2p [OF assms(1,2)] frames_for_v2p [OF assms(1,3)] by simp
  have "page_aligned (F (page_down u))" "page_aligned (F (page_down w))" and inj: "inj_on F Y"
    using assms(1-3) by (simp_all add: frames_for_def)
  note eq = in_frame_inj [OF this(1,2) i]
  show ?thesis
    by (rule page_down_low_eq [OF inj_onD [OF inj eq(1) assms(2,3)] eq(2)])
qed

lemma unat_diff_Suc:
  fixes u va :: u64
  assumes "u \<noteq> va"
  shows "unat (u - va) = Suc (unat (u - (va + 1)))"
proof -
  have "0 < unat (u - va)"
    using assms by (simp add: unat_gt_0)
  then have "unat (u - va - 1) = unat (u - va) - 1"
    by (simp add: unat_sub word_le_nat_alt)
  with \<open>0 < unat (u - va)\<close> show ?thesis
    by (simp add: diff_diff_eq)
qed

lemma vstore_ok:
  assumes "frames_for F Y (s_vm s)" "\<forall>i < length bs. page_down (va + of_nat i) \<in> Y"
    and "length bs \<le> 2 ^ 64"
  shows "\<exists>s'. vstore va bs s = Some s' \<and> s_vm s' = s_vm s \<and>
    (\<forall>u. page_down u \<in> Y \<longrightarrow> vread u s' =
      (if unat (u - va) < length bs then Some (bs ! unat (u - va)) else vread u s))"
  using assms
proof (induction bs arbitrary: va s)
  case Nil
  then show ?case by simp
next
  case (Cons b bs)
  have va: "page_down va \<in> Y"
    using spec [OF Cons.prems(2), of 0] by simp
  obtain pa where pa: "v2p (s_vm s) va = Some pa"
    using frames_for_v2p [OF Cons.prems(1) va] by blast
  define s1 where "s1 = s\<lparr>s_ram := (s_ram s)(pa := b)\<rparr>"
  have rd1: "vread u s1 = (if u = va then Some b else vread u s)" if "page_down u \<in> Y" for u
  proof (cases "u = va")
    case True
    then show ?thesis using pa by (simp add: vread_def s1_def)
  next
    case False
    then have "v2p (s_vm s) u \<noteq> Some pa"
      using frames_for_inj [OF Cons.prems(1) that va] pa by auto
    with False show ?thesis
      by (cases "v2p (s_vm s) u") (simp_all add: vread_def s1_def)
  qed
  have "\<forall>i < length bs. page_down (va + 1 + of_nat i) \<in> Y"
  proof (intro allI impI)
    fix i assume "i < length bs"
    then show "page_down (va + 1 + of_nat i) \<in> Y"
      using spec [OF Cons.prems(2), of "Suc i"] by (simp add: add.assoc)
  qed
  from Cons.IH [OF _ this, of s1] obtain s' where s': "vstore (va + 1) bs s1 = Some s'"
      "s_vm s' = s_vm s1" "\<forall>u. page_down u \<in> Y \<longrightarrow> vread u s' =
      (if unat (u - (va + 1)) < length bs then Some (bs ! unat (u - (va + 1))) else vread u s1)"
    using Cons.prems(1,3) by (auto simp: s1_def)
  have "unat (- 1 :: u64) = 2 ^ 64 - 1"
    by (simp add: unsigned_minus_1_eq_mask mask_eq_exp_minus_1)
  then have "\<not> unat (va - (va + 1)) < length bs"
    using Cons.prems(3) by simp
  then have "vread u s' = (if unat (u - va) < length (b # bs) then Some ((b # bs) ! unat (u - va))
      else vread u s)" if "page_down u \<in> Y" for u
    using spec [OF s'(3), of u] that rd1 [OF that] unat_diff_Suc [of u va]
    by (cases "u = va") (simp_all split: if_splits)
  moreover have "vstore va (b # bs) s = Some s'"
    using s'(1) pa by (simp add: vwrite_def s1_def)
  ultimately show ?case
    using s'(2) by (auto simp: s1_def)
qed

section \<open>The memory image\<close>

text \<open>
  What a segment contains, from the ELF specification: the bytes of the file, then zeros; where
  segments overlap the later one wins.
\<close>

definition seg_at :: "u8 list \<Rightarrow> elf64_phdr \<Rightarrow> u64 \<Rightarrow> u8 option" where
  "seg_at img ph u =
     (let k = unat (u - p_vaddr ph)
      in if k < unat (p_filesz ph) then Some (img ! (unat (p_offset ph) + k))
         else if k < unat (p_memsz ph) then Some 0 else None)"

fun elf_image :: "u8 list \<Rightarrow> elf64_phdr list \<Rightarrow> u64 \<Rightarrow> u8 option" where
  "elf_image img [] u = None"
| "elf_image img (ph # phs) u =
     (case elf_image img phs u of Some b \<Rightarrow> Some b
      | None \<Rightarrow> if p_type ph = 1 then seg_at img ph u else None)"

definition seg_ok :: "u8 list \<Rightarrow> elf64_phdr \<Rightarrow> bool" where
  "seg_ok img ph \<longleftrightarrow> unat (p_offset ph) + unat (p_filesz ph) \<le> length img \<and> p_filesz ph \<le> p_memsz ph \<and>
     unat (p_memsz ph) < 2 ^ 32 \<and> unat (p_vaddr ph) + unat (p_memsz ph) < 2 ^ 47"

lemma seg_okD:
  assumes "seg_ok img ph"
  shows "unat (ucast (p_filesz ph) :: u32) = unat (p_filesz ph)"
    "unat (ucast (p_memsz ph - p_filesz ph) :: u32) = unat (p_memsz ph) - unat (p_filesz ph)"
    "unat (p_filesz ph) \<le> unat (p_memsz ph)"
    "unat (p_vaddr ph + p_memsz ph) = unat (p_vaddr ph) + unat (p_memsz ph)"
    "unat (p_vaddr ph + p_memsz ph + PAGE_SIZE - 1) = unat (p_vaddr ph) + unat (p_memsz ph) + 4095"
proof -
  show le: "unat (p_filesz ph) \<le> unat (p_memsz ph)"
    using assms by (simp add: seg_ok_def word_le_nat_alt)
  have m: "unat (p_memsz ph) < 2 ^ 32" "unat (p_vaddr ph) + unat (p_memsz ph) < 2 ^ 47"
    using assms by (simp_all add: seg_ok_def)
  show "unat (ucast (p_filesz ph) :: u32) = unat (p_filesz ph)"
    using le m by (simp add: unsigned_ucast_eq take_bit_nat_eq_self)
  have "unat (p_memsz ph - p_filesz ph) = unat (p_memsz ph) - unat (p_filesz ph)"
    using le by (simp add: unat_sub word_le_nat_alt)
  then show "unat (ucast (p_memsz ph - p_filesz ph) :: u32) = unat (p_memsz ph) - unat (p_filesz ph)"
    using m by (simp add: unsigned_ucast_eq take_bit_nat_eq_self)
  show a: "unat (p_vaddr ph + p_memsz ph) = unat (p_vaddr ph) + unat (p_memsz ph)"
    using m by (simp add: unat_word_ariths)
  have "unat (w + 4096 - 1) = unat w + 4095" if "unat w < 2 ^ 47" for w :: u64
  proof -
    have "w + 4096 - 1 = w + 4095"
      by simp
    then show ?thesis
      using that by (simp add: unat_word_ariths)
  qed
  from this [of "p_vaddr ph + p_memsz ph"]
  show "unat (p_vaddr ph + p_memsz ph + PAGE_SIZE - 1) = unat (p_vaddr ph) + unat (p_memsz ph) + 4095"
    using m(2) unfolding a .
qed

lemma seg_pages_user:
  assumes "seg_ok img ph" "x \<in> set (seg_pages ph)"
  shows "user_page x"
proof -
  have "page_aligned x" "x < page_down (p_vaddr ph + p_memsz ph + PAGE_SIZE - 1)"
    using assms(2) by (simp_all add: seg_pages_def set_page_range)
  define d where "d = unat (p_vaddr ph) + unat (p_memsz ph) + 4095"
  obtain q where q: "unat x = q * 4096"
    using \<open>page_aligned x\<close> by (auto simp: page_aligned_unat mod_eq_0_iff_dvd elim!: dvdE)
  have "unat x < d div 4096 * 4096"
    using \<open>x < _\<close> seg_okD(5) [OF assms(1)]
    by (simp only: word_less_nat_alt unat_page_down minus_mod_eq_div_mult d_def)
  then have "Suc q * 4096 \<le> d div 4096 * 4096"
    using q by simp
  also have "\<dots> \<le> d"
    by (rule div_times_less_eq_dividend)
  finally have "unat x < unat (p_vaddr ph) + unat (p_memsz ph)"
    by (simp add: q d_def)
  then show ?thesis
    using assms(1) \<open>page_aligned x\<close> by (simp add: user_page_def seg_ok_def)
qed

lemma seg_pages_cover:
  assumes "seg_ok img ph" "i < unat (p_memsz ph)"
  shows "page_down (p_vaddr ph + of_nat i) \<in> set (seg_pages ph)"
proof -
  have m: "unat (p_memsz ph) < 2 ^ 32" "unat (p_vaddr ph) + unat (p_memsz ph) < 2 ^ 47"
    using assms by (simp_all add: seg_ok_def)
  have u: "unat (p_vaddr ph + of_nat i) = unat (p_vaddr ph) + i"
    using m assms(2) by (simp add: unat_word_ariths unat_of_nat)
  have "unat (p_vaddr ph) div 4096 * 4096 \<le> (unat (p_vaddr ph) + i) div 4096 * 4096"
    by (simp add: div_le_mono)
  moreover have "(unat (p_vaddr ph) + i + 4096) div 4096 \<le> (unat (p_vaddr ph) + unat (p_memsz ph) + 4095) div 4096"
    using assms(2) by (intro div_le_mono) simp
  then have "(unat (p_vaddr ph) + i) div 4096 * 4096 <
      (unat (p_vaddr ph) + unat (p_memsz ph) + 4095) div 4096 * 4096"
    by simp
  ultimately show ?thesis
    using seg_okD(5) [OF assms(1)] u
    by (simp add: seg_pages_def set_page_range word_le_nat_alt word_less_nat_alt unat_page_down
        minus_mod_eq_div_mult)
qed

lemma tail_offset:
  fixes x b :: u64
  assumes "m \<le> 2 ^ 64"
  shows "unat (x - b) < m - unat b \<longleftrightarrow> unat b \<le> unat x \<and> unat x < m"
proof (cases "b \<le> x")
  case True
  then have "unat (x - b) = unat x - unat b" "unat b \<le> unat x"
    by (simp_all add: unat_sub word_le_nat_alt)
  then show ?thesis by arith
next
  case False
  then have "unat (x - b) = 2 ^ 64 + unat x - unat b"
    by (simp add: unat_sub_if_size word_le_nat_alt word_size)
  with False assms show ?thesis
    by (simp add: word_le_nat_alt)
qed

lemma copy_segment_ok:
  assumes "frames_for F Y (s_vm s)" "seg_ok img ph" "set (seg_pages ph) \<subseteq> Y"
  shows "\<exists>s'. copy_segment img ph s = Some s' \<and> s_vm s' = s_vm s \<and>
    (\<forall>u. page_down u \<in> Y \<longrightarrow> vread u s' =
       (case seg_at img ph u of Some b \<Rightarrow> Some b | None \<Rightarrow> vread u s))"
proof -
  define m f where mf: "m = unat (p_memsz ph)" "f = unat (p_filesz ph)"
  define bs where "bs = take f (drop (unat (p_offset ph)) img)"
  note d = seg_okD [OF assms(2), folded mf]
  have m: "m < 2 ^ 32" "unat (p_offset ph) + f \<le> length img"
    using assms(2) by (simp_all add: seg_ok_def mf)
  have cov: "page_down (p_vaddr ph + of_nat i) \<in> Y" if "i < m" for i
    using seg_pages_cover [OF assms(2)] that assms(3) by (auto simp: mf)
  have len: "length bs = f"
    using m by (simp add: bs_def)
  have sb: "seg_bytes img ph = Some bs"
    using m d(1) by (simp add: seg_bytes_def bs_def Let_def)
  obtain s1 where s1: "vstore (p_vaddr ph) bs s = Some s1" "s_vm s1 = s_vm s"
      "\<forall>u. page_down u \<in> Y \<longrightarrow> vread u s1 = (if unat (u - p_vaddr ph) < f
        then Some (bs ! unat (u - p_vaddr ph)) else vread u s)"
    using vstore_ok [OF assms(1), of bs "p_vaddr ph"] cov m(1) d(3) len by auto
  define zs where "zs = replicate (m - f) (0 :: u8)"
  have fe: "of_nat f = p_filesz ph"
    by (simp add: mf)
  have zl: "length zs \<le> 2 ^ 64"
    using m(1) by (simp add: zs_def)
  have cz: "\<forall>i < length zs. page_down (p_vaddr ph + p_filesz ph + of_nat i) \<in> Y"
  proof (intro allI impI)
    fix i assume "i < length zs"
    then show "page_down (p_vaddr ph + p_filesz ph + of_nat i) \<in> Y"
      using cov [of "f + i"] by (simp only: of_nat_add fe add.assoc) (simp add: zs_def)
  qed
  obtain s2 where s2: "vstore (p_vaddr ph + p_filesz ph) zs s1 = Some s2" "s_vm s2 = s_vm s1"
      "\<forall>u. page_down u \<in> Y \<longrightarrow> vread u s2 = (if unat (u - (p_vaddr ph + p_filesz ph)) < length zs
        then Some (zs ! unat (u - (p_vaddr ph + p_filesz ph))) else vread u s1)"
    using vstore_ok [OF assms(1) [folded s1(2)] cz zl] by metis
  have "copy_segment img ph s = Some s2"
    using sb s1(1) s2(1) d(2,3) by (auto simp: copy_segment_def zs_def word_less_nat_alt mf [symmetric])
  moreover have "vread u s2 = (case seg_at img ph u of Some b \<Rightarrow> Some b | None \<Rightarrow> vread u s)"
    if u: "page_down u \<in> Y" for u
  proof -
    define k where "k = unat (u - p_vaddr ph)"
    have t: "unat (u - (p_vaddr ph + p_filesz ph)) < m - f \<longleftrightarrow> f \<le> k \<and> k < m"
      using tail_offset [of m "u - p_vaddr ph" "p_filesz ph"] m(1) by (simp add: k_def mf diff_diff_eq)
    have "vread u s2 = (if f \<le> k \<and> k < m then Some 0 else if k < f then Some (bs ! k) else vread u s)"
      using spec [OF s2(3), of u] spec [OF s1(3), of u] u t by (auto simp: zs_def k_def)
    then show ?thesis
      using d(3) m(2) by (auto simp: seg_at_def Let_def mf [symmetric] k_def [symmetric] bs_def)
  qed
  ultimately show ?thesis
    using s1(2) s2(2) by auto
qed

abbreviation loads :: "elf64_phdr list \<Rightarrow> elf64_phdr list" where
  "loads phs \<equiv> filter (\<lambda>ph. p_type ph = 1) phs"

definition load_pages :: "elf64_phdr list \<Rightarrow> u64 list" where
  "load_pages phs = concat (map seg_pages (loads phs))"

lemma load_pages_simps [simp]:
  "load_pages [] = []"
  "load_pages (ph # phs) = (if p_type ph = 1 then seg_pages ph @ load_pages phs else load_pages phs)"
  by (simp_all add: load_pages_def)

lemma seg_in_file:
  assumes "seg_ok img ph" "length img < 2 ^ 32"
  shows "\<not> (of_nat (length img) :: u64) < p_offset ph + p_filesz ph" "\<not> p_memsz ph < p_filesz ph"
proof -
  have "unat (p_offset ph) + unat (p_filesz ph) \<le> length img"
    using assms(1) by (simp add: seg_ok_def)
  with assms(2) have "unat (p_offset ph + p_filesz ph) \<le> length img" "unat (of_nat (length img) :: u64) = length img"
    by (simp_all add: unat_word_ariths unat_of_nat)
  then show "\<not> (of_nat (length img) :: u64) < p_offset ph + p_filesz ph"
    by (simp add: word_less_nat_alt)
  show "\<not> p_memsz ph < p_filesz ph"
    using assms(1) by (auto simp: seg_ok_def)
qed

lemma map_segments_ok:
  assumes "frames_for F Y s" "\<forall>ph \<in> set (loads phs). seg_ok img ph" "length img < 2 ^ 32"
    and "4 * length (load_pages phs) \<le> card (pmm_frames (vm_pmm s))"
  shows "\<exists>F' s'. map_segments (of_nat (length img)) (map Some phs) s = Some (True, s') \<and>
    frames_for F' (Y \<union> set (load_pages phs)) s' \<and> vm_cr3 s' = vm_cr3 s"
  using assms
proof (induction phs arbitrary: F Y s)
  case Nil
  then show ?case by auto
next
  case (Cons ph phs)
  show ?case
  proof (cases "p_type ph = 1")
    case False
    then show ?thesis
      using Cons.IH [OF Cons.prems(1)] Cons.prems(2-4) by simp
  next
    case True
    have ok: "seg_ok img ph"
      using Cons.prems(2) True by simp
    have "\<forall>x \<in> set (seg_pages ph). user_page x" "4 * length (seg_pages ph) \<le> card (pmm_frames (vm_pmm s))"
      using seg_pages_user [OF ok] Cons.prems(4) True by simp_all
    from alloc_pages_ok [OF Cons.prems(1) this] obtain F1 s1 where s1: "alloc_pages 6 (seg_pages ph) s = (True, s1)"
        "frames_for F1 (Y \<union> set (seg_pages ph)) s1" "vm_cr3 s1 = vm_cr3 s"
        "card (pmm_frames (vm_pmm s)) \<le> card (pmm_frames (vm_pmm s1)) + 4 * length (seg_pages ph)"
      by metis
    have "4 * length (load_pages phs) \<le> card (pmm_frames (vm_pmm s1))"
      using s1(4) Cons.prems(4) True by simp
    from Cons.IH [OF s1(2) _ Cons.prems(3) this] Cons.prems(2) s1(1,3) True seg_in_file [OF ok Cons.prems(3)]
    show ?thesis
      by (simp add: Un_assoc)
  qed
qed

lemma Min_insert_min: "finite A \<Longrightarrow> Min (insert (min a b) A) = Min (insert a (insert b A))"
  by (cases "A = {}") (simp_all add: min.assoc)

lemma Max_insert_max: "finite A \<Longrightarrow> Max (insert (max a b) A) = Max (insert a (insert b A))"
  by (cases "A = {}") (simp_all add: max.assoc)

lemma bounds_start:
  fixes A :: "u64 set"
  assumes "finite A" "A \<noteq> {}"
  shows "Min (insert (- 1) A) = Min A" "Max (insert 0 A) = Max A"
  using assms by (simp_all add: min_absorb2 max_absorb2)

abbreviation seg_end :: "elf64_phdr \<Rightarrow> u64" where
  "seg_end ph \<equiv> p_vaddr ph + p_memsz ph"

lemma copy_segments_ok:
  assumes "frames_for F Y (s_vm s)" "\<forall>ph \<in> set (loads phs). seg_ok img ph" "set (load_pages phs) \<subseteq> Y"
  shows "\<exists>s'. copy_segments img (map Some phs) (lo, hi) s =
      Some ((Min (insert lo (p_vaddr ` set (loads phs))), Max (insert hi (seg_end ` set (loads phs)))), s') \<and>
    s_vm s' = s_vm s \<and> (\<forall>u. page_down u \<in> Y \<longrightarrow> vread u s' =
      (case elf_image img phs u of Some b \<Rightarrow> Some b | None \<Rightarrow> vread u s))"
  using assms
proof (induction phs arbitrary: lo hi s)
  case Nil
  then show ?case by simp
next
  case (Cons ph phs)
  show ?case
  proof (cases "p_type ph = 1")
    case False
    then have "elf_image img (ph # phs) = elf_image img phs"
      by (intro ext) (simp split: option.split)
    with False show ?thesis
      using Cons.IH [OF Cons.prems(1), of lo hi] Cons.prems(2,3) by (simp del: elf_image.simps)
  next
    case True
    have "seg_ok img ph" "set (seg_pages ph) \<subseteq> Y"
      using Cons.prems(2,3) True by simp_all
    from copy_segment_ok [OF Cons.prems(1) this] obtain s1 where s1: "copy_segment img ph s = Some s1"
        "s_vm s1 = s_vm s" "\<forall>u. page_down u \<in> Y \<longrightarrow> vread u s1 =
          (case seg_at img ph u of Some b \<Rightarrow> Some b | None \<Rightarrow> vread u s)"
      by metis
    have mm: "(if p_vaddr ph < lo then p_vaddr ph else lo) = min lo (p_vaddr ph)"
        "(if hi < seg_end ph then seg_end ph else hi) = max hi (seg_end ph)"
      by (auto simp: min_def max_def)
    from Cons.IH [of s1 "min lo (p_vaddr ph)" "max hi (seg_end ph)"] Cons.prems s1 True
    obtain s' where s': "copy_segments img (map Some phs) (min lo (p_vaddr ph), max hi (seg_end ph)) s1 =
        Some ((Min (insert (min lo (p_vaddr ph)) (p_vaddr ` set (loads phs))),
               Max (insert (max hi (seg_end ph)) (seg_end ` set (loads phs)))), s')"
      "s_vm s' = s_vm s" "\<forall>u. page_down u \<in> Y \<longrightarrow> vread u s' =
        (case elf_image img phs u of Some b \<Rightarrow> Some b | None \<Rightarrow> vread u s1)"
      by auto
    have "vread u s' = (case elf_image img (ph # phs) u of Some b \<Rightarrow> Some b | None \<Rightarrow> vread u s)"
      if "page_down u \<in> Y" for u
      using spec [OF s'(3), of u] spec [OF s1(3), of u] that True by (simp split: option.splits)
    with s'(1,2) s1(1) True show ?thesis
      by (simp add: mm Min_insert_min Max_insert_max)
  qed
qed

section \<open>Properties\<close>

definition phdrs :: "u8 list \<Rightarrow> elf64_phdr list" where
  "phdrs img = map (\<lambda>i. the (read_phdr img (e_phoff (read_ehdr img)) i)) [0..<unat (e_phnum (read_ehdr img))]"

text \<open>
  A loadable file: valid headers of the standard size inside of the file, every segment inside of
  the file, of less than 4 GiB and in the lower half, and at least one segment to load.
\<close>

definition elf_file :: "u8 list \<Rightarrow> bool" where
  "elf_file img \<longleftrightarrow> (let eh = read_ehdr img in elf_valid img \<and> length img < 2 ^ 32 \<and>
     64 \<le> e_ehsize eh \<and> e_phentsize eh = 56 \<and> e_phnum eh \<noteq> 0 \<and>
     unat (e_phoff eh) + 56 * unat (e_phnum eh) \<le> length img \<and> loads (phdrs img) \<noteq> [] \<and>
     (\<forall>ph \<in> set (loads (phdrs img)). seg_ok img ph))"

lemma elf_fileD:
  assumes "elf_file img"
  defines "eh \<equiv> read_ehdr img"
  shows "map (read_phdr img (e_phoff eh)) [0..<unat (e_phnum eh)] = map Some (phdrs img)"
    "\<not> (\<not> elf_valid img \<or> e_ehsize eh < 64 \<or> e_phentsize eh < 56 \<or> e_phnum eh = 0
        \<or> (of_nat (length img) :: u64) < e_phoff eh + ucast (e_phnum eh) * ucast (e_phentsize eh))"
proof -
  have f: "elf_valid img" "length img < 2 ^ 32" "64 \<le> e_ehsize eh" "e_phentsize eh = 56" "e_phnum eh \<noteq> 0"
      "unat (e_phoff eh) + 56 * unat (e_phnum eh) \<le> length img"
    using assms by (simp_all add: elf_file_def Let_def)
  have "read_phdr img (e_phoff eh) i \<noteq> None" if "i < unat (e_phnum eh)" for i
  proof -
    have "56 * i + 56 \<le> 56 * unat (e_phnum eh)"
      using that by simp
    with f(6) show ?thesis
      by (simp add: read_phdr_def Let_def)
  qed
  then show "map (read_phdr img (e_phoff eh)) [0..<unat (e_phnum eh)] = map Some (phdrs img)"
    by (auto simp: phdrs_def eh_def)
  have n: "unat (ucast (e_phnum eh) :: u64) = unat (e_phnum eh)"
    using unsigned_less [of "e_phnum eh", where ?'a = nat] by (simp add: unsigned_ucast_eq take_bit_nat_eq_self)
  have "unat (ucast (e_phnum eh) * 56 :: u64) = unat (e_phnum eh) * 56"
    using f(2,6) by (simp add: unat_word_ariths n)
  then have "unat (e_phoff eh + ucast (e_phnum eh) * 56) = unat (e_phoff eh) + unat (e_phnum eh) * 56"
    using f(2,6) by (simp add: unat_word_ariths)
  moreover have "unat (of_nat (length img) :: u64) = length img"
    using f(2) by (simp add: unat_of_nat)
  ultimately show "\<not> (\<not> elf_valid img \<or> e_ehsize eh < 64 \<or> e_phentsize eh < 56 \<or> e_phnum eh = 0
        \<or> (of_nat (length img) :: u64) < e_phoff eh + ucast (e_phnum eh) * ucast (e_phentsize eh))"
    using f by (auto simp: word_less_nat_alt word_le_nat_alt)
qed

lemma elf_image_page:
  assumes "elf_image img phs u = Some b" "\<forall>ph \<in> set (loads phs). seg_ok img ph"
  shows "page_down u \<in> set (load_pages phs)"
  using assms
proof (induction phs)
  case (Cons ph phs)
  show ?case
  proof (cases "elf_image img phs u")
    case None
    then have ph: "p_type ph = 1" "seg_at img ph u = Some b"
      using Cons.prems(1) by (simp_all split: if_splits)
    have ok: "seg_ok img ph"
      using Cons.prems(2) ph(1) by simp
    have "unat (u - p_vaddr ph) < unat (p_memsz ph)"
      using ph(2) seg_okD(3) [OF ok] by (auto simp: seg_at_def Let_def split: if_splits)
    from seg_pages_cover [OF ok this] ph(1) show ?thesis
      by simp
  next
    case Some
    then show ?thesis
      using Cons by auto
  qed
qed simp

text \<open>
  C5. Loading a program: for a loadable file, with four free page frames for each page of its
  segments, \<open>elf_load\<close> returns the entry point and the exact bounds of the segments, keeps the
  page tables well formed under the same root, and afterwards every address of the program's
  image reads, through the processor's translation, the byte the file prescribes (zero behind the
  file data of a segment; the later segment where two overlap).
\<close>

theorem elf_load_correct:
  assumes "elf_file img" "vm_wf (s_vm s)"
    and "4 * length (load_pages (phdrs img)) \<le> card (pmm_frames (vm_pmm (s_vm s)))"
  shows "\<exists>s'. elf_load img s = Some (ElfLoaded (e_entry (read_ehdr img))
        (Min (p_vaddr ` set (loads (phdrs img)))) (Max (seg_end ` set (loads (phdrs img)))), s') \<and>
    vm_wf (s_vm s') \<and> vm_cr3 (s_vm s') = vm_cr3 (s_vm s) \<and>
    (\<forall>u b. elf_image img (phdrs img) u = Some b \<longrightarrow> vread u s' = Some b)"
proof -
  let ?L = "loads (phdrs img)"
  have f: "length img < 2 ^ 32" "?L \<noteq> []" and ok: "\<forall>ph \<in> set ?L. seg_ok img ph"
    using assms(1) by (simp_all add: elf_file_def Let_def)
  have "frames_for id {} (s_vm s)"
    using assms(2) by (simp add: frames_for_def)
  from map_segments_ok [OF this ok f(1) assms(3)] obtain F vm where
    vm: "map_segments (of_nat (length img)) (map Some (phdrs img)) (s_vm s) = Some (True, vm)"
      "frames_for F (set (load_pages (phdrs img))) vm" "vm_cr3 vm = vm_cr3 (s_vm s)"
    by auto
  from copy_segments_ok [OF _ ok subset_refl, of F "s\<lparr>s_vm := vm\<rparr>" "- 1" 0] vm(2) obtain s' where
    s': "copy_segments img (map Some (phdrs img)) (- 1, 0) (s\<lparr>s_vm := vm\<rparr>) =
        Some ((Min (insert (- 1) (p_vaddr ` set ?L)), Max (insert 0 (seg_end ` set ?L))), s')"
      "s_vm s' = vm" "\<forall>u. page_down u \<in> set (load_pages (phdrs img)) \<longrightarrow> vread u s' =
        (case elf_image img (phdrs img) u of Some b \<Rightarrow> Some b | None \<Rightarrow> vread u (s\<lparr>s_vm := vm\<rparr>))"
    by auto
  have b: "Min (insert (- 1) (p_vaddr ` set ?L)) = Min (p_vaddr ` set ?L)"
      "Max (insert 0 (seg_end ` set ?L)) = Max (seg_end ` set ?L)"
    using f(2) by (simp_all only: bounds_start finite_imageI finite_set image_is_empty set_empty not_False_eq_True)
  have "Min (p_vaddr ` set ?L) \<in> p_vaddr ` set ?L"
    using f(2) by (intro Min_in) (simp_all only: finite_imageI finite_set image_is_empty set_empty not_False_eq_True)
  then obtain ph where "ph \<in> set ?L" "Min (p_vaddr ` set ?L) = p_vaddr ph"
    by auto
  moreover from this ok have "unat (p_vaddr ph) < 2 ^ 47"
    by (auto simp: seg_ok_def)
  ultimately have ne: "Min (p_vaddr ` set ?L) \<noteq> - 1"
    by (auto simp: unsigned_minus_1_eq_mask mask_eq_exp_minus_1)
  have "elf_load img s = Some (ElfLoaded (e_entry (read_ehdr img)) (Min (p_vaddr ` set ?L))
      (Max (seg_end ` set ?L)), s')"
    unfolding elf_load_def Let_def elf_fileD(1) [OF assms(1)] if_not_P [OF elf_fileD(2) [OF assms(1)]]
    using vm(1) s'(1) [unfolded b] ne by simp
  moreover have "vread u s' = Some x" if "elf_image img (phdrs img) u = Some x" for u x
    using spec [OF s'(3), of u] elf_image_page [OF that ok] that by simp
  ultimately show ?thesis
    using vm(2,3) s'(2) by (auto simp: frames_for_def)
qed

definition elf_demo :: "u8 list" where
  "elf_demo = [0x7F, 0x45, 0x4C, 0x46, 2, 1, 1, 0, 0, 0, 0, 0, 0, 0, 0, 0,
     2, 0, 62, 0, 1, 0, 0, 0, 0x78, 0, 0x40, 0, 0, 0, 0, 0, 64, 0, 0, 0, 0, 0, 0, 0,
     0, 0, 0, 0, 0, 0, 0, 0, 0, 0, 0, 0, 64, 0, 56, 0, 1, 0, 0, 0, 0, 0, 0, 0,
     1, 0, 0, 0, 5, 0, 0, 0, 0x78, 0, 0, 0, 0, 0, 0, 0, 0x78, 0, 0x40, 0, 0, 0, 0, 0,
     0x78, 0, 0x40, 0, 0, 0, 0, 0, 2, 0, 0, 0, 0, 0, 0, 0, 4, 0, 0, 0, 0, 0, 0, 0,
     0, 0x10, 0, 0, 0, 0, 0, 0, 0xEB, 0xFE]"

lemma elf_demo_headers:
  "read_ehdr elf_demo = \<lparr>e_ident = [0x7F, 0x45, 0x4C, 0x46, 2, 1, 1, 0, 0, 0, 0, 0, 0, 0, 0, 0],
     e_type = 2, e_machine = 62, e_version = 1, e_entry = 0x400078, e_phoff = 64, e_shoff = 0, e_flags = 0,
     e_ehsize = 64, e_phentsize = 56, e_phnum = 1, e_shentsize = 0, e_shnum = 0, e_shstrndx = 0\<rparr>"
  "phdrs elf_demo = [\<lparr>p_type = 1, p_flags = 5, p_offset = 120, p_vaddr = 0x400078, p_paddr = 0x400078,
     p_filesz = 2, p_memsz = 4, p_align = 4096\<rparr>]"
  "elf_valid elf_demo" "length elf_demo = 122" "elf_demo ! 120 = 0xEB"
  by code_simp+

theorem elf_load_correct_witness:
  "\<exists>s'. elf_load elf_demo \<lparr>s_vm = empty_vm [0x2000, 0x3000, 0x4000, 0x5000, 0x6000, 0x7000], s_ram = (\<lambda>_. 1)\<rparr> =
      Some (ElfLoaded 0x400078 0x400078 0x40007C, s') \<and>
    vread 0x400078 s' = Some 0xEB \<and> vread 0x40007A s' = Some 0"
proof -
  let ?s = "\<lparr>s_vm = empty_vm [0x2000, 0x3000, 0x4000, 0x5000, 0x6000, 0x7000], s_ram = (\<lambda>_. 1 :: u8)\<rparr>"
  have "elf_file elf_demo"
    by (simp add: elf_file_def elf_demo_headers seg_ok_def)
  moreover have "load_pages (phdrs elf_demo) = [0x400000]"
    by (simp add: elf_demo_headers seg_pages_def page_range_def page_down_def)
  then have "4 * length (load_pages (phdrs elf_demo)) \<le> card (pmm_frames (vm_pmm (s_vm ?s)))"
    by (simp add: empty_vm_frames)
  moreover have "elf_image elf_demo (phdrs elf_demo) 0x400078 = Some 0xEB"
      "elf_image elf_demo (phdrs elf_demo) 0x40007A = Some 0"
    by (simp_all add: elf_demo_headers seg_at_def)
  ultimately show ?thesis
    using elf_load_correct [of elf_demo ?s] empty_vm3_wf by (auto simp: elf_demo_headers)
qed

end
