(* ===== verification/Getty_Fs.thy ===== *)
theory Getty_Fs
  imports Bsd_Ramfs Libkern_Stdio Kern_Elf
begin

text \<open>
  The files of a task, bsd/kern/init_ram_getty/fs.c: descriptors, reading and seeking, \<open>stat\<close>,
  directory enumeration over the flat boot file system, the few files of /proc, and the argument
  vector of a new program. A path is its bytes without the NUL; \<open>hd0\<close> reads the character a
  pointer into it points to. File contents, buffers and the text of /proc files are bytes of the
  kernel's memory \<open>mem\<close>. A C \<open>int\<close> that overflows is read as a 32-bit word.
\<close>

section \<open>Descriptors\<close>

record xkern_fd =
  fd_type :: u32
  fd_data :: u64
  fd_size :: u32
  fd_pos :: u32

datatype task_state = TASK_RUNNING | TASK_ZOMBIE | TASK_NEW | TASK_WAITING

record task =
  t_sp :: u64
  t_cr3 :: u64
  t_pid :: u32
  t_name :: cstr
  t_stack :: u64
  t_state :: task_state
  t_ticks :: u32
  t_arg :: u64
  t_vfork_parent :: u32
  t_fd :: "xkern_fd list"
  t_procbuf :: u64

abbreviation XKERN_MAX_FDS :: nat where "XKERN_MAX_FDS \<equiv> 16"
abbreviation PROC_MAX_TASKS :: nat where "PROC_MAX_TASKS \<equiv> 32"

definition hd0 :: "cstr \<Rightarrow> u8" where
  "hd0 s = (case s of [] \<Rightarrow> 0 | c # _ \<Rightarrow> c)"

definition parse_pid :: "cstr \<Rightarrow> int \<times> cstr" where
  "parse_pid s =
     (let ds = takeWhile isdigit s
      in (if ds = [] then - 1 else sint (dec_value ds :: u32), drop (length ds) s))"

definition empty_fd :: xkern_fd where
  "empty_fd = \<lparr>fd_type = 0, fd_data = 0, fd_size = 0, fd_pos = 0\<rparr>"

definition fs_task_init :: "task \<Rightarrow> task" where
  "fs_task_init t = t\<lparr>t_fd := replicate 3 (empty_fd\<lparr>fd_type := 2\<rparr>) @ replicate 13 empty_fd\<rparr>"

definition fs_alloc_fd :: "task \<Rightarrow> nat option" where
  "fs_alloc_fd t = List.find (\<lambda>i. fd_type (t_fd t ! i) = 0) [3..<XKERN_MAX_FDS]"

definition path_is_dir :: "cstr \<Rightarrow> bool" where
  "path_is_dir path \<longleftrightarrow> skip_slashes path = []"

definition is_procfs :: "cstr \<Rightarrow> bool" where
  "is_procfs path =
     (let p = skip_slashes path
      in take 4 p = bytes_of ''proc'' \<and> (hd0 (drop 4 p) = 0 \<or> hd0 (drop 4 p) = 0x2F))"

text \<open>
  The text of /proc/1/status is never written (the formatting is commented out in the source):
  the length returned is that of whatever the buffer holds. \<open>None\<close> stands for a buffer without a
  terminator.
\<close>

definition procfs_read :: "nat \<Rightarrow> cstr \<Rightarrow> u64 \<Rightarrow> mem \<Rightarrow> int option" where
  "procfs_read ntasks path buf m =
     (if skip_slashes path = bytes_of ''proc/1/status''
      then if 1 < ntasks then map_option sint (strlen buf m) else Some (- 1)
      else Some (- 1))"

definition procfs_fill :: "nat \<Rightarrow> task \<Rightarrow> cstr \<Rightarrow> mem \<Rightarrow> int option" where
  "procfs_fill ntasks t path m = procfs_read ntasks path (t_procbuf t) m"

definition procfs_is_file :: "cstr \<Rightarrow> bool" where
  "procfs_is_file path =
     (let p = drop 4 (skip_slashes path)
      in hd0 p = 0x2F \<and>
         (case parse_pid (tl p) of (pid, e) \<Rightarrow>
            0 \<le> pid \<and> hd0 e = 0x2F \<and> pid < int PROC_MAX_TASKS \<and> tl e = bytes_of ''status''))"

definition procfs_exists :: "cstr \<Rightarrow> bool" where
  "procfs_exists path =
     (let p0 = skip_slashes path; p = drop 4 p0
      in take 4 p0 = bytes_of ''proc'' \<and>
         (p = [] \<or> hd0 p = 0x2F \<and>
           (tl p = [] \<or>
            (case parse_pid (tl p) of (pid, e) \<Rightarrow>
               0 \<le> pid \<and> pid < int PROC_MAX_TASKS \<and>
               (e = [] \<or> hd0 e = 0x2F \<and> tl e = bytes_of ''status'')))))"

text \<open>
  The entries of a directory: the type returned (0 at the end, 1 for a file, 2 for a directory)
  with the name stored. A buffer of no bytes is overrun, which is \<open>None\<close>.
\<close>

abbreviation XKERN_DT_REG :: u32 where "XKERN_DT_REG \<equiv> 1"
abbreviation XKERN_DT_DIR :: u32 where "XKERN_DT_DIR \<equiv> 2"

definition clip_name :: "cstr \<Rightarrow> u32 \<Rightarrow> cstr option" where
  "clip_name s namelen =
     (if namelen = 0 then None else Some (if unat namelen \<le> length s then take (unat namelen - 1) s else s))"

definition pid_text :: "u32 \<Rightarrow> cstr" where
  "pid_text pid = (case vsnprintf (\<lambda>_ _ (_ :: unit). []) 16 (bytes_of ''%u'') [VInt pid] of
     Some (_, Some s) \<Rightarrow> s | _ \<Rightarrow> [])"

definition procfs_child :: "task list \<Rightarrow> cstr \<Rightarrow> u32 \<Rightarrow> u32 \<Rightarrow> (u32 \<times> cstr) option" where
  "procfs_child tasks path index namelen =
     (let p = drop 4 (skip_slashes path); q = (if hd0 p = 0x2F then tl p else p)
      in if p \<noteq> [] \<and> hd0 p \<noteq> 0x2F then Some (0, [])
         else if q = []
         then if unat index < length tasks
              then map_option (Pair XKERN_DT_DIR) (clip_name (pid_text (t_pid (tasks ! unat index))) namelen)
              else Some (0, [])
         else case parse_pid q of (_, e) \<Rightarrow>
           if e = q \<or> hd0 e \<noteq> 0x2F \<or> tl e \<noteq> bytes_of ''status'' \<or> index \<noteq> 0 \<or> namelen < 7
           then Some (0, []) else Some (XKERN_DT_REG, bytes_of ''status''))"

section \<open>Open, read, seek\<close>

definition fd_ok :: "int \<Rightarrow> bool" where
  "fd_ok fd \<longleftrightarrow> 0 \<le> fd \<and> fd < int XKERN_MAX_FDS"

definition set_fd :: "nat \<Rightarrow> u64 \<Rightarrow> u32 \<Rightarrow> task \<Rightarrow> task" where
  "set_fd i data sz t = t\<lparr>t_fd := (t_fd t)[i := \<lparr>fd_type = 1, fd_data = data, fd_size = sz, fd_pos = 0\<rparr>]\<rparr>"

definition fs_open :: "nat \<Rightarrow> ramfs \<Rightarrow> cstr \<Rightarrow> mem \<Rightarrow> task \<Rightarrow> (int \<times> task) option" where
  "fs_open ntasks fs path m t =
     (if is_procfs path
      then case procfs_fill ntasks t path m of None \<Rightarrow> None
           | Some n \<Rightarrow>
               if n < 0 then Some (- 1, t)
               else (case fs_alloc_fd t of None \<Rightarrow> Some (- 1, t)
                     | Some fd \<Rightarrow> Some (int fd, set_fd fd (t_procbuf t) (word_of_int n) t))
      else case ramfs_lookup path fs of None \<Rightarrow> Some (- 1, t)
           | Some f \<Rightarrow>
               (case fs_alloc_fd t of None \<Rightarrow> Some (- 1, t)
                | Some fd \<Rightarrow> Some (int fd, set_fd fd (f_data f) (f_size f) t)))"

definition fs_close :: "int \<Rightarrow> task \<Rightarrow> int \<times> task" where
  "fs_close fd t =
     (if \<not> fd_ok fd then (- 1, t)
      else if fd < 3 then (0, t)
      else (0, t\<lparr>t_fd := (t_fd t)[nat fd := (t_fd t ! nat fd)\<lparr>fd_type := 0\<rparr>]\<rparr>))"

definition fs_read :: "int \<Rightarrow> u64 \<Rightarrow> u32 \<Rightarrow> task \<Rightarrow> mem \<Rightarrow> int \<times> task \<times> mem" where
  "fs_read fd buf n t m =
     (if \<not> fd_ok fd then (- 1, t, m)
      else let f = t_fd t ! nat fd
           in if fd_type f = 2 then (0, t, m)
              else if fd_type f \<noteq> 1 then (- 1, t, m)
              else if fd_size f \<le> fd_pos f then (0, t, m)
              else let avail = fd_size f - fd_pos f; k = (if avail < n then avail else n)
                   in (sint k, t\<lparr>t_fd := (t_fd t)[nat fd := f\<lparr>fd_pos := fd_pos f + k\<rparr>]\<rparr>,
                       memcpy buf (fd_data f + ucast (fd_pos f)) k m))"

text \<open>The bytes written to the console come with the result.\<close>

definition fs_write :: "int \<Rightarrow> u64 \<Rightarrow> u32 \<Rightarrow> task \<Rightarrow> mem \<Rightarrow> int \<times> u8 list" where
  "fs_write fd buf n t m =
     (if \<not> fd_ok fd then (- 1, [])
      else if fd_type (t_fd t ! nat fd) = 2 then (sint n, load_bytes buf (unat n) m)
      else (- 1, []))"

definition fs_lseek :: "int \<Rightarrow> u32 \<Rightarrow> u32 \<Rightarrow> task \<Rightarrow> int \<times> task" where
  "fs_lseek fd off whence t =
     (if \<not> fd_ok fd then (- 1, t)
      else let f = t_fd t ! nat fd;
               move = (\<lambda>p. (sint p, t\<lparr>t_fd := (t_fd t)[nat fd := f\<lparr>fd_pos := p\<rparr>]\<rparr>))
           in if fd_type f \<noteq> 1 then (- 1, t)
              else if whence = 0 then move off
              else if whence = 1 then move (fd_pos f + off)
              else if whence = 2 then move (fd_size f + off)
              else (- 1, t))"

section \<open>Status\<close>

record xkern_stat =
  st_dev :: u32
  st_ino :: u32
  st_mode :: u32
  st_nlink :: u32
  st_uid :: u32
  st_gid :: u32
  st_rdev :: u32
  st_size :: u32
  st_blksize :: u32
  st_blocks :: u32
  st_atime :: u32
  st_mtime :: u32
  st_ctime :: u32

definition zero_stat :: xkern_stat where
  "zero_stat = \<lparr>st_dev = 0, st_ino = 0, st_mode = 0, st_nlink = 0, st_uid = 0, st_gid = 0, st_rdev = 0,
     st_size = 0, st_blksize = 0, st_blocks = 0, st_atime = 0, st_mtime = 0, st_ctime = 0\<rparr>"

abbreviation S_IFDIR :: u32 where "S_IFDIR \<equiv> 0x4000"
abbreviation S_IFREG :: u32 where "S_IFREG \<equiv> 0x8000"

text \<open>Permission bits 0755, 0644 and 0600.\<close>

definition stat_mode :: "cstr \<Rightarrow> u32" where
  "stat_mode path = (if path_is_dir path then S_IFDIR OR 0x1ED else S_IFREG OR 0x1A4)"

definition ramfs_dir_exists :: "ramfs \<Rightarrow> cstr \<Rightarrow> bool" where
  "ramfs_dir_exists fs path =
     (if path_is_dir path then True
      else if is_procfs path then \<not> procfs_is_file path
      else let p = skip_slashes path
           in length p < RAMFS_NAME_MAX \<and>
              list_ex (\<lambda>f. take (length p + 1) (f_name f) = p @ [0x2F]) fs)"

definition ramfs_stat :: "nat \<Rightarrow> ramfs \<Rightarrow> task \<Rightarrow> cstr \<Rightarrow> mem \<Rightarrow> (int \<times> xkern_stat) option" where
  "ramfs_stat ntasks fs t path m =
     (let st = zero_stat\<lparr>st_nlink := 1, st_blksize := 4096\<rparr>
      in if ramfs_dir_exists fs path then Some (0, st\<lparr>st_mode := S_IFDIR OR 0x1ED, st_size := 0\<rparr>)
         else if is_procfs path
         then map_option (\<lambda>n. if n < 0 then (- 1, st)
                else (0, st\<lparr>st_mode := stat_mode path, st_ino := 0, st_size := word_of_int n,
                          st_blocks := (word_of_int n + 511) div 512\<rparr>)) (procfs_fill ntasks t path m)
         else case ramfs_lookup path fs of None \<Rightarrow> Some (- 1, st)
              | Some f \<Rightarrow>
                  let i = length (takeWhile (\<lambda>g. f_name g \<noteq> skip_slashes path) fs)
                  in Some (0, st\<lparr>st_mode := stat_mode path, st_ino := of_nat i + 1, st_size := f_size f,
                                 st_blocks := (f_size f + 511) div 512\<rparr>))"

definition fs_stat :: "nat \<Rightarrow> ramfs \<Rightarrow> task \<Rightarrow> cstr \<Rightarrow> mem \<Rightarrow> (int \<times> xkern_stat) option" where
  "fs_stat = ramfs_stat"

definition fs_fstat :: "nat \<Rightarrow> ramfs \<Rightarrow> task \<Rightarrow> int \<Rightarrow> mem \<Rightarrow> (int \<times> xkern_stat) option" where
  "fs_fstat ntasks fs t fd m =
     (if \<not> fd_ok fd then Some (- 1, zero_stat)
      else let f = t_fd t ! nat fd
           in if fd_type f = 2 then Some (0, zero_stat\<lparr>st_mode := S_IFREG OR 0x180\<rparr>)
              else if fd_type f \<noteq> 1 then Some (- 1, zero_stat)
              else case List.find (\<lambda>g. f_data g = fd_data f \<and> f_size g = fd_size f) fs of
                     None \<Rightarrow> Some (- 1, zero_stat)
                   | Some g \<Rightarrow> ramfs_stat ntasks fs t (0x2F # f_name g) m)"

definition fs_access :: "ramfs \<Rightarrow> cstr \<Rightarrow> int" where
  "fs_access fs path =
     (if ramfs_dir_exists fs path then 0
      else if is_procfs path then (if procfs_exists path then 0 else - 1)
      else if ramfs_lookup path fs \<noteq> None then 0 else - 1)"

section \<open>Directories\<close>

text \<open>
  The part of a file name below the directory with the given prefix, and its first component.
\<close>

definition child_of :: "cstr \<Rightarrow> file_entry \<Rightarrow> cstr option" where
  "child_of prefix f =
     (if take (length prefix) (f_name f) = prefix then Some (drop (length prefix) (f_name f)) else None)"

definition comp_len :: "cstr \<Rightarrow> nat" where
  "comp_len c = length (takeWhile (\<lambda>x. x \<noteq> 0x2F) c)"

definition same_child :: "cstr \<Rightarrow> cstr \<Rightarrow> file_entry \<Rightarrow> bool" where
  "same_child prefix child g = (case child_of prefix g of None \<Rightarrow> False
     | Some cm \<Rightarrow> comp_len cm = comp_len child \<and> take (comp_len child) cm = take (comp_len child) child)"

fun dir_scan :: "cstr \<Rightarrow> u32 \<Rightarrow> u32 \<Rightarrow> ramfs \<Rightarrow> ramfs \<Rightarrow> u32 \<Rightarrow> (u32 \<times> cstr) option" where
  "dir_scan prefix want namelen prev [] seen = Some (0, [])"
| "dir_scan prefix want namelen prev (f # fs) seen =
     (case child_of prefix f of None \<Rightarrow> dir_scan prefix want namelen (prev @ [f]) fs seen
      | Some child \<Rightarrow>
          if child = [] \<or> list_ex (same_child prefix child) prev
          then dir_scan prefix want namelen (prev @ [f]) fs seen
          else if seen + 1 = want
          then map_option (Pair (if 0x2F \<in> set child then XKERN_DT_DIR else XKERN_DT_REG))
                 (clip_name (take (comp_len child) child) namelen)
          else dir_scan prefix want namelen (prev @ [f]) fs (seen + 1))"

definition dir_child :: "ramfs \<Rightarrow> cstr \<Rightarrow> u32 \<Rightarrow> u32 \<Rightarrow> (u32 \<times> cstr) option" where
  "dir_child fs dir index namelen =
     (let d = skip_slashes dir
      in if d \<noteq> [] \<and> RAMFS_NAME_MAX \<le> length d then Some (0, [])
         else dir_scan (if d = [] then [] else d @ [0x2F]) (index + 1) namelen [] fs 0)"

definition fs_getdents :: "task list \<Rightarrow> ramfs \<Rightarrow> cstr \<Rightarrow> u32 \<Rightarrow> u32 \<Rightarrow> (u32 \<times> cstr) option" where
  "fs_getdents tasks fs path index namelen =
     (if is_procfs path then procfs_child tasks path index namelen else dir_child fs path index namelen)"

section \<open>The argument vector of a program\<close>

abbreviation FS_MAX_ARGS :: nat where "FS_MAX_ARGS \<equiv> 32"
abbreviation FS_MAX_TOK :: nat where "FS_MAX_TOK \<equiv> 255"
abbreviation ARGV_BASE :: u64 where "ARGV_BASE \<equiv> 0x08100000"

definition blank :: "u8 \<Rightarrow> bool" where
  "blank c \<longleftrightarrow> c = 0x20 \<or> c = 9 \<or> c = 10"

text \<open>One word with quotes; \<open>sq\<close> and \<open>dq\<close> say whether a single or double quote is open.\<close>

fun argv_word :: "bool \<Rightarrow> bool \<Rightarrow> cstr \<Rightarrow> cstr \<Rightarrow> cstr \<times> cstr" where
  "argv_word sq dq acc [] = (acc, [])"
| "argv_word sq dq acc (c # p) =
     (if \<not> (sq \<or> dq \<or> \<not> blank c) then (acc, c # p)
      else if sq \<and> c = 0x27 then argv_word False dq acc p
      else if \<not> sq \<and> dq \<and> c = 0x22 then argv_word sq False acc p
      else if \<not> sq \<and> \<not> dq \<and> c = 0x27 then argv_word True dq acc p
      else if \<not> sq \<and> \<not> dq \<and> c = 0x22 then argv_word sq True acc p
      else argv_word sq dq (if length acc < FS_MAX_TOK - 1 then acc @ [c] else acc) p)"

lemma argv_word_length: "length (snd (argv_word sq dq acc p)) \<le> length p"
  by (induction sq dq acc p rule: argv_word.induct) auto

lemma argv_word_progress: "\<not> blank c \<Longrightarrow> length (snd (argv_word False False [] (c # p))) \<le> length p"
  using argv_word_length [of True False "[]" p] argv_word_length [of False True "[]" p]
    argv_word_length [of False False "[c]" p] by auto

function argv_loop :: "cstr list \<Rightarrow> cstr \<Rightarrow> cstr list" where
  "argv_loop toks p =
     (if p \<noteq> [] \<and> length toks < FS_MAX_ARGS
      then let q = dropWhile blank p
           in if q = [] then toks
              else argv_loop (toks @ [fst (argv_word False False [] q)]) (snd (argv_word False False [] q))
      else toks)"
  by pat_completeness auto
termination
proof (relation "measure (\<lambda>(toks, p). length p)", goal_cases)
  case (2 toks p q)
  then obtain c q' where q: "q = c # q'" "\<not> blank c"
    by (metis dropWhile_eq_Cons_conv list.exhaust)
  then show ?case
    using argv_word_progress [of c q'] 2(2) length_dropWhile_le [of blank p] by simp
qed simp

declare argv_loop.simps [simp del]

definition argv_tokens :: "cstr option \<Rightarrow> task \<Rightarrow> cstr list" where
  "argv_tokens argline t =
     (let toks = (case argline of None \<Rightarrow> [] | Some p \<Rightarrow> argv_loop [] p)
      in if toks = [] then [0x2F # t_name t] else toks)"

definition u64_bytes :: "u64 \<Rightarrow> u8 list" where
  "u64_bytes x = map (\<lambda>i. ucast (drop_bit (8 * i) x)) [0..<8]"

fun argv_store :: "cstr list \<Rightarrow> u64 \<Rightarrow> u64 \<Rightarrow> sys \<Rightarrow> sys option" where
  "argv_store [] arr p s = vstore arr (u64_bytes 0) s"
| "argv_store (x # xs) arr p s =
     (case vstore arr (u64_bytes p) s of None \<Rightarrow> None
      | Some s1 \<Rightarrow>
          (case vstore p (x @ [0]) s1 of None \<Rightarrow> None
           | Some s2 \<Rightarrow> argv_store xs (arr + 8) (p + of_nat (length x + 1)) s2))"

definition argv_need :: "cstr list \<Rightarrow> u64" where
  "argv_need toks = of_nat ((length toks + 1) * 8 + (\<Sum>x \<leftarrow> toks. length x + 1))"

text \<open>
  The address of the vector (0 on failure) and the number of arguments, which a failure leaves
  unset.
\<close>

definition task_build_argv :: "task \<Rightarrow> cstr option \<Rightarrow> sys \<Rightarrow> ((u64 \<times> u64 option) \<times> sys) option" where
  "task_build_argv t argline s =
     (let toks = argv_tokens argline t; need = argv_need toks
      in if 0x00100000 < need then Some ((0, None), s)
         else let old_cr3 = paging_cr3 (s_vm s)
              in case alloc_pages 2 (page_range (page_down ARGV_BASE) (ARGV_BASE + need))
                        (paging_load_cr3 (t_cr3 t) (s_vm s)) of
                   (False, vm) \<Rightarrow> Some ((0, None), s\<lparr>s_vm := paging_load_cr3 old_cr3 vm\<rparr>)
                 | (True, vm) \<Rightarrow>
                     map_option (\<lambda>s'. ((ARGV_BASE, Some (of_nat (length toks))),
                                       s'\<lparr>s_vm := paging_load_cr3 old_cr3 (s_vm s')\<rparr>))
                       (argv_store toks ARGV_BASE (ARGV_BASE + of_nat ((length toks + 1) * 8)) (s\<lparr>s_vm := vm\<rparr>)))"

section \<open>Enumerating a directory\<close>

text \<open>
  What the enumeration is meant to list: the first components of the names below the directory,
  each once, in the order of their first appearance and with the kind of that first name.
\<close>

definition component :: "cstr \<Rightarrow> cstr" where
  "component c = takeWhile (\<lambda>x. x \<noteq> 0x2F) c"

definition children :: "cstr \<Rightarrow> ramfs \<Rightarrow> cstr list" where
  "children prefix fs = filter (\<lambda>c. c \<noteq> []) (List.map_filter (child_of prefix) fs)"

fun first_occ :: "cstr list \<Rightarrow> cstr list" where
  "first_occ [] = []"
| "first_occ (c # cs) = c # filter (\<lambda>d. component d \<noteq> component c) (first_occ cs)"

definition dir_entry :: "cstr \<Rightarrow> u32 \<times> cstr" where
  "dir_entry c = (if 0x2F \<in> set c then XKERN_DT_DIR else XKERN_DT_REG, component c)"

definition dir_spec :: "cstr \<Rightarrow> ramfs \<Rightarrow> (u32 \<times> cstr) list" where
  "dir_spec prefix fs = map dir_entry (first_occ (children prefix fs))"

lemma first_occ_comps: "component ` set (first_occ cs) = component ` set cs" "distinct (map component (first_occ cs))"
proof (induction cs)
  case (Cons c cs)
  {
    case 1
    have "component ` {x \<in> set (first_occ cs). component x \<noteq> component c} = component ` set cs - {component c}"
    proof -
      have "component ` {x \<in> A. component x \<noteq> component c} = component ` A - {component c}" for A
        by auto
      then show ?thesis
        using Cons(1) by metis
    qed
    then show ?case by auto
  next
    case 2
    show ?case using Cons(2) by (auto simp: distinct_map inj_on_def)
  }
qed simp_all

lemma first_occ_filter: "first_occ (filter (\<lambda>d. component d \<notin> S) cs) = filter (\<lambda>d. component d \<notin> S) (first_occ cs)"
proof (induction cs)
  case (Cons c cs)
  show ?case
  proof (cases "component c \<in> S")
    case True
    then have "filter (\<lambda>d. component d \<notin> S \<and> component d \<noteq> component c) (first_occ cs) = filter (\<lambda>d. component d \<notin> S) (first_occ cs)"
      by (intro filter_cong) auto
    with True Cons show ?thesis
      by (simp add: filter_filter conj_commute)
  next
    case False
    with Cons show ?thesis
      by (simp add: filter_filter conj_commute)
  qed
qed simp

lemma children_Nil [simp]: "children prefix [] = []"
  by (simp add: children_def List.map_filter_def)

lemma children_Cons:
  "children prefix (f # fs) = (case child_of prefix f of None \<Rightarrow> children prefix fs
     | Some c \<Rightarrow> if c = [] then children prefix fs else c # children prefix fs)"
  by (simp add: children_def List.map_filter_def split: option.split)

lemma children_append: "children prefix (fs @ gs) = children prefix fs @ children prefix gs"
  by (simp add: children_def List.map_filter_def)

text \<open>No name below the directory has an empty component.\<close>

definition plain_names :: "cstr \<Rightarrow> ramfs \<Rightarrow> bool" where
  "plain_names prefix fs \<longleftrightarrow> (\<forall>f \<in> set fs. \<forall>c. child_of prefix f = Some c \<longrightarrow> hd0 c \<noteq> 0x2F)"

lemma take_comp_len: "take (comp_len c) c = component c"
  unfolding comp_len_def component_def by (rule takeWhile_eq_take [symmetric])

lemma same_child_iff:
  "same_child prefix c g \<longleftrightarrow> (\<exists>d. child_of prefix g = Some d \<and> component d = component c)"
proof -
  have "comp_len d = comp_len c \<and> take (comp_len c) d = take (comp_len c) c \<longleftrightarrow> component d = component c" for d
  proof
    assume "comp_len d = comp_len c \<and> take (comp_len c) d = take (comp_len c) c"
    then show "component d = component c"
      by (metis take_comp_len)
  next
    assume e: "component d = component c"
    then have "comp_len d = comp_len c"
      by (simp add: comp_len_def component_def)
    with e show "comp_len d = comp_len c \<and> take (comp_len c) d = take (comp_len c) c"
      by (metis take_comp_len)
  qed
  then show ?thesis
    by (simp add: same_child_def split: option.split)
qed

lemma comp_Nil_iff: "component c = [] \<longleftrightarrow> c = [] \<or> hd0 c = 0x2F"
  by (cases c) (auto simp: component_def hd0_def)

lemma dup_iff:
  assumes "plain_names prefix prev" "c \<noteq> []" "hd0 c \<noteq> 0x2F"
  shows "list_ex (same_child prefix c) prev \<longleftrightarrow> component c \<in> component ` set (children prefix prev)"
proof -
  have "component c \<noteq> []"
    using assms(2,3) by (simp add: comp_Nil_iff)
  then have "d \<noteq> []" if "component d = component c" for d
    using that comp_Nil_iff [of d] by metis
  moreover have "d \<in> set (children prefix prev) \<longleftrightarrow> d \<noteq> [] \<and> (\<exists>g \<in> set prev. child_of prefix g = Some d)" for d
    by (force simp: children_def map_filter_def)
  ultimately show ?thesis
    by (auto simp: list_ex_iff same_child_iff image_iff) metis+
qed

lemma dir_scan_spec:
  assumes "plain_names prefix (prev @ fs)" "\<forall>f \<in> set fs. length (f_name f) < unat namelen"
    and "unat seen + length fs < 2 ^ 32" "unat seen < unat want"
  defines "rest \<equiv> filter (\<lambda>d. component d \<notin> component ` set (children prefix prev)) (first_occ (children prefix fs))"
  shows "dir_scan prefix want namelen prev fs seen = Some
    (if unat want - unat seen - 1 < length rest then dir_entry (rest ! (unat want - unat seen - 1)) else (0, []))"
  using assms(1-4) unfolding rest_def
proof (induction fs arbitrary: prev seen)
  case Nil
  then show ?case by simp
next
  case (Cons f fs)
  have IH: "dir_scan prefix want namelen (prev @ [f]) fs seen' = Some
      (if unat want - unat seen' - 1 <
          length (filter (\<lambda>d. component d \<notin> component ` set (children prefix (prev @ [f]))) (first_occ (children prefix fs)))
       then dir_entry (filter (\<lambda>d. component d \<notin> component ` set (children prefix (prev @ [f])))
              (first_occ (children prefix fs)) ! (unat want - unat seen' - 1)) else (0, []))"
    if "unat seen' + length fs < 2 ^ 32" "unat seen' < unat want" for seen'
    using Cons.IH [of "prev @ [f]" seen'] Cons.prems(1,2) that by simp
  show ?case
  proof (cases "children prefix [f] = []")
    case True
    then have "child_of prefix f = None \<or> child_of prefix f = Some []"
      by (simp add: children_Cons split: option.splits if_splits)
    then show ?thesis
      using IH [of seen] Cons.prems(3,4) True by (auto simp: children_append children_Cons [of _ f fs])
  next
    case False
    then obtain c where c: "child_of prefix f = Some c" "c \<noteq> []" "children prefix [f] = [c]"
      by (auto simp: children_Cons split: option.splits if_splits)
    have "plain_names prefix prev" "hd0 c \<noteq> 0x2F"
      using Cons.prems(1) c(1) by (auto simp: plain_names_def)
    note dup = dup_iff [OF this(1) c(2) this(2)]
    show ?thesis
    proof (cases "component c \<in> component ` set (children prefix prev)")
      case True
      then have "filter (\<lambda>d. component d \<noteq> component c \<and> component d \<notin> component ` set (children prefix prev)) xs =
          filter (\<lambda>d. component d \<notin> component ` set (children prefix prev)) xs" for xs
        by (intro filter_cong) auto
      with True show ?thesis
        using IH [of seen] Cons.prems(3,4) c dup
        by (simp add: children_append children_Cons [of _ f fs] filter_filter insert_absorb)
    next
      case False
      have "length (component c) \<le> length (f_name f)"
        using c(1) length_takeWhile_le [of "\<lambda>x. x \<noteq> 0x2F" c]
        by (auto simp: child_of_def component_def split: if_splits)
      then have clip: "clip_name (component c) namelen = Some (component c)"
        using Cons.prems(2) by (auto simp: clip_name_def)
      have s1: "unat (seen + 1) = unat seen + 1"
        using Cons.prems(3) by (simp add: unat_word_ariths)
      have "seen + 1 = want \<longleftrightarrow> unat want - unat seen - 1 = 0"
        using Cons.prems(4) s1 by (auto simp: word_unat_eq_iff)
      then show ?thesis
        using IH [of "seen + 1"] Cons.prems(3,4) c dup False s1 clip
        by (auto simp: children_append children_Cons [of _ f fs] filter_filter take_comp_len dir_entry_def
            nth_Cons' conj_commute)
    qed
  qed
qed

text \<open>
  The same in terms of paths: \<open>below d c\<close> is the path \<open>c\<close> in the directory \<open>d\<close>, and a file makes its directory
  contain a regular entry \<open>c\<close> if it is \<open>below d c\<close>, and a directory \<open>c\<close> if it is deeper.
\<close>

definition below :: "cstr \<Rightarrow> cstr \<Rightarrow> cstr" where
  "below d c = (if d = [] then c else d @ [slash] @ c)"

definition entry_of :: "cstr \<Rightarrow> cstr \<Rightarrow> u32 \<Rightarrow> cstr \<Rightarrow> bool" where
  "entry_of d name kind c \<longleftrightarrow> c \<noteq> [] \<and> slash \<notin> set c \<and>
     (kind = XKERN_DT_REG \<and> name = below d c \<or> kind = XKERN_DT_DIR \<and> (\<exists>r. name = below d (c @ [slash] @ r)))"

lemma below_append: "below d c = below d [] @ c"
  by (simp add: below_def)

lemma child_of_below: "child_of (below d []) f = Some c \<longleftrightarrow> f_name f = below d c"
  by (auto simp: child_of_def below_append [of d c]) (metis append_take_drop_id)

lemma component_self: "slash \<notin> set c \<Longrightarrow> component c = c" "slash \<notin> set c \<Longrightarrow> component (c @ slash # r) = c"
  by (auto simp: component_def takeWhile_eq_all_conv takeWhile_append)

lemma entry_of_child:
  assumes "\<forall>r. f_name f \<noteq> below d (slash # r)"
  shows "entry_of d (f_name f) kind n \<longleftrightarrow>
    (\<exists>c. child_of (below d []) f = Some c \<and> c \<noteq> [] \<and> dir_entry c = (kind, n))"
proof
  assume "entry_of d (f_name f) kind n"
  then have n: "n \<noteq> []" "slash \<notin> set n"
      and k: "kind = XKERN_DT_REG \<and> f_name f = below d n \<or> kind = XKERN_DT_DIR \<and> (\<exists>r. f_name f = below d (n @ slash # r))"
    by (auto simp: entry_of_def)
  from k show "\<exists>c. child_of (below d []) f = Some c \<and> c \<noteq> [] \<and> dir_entry c = (kind, n)"
    unfolding child_of_below using n component_self [of n] by (auto simp: dir_entry_def)
next
  assume "\<exists>c. child_of (below d []) f = Some c \<and> c \<noteq> [] \<and> dir_entry c = (kind, n)"
  then obtain c where c: "f_name f = below d c" "c \<noteq> []" "dir_entry c = (kind, n)"
    by (auto simp: child_of_below)
  have "hd0 c \<noteq> slash"
    using c(1,2) assms by (cases c) (auto simp: hd0_def)
  then have "component c \<noteq> []"
    using c(2) comp_Nil_iff by blast
  moreover have "slash \<notin> set (component c)"
    by (auto simp: component_def dest: set_takeWhileD)
  moreover have "\<exists>r. c = component c @ slash # r" if "slash \<in> set c"
  proof -
    have "dropWhile (\<lambda>x. x \<noteq> slash) c \<noteq> []"
      using that by (auto simp: dropWhile_eq_Nil_conv)
    moreover from this have "hd (dropWhile (\<lambda>x. x \<noteq> slash) c) = slash"
      using hd_dropWhile by blast
    ultimately have "dropWhile (\<lambda>x. x \<noteq> slash) c = slash # tl (dropWhile (\<lambda>x. x \<noteq> slash) c)"
      by (metis list.collapse)
    then show ?thesis
      by (metis component_def takeWhile_dropWhile_id)
  qed
  ultimately show "entry_of d (f_name f) kind n"
    using c component_self(1) [of c] by (auto simp: entry_of_def dir_entry_def split: if_splits)
qed

lemma dir_entry_name [simp]: "snd (dir_entry c) = component c"
  by (simp add: dir_entry_def)

lemma filter_component:
  "map dir_entry (filter (\<lambda>d. component d \<noteq> n) cs) = filter (\<lambda>e. snd e \<noteq> n) (map dir_entry cs)"
  by (simp add: filter_map comp_def)

definition first_at :: "cstr \<Rightarrow> ramfs \<Rightarrow> nat \<times> u32 \<times> cstr \<Rightarrow> bool" where
  "first_at prefix fs = (\<lambda>(i, e). i < length fs \<and>
     (\<exists>c. child_of prefix (fs ! i) = Some c \<and> c \<noteq> [] \<and> dir_entry c = e) \<and>
     (\<forall>j < i. \<forall>c. child_of prefix (fs ! j) = Some c \<and> c \<noteq> [] \<longrightarrow> component c \<noteq> snd e))"

lemma first_at_Suc:
  "first_at prefix (f # fs) (Suc i, e) \<longleftrightarrow>
    first_at prefix fs (i, e) \<and> (\<forall>c. child_of prefix f = Some c \<and> c \<noteq> [] \<longrightarrow> component c \<noteq> snd e)"
  by (auto simp: first_at_def less_Suc_eq_0_disj)

lemma first_at_0: "first_at prefix (f # fs) (0, e) \<longleftrightarrow> (\<exists>c. child_of prefix f = Some c \<and> c \<noteq> [] \<and> dir_entry c = e)"
  by (simp add: first_at_def)

lemma dir_spec_indices:
  "\<exists>ps. map snd ps = dir_spec prefix fs \<and> sorted_wrt (<) (map fst ps) \<and> list_all (first_at prefix fs) ps"
proof (induction fs)
  case Nil
  show ?case by (simp add: dir_spec_def)
next
  case (Cons f fs)
  then obtain ps where ps: "map snd ps = dir_spec prefix fs" "sorted_wrt (<) (map fst ps)" "list_all (first_at prefix fs) ps"
    by blast
  define up :: "(nat \<times> u32 \<times> cstr) list \<Rightarrow> (nat \<times> u32 \<times> cstr) list" where "up = map (\<lambda>p. (Suc (fst p), snd p))"
  have up: "map snd (up qs) = map snd qs" "sorted_wrt (<) (map fst (up qs)) = sorted_wrt (<) (map fst qs)" for qs
    by (simp_all add: up_def comp_def sorted_wrt_map)
  have first: "list_all (first_at prefix (f # fs)) (up qs)"
    if "list_all (first_at prefix fs) qs"
      "\<And>p c. p \<in> set qs \<Longrightarrow> child_of prefix f = Some c \<Longrightarrow> c \<noteq> [] \<Longrightarrow> component c \<noteq> snd (snd p)" for qs
    using that by (auto simp: up_def list_all_iff first_at_Suc)
  show ?case
  proof (cases "children prefix [f]")
    case Nil
    then have none: "\<not> (child_of prefix f = Some c \<and> c \<noteq> [])" for c
      by (auto simp: children_Cons split: option.splits if_splits)
    have "dir_spec prefix (f # fs) = dir_spec prefix fs"
      using Nil by (simp add: dir_spec_def children_Cons split: option.splits if_splits)
    then show ?thesis
      using ps none first [OF ps(3)] by (intro exI [of _ "up ps"]) (auto simp: up)
  next
    case (Cons c cs)
    then have c: "child_of prefix f = Some c" "c \<noteq> []"
      by (auto simp: children_Cons split: option.splits if_splits)
    define qs where "qs = filter (\<lambda>p. snd (snd p) \<noteq> component c) ps"
    have "map snd qs = filter (\<lambda>e. snd e \<noteq> component c) (dir_spec prefix fs)"
      by (simp add: qs_def ps(1) [symmetric] filter_map comp_def)
    then have "map snd ((0, dir_entry c) # up qs) = dir_spec prefix (f # fs)"
      using c by (simp add: up dir_spec_def children_Cons filter_component)
    moreover have "sorted_wrt (<) (map fst qs)"
      using sorted_wrt_filter [of "\<lambda>p q. fst p < fst q" ps] ps(2) by (simp add: qs_def sorted_wrt_map)
    then have "sorted_wrt (<) (map fst ((0, dir_entry c) # up qs))"
      using up(2) [of qs] by (simp add: up_def)
    moreover have "list_all (first_at prefix (f # fs)) ((0, dir_entry c) # up qs)"
    proof -
      have "list_all (first_at prefix (f # fs)) (up qs)"
        by (rule first) (use ps(3) c in \<open>auto simp: qs_def list_all_iff\<close>)
      then show ?thesis
        using c by (simp add: first_at_0)
    qed
    ultimately show ?thesis
      by blast
  qed
qed

section \<open>Reading\<close>

lemma copied_apart:
  assumes "apart buf n d z" "n < 2 ^ 64"
  shows "load_bytes d z (copied buf s n m) = load_bytes d z m"
proof -
  have "\<not> unat (d + of_nat j - buf) < n" if "j < z" for j
  proof
    assume i: "unat (d + of_nat j - buf) < n"
    have "buf + of_nat (unat (d + of_nat j - buf)) = d + of_nat j"
      by simp
    with assms(1) i that show False
      unfolding apart_def by blast
  qed
  then show ?thesis
    by (simp add: load_bytes_def copied_def)
qed

lemma load_bytes_part:
  "i + j \<le> n \<Longrightarrow> load_bytes (d + of_nat i) j m = take j (drop i (load_bytes d n m))"
  by (rule nth_equalityI) (simp_all add: load_bytes_def add.assoc)

lemma load_copied: "n < 2 ^ 64 \<Longrightarrow> load_bytes d n (copied d s n m) = load_bytes s n m"
  by (simp add: load_bytes_def copied_def unat_of_nat)

lemma apart_mono: "apart d n s k \<Longrightarrow> n' \<le> n \<Longrightarrow> i + k' \<le> k \<Longrightarrow> apart d n' (s + of_nat i) k'"
proof -
  assume a: "apart d n s k" "n' \<le> n" "i + k' \<le> k"
  have "d + of_nat x \<noteq> s + of_nat (i + j)" if "x < n'" "j < k'" for x j
    using a(1) [unfolded apart_def, rule_format, of x "i + j"] a(2,3) that by linarith
  then show ?thesis
    by (simp add: apart_def add.assoc)
qed

lemma apart_upward: "apart d n s k \<Longrightarrow> n \<le> k \<Longrightarrow> upward_ok d s n"
proof -
  assume a: "apart d n s k" "n \<le> k"
  have "n \<le> unat (d - s)" if "d \<noteq> s"
  proof (rule ccontr)
    assume "\<not> n \<le> unat (d - s)"
    then have "0 < n" "unat (d - s) < k"
      using a(2) by simp_all
    from a(1) [unfolded apart_def, rule_format, OF this] show False
      by simp
  qed
  then show ?thesis
    by (auto simp: upward_ok_def)
qed

text \<open>An open descriptor on the bytes \<open>bs\<close> of a file, at position \<open>p\<close>.\<close>

definition fd_on :: "int \<Rightarrow> u64 \<Rightarrow> u8 list \<Rightarrow> nat \<Rightarrow> task \<Rightarrow> mem \<Rightarrow> bool" where
  "fd_on fd d bs p t m \<longleftrightarrow> fd_ok fd \<and> length (t_fd t) = XKERN_MAX_FDS \<and> p \<le> length bs \<and> length bs < 2 ^ 31 \<and>
     t_fd t ! nat fd = \<lparr>fd_type = 1, fd_data = d, fd_size = of_nat (length bs), fd_pos = of_nat p\<rparr> \<and>
     load_bytes d (length bs) m = bs"

lemma fs_read_step:
  assumes "fd_on fd d bs p t m" "apart buf (unat n) d (length bs)"
  defines "k \<equiv> min (unat n) (length bs - p)"
  obtains t' m' where "fs_read fd buf n t m = (int k, t', m')" "load_bytes buf k m' = take k (drop p bs)"
    "fd_on fd d bs (p + k) t' m'"
proof -
  let ?z = "length bs"
  have f: "fd_ok fd" "length (t_fd t) = XKERN_MAX_FDS" "p \<le> ?z" "?z < 2 ^ 31"
      "t_fd t ! nat fd = \<lparr>fd_type = 1, fd_data = d, fd_size = of_nat ?z, fd_pos = of_nat p\<rparr>"
      "load_bytes d ?z m = bs"
    using assms(1) by (simp_all add: fd_on_def)
  have u: "unat (of_nat j :: u32) = j" if "j \<le> ?z" for j
    using that f(4) by (simp add: unat_of_nat)
  show thesis
  proof (cases "p = ?z")
    case True
    then have "fs_read fd buf n t m = (int k, t, m)"
      using f by (simp add: fs_read_def k_def)
    with True assms(1) that show thesis
      by (simp add: k_def load_bytes_def)
  next
    case False
    then have lt: "\<not> (of_nat ?z :: u32) \<le> of_nat p"
      using f(3) by (simp add: word_le_nat_alt u)
    have av: "unat (of_nat ?z - of_nat p :: u32) = ?z - p"
      using f(3) by (simp add: unat_sub word_le_nat_alt u)
    define w where "w = (if of_nat ?z - of_nat p < n then of_nat ?z - of_nat p else n)"
    have w: "unat w = k" "sint w = int k"
    proof -
      show "unat w = k"
        using av by (simp add: w_def k_def word_less_nat_alt min_def)
      then show "sint w = int k"
        using f(4) by (simp add: sint_u32_small k_def)
    qed
    have "w = of_nat k"
      by (simp add: word_unat_eq_iff w(1) u k_def)
    then have wp: "of_nat p + w = of_nat (p + k)"
      by simp
    have "ucast (of_nat p :: u32) = (of_nat p :: u64)"
      using f(3,4) by (simp add: ucast_of_nat_32)
    define t' where "t' = t\<lparr>t_fd := (t_fd t)[nat fd := \<lparr>fd_type = 1, fd_data = d, fd_size = of_nat ?z, fd_pos = of_nat (p + k)\<rparr>]\<rparr>"
    have up: "upward_ok buf (d + of_nat p) (unat w)"
      unfolding w(1) by (rule apart_upward [OF apart_mono [OF assms(2), of k p k]]) (use f(3) in \<open>simp_all add: k_def\<close>)
    have "fs_read fd buf n t m = (int k, t', memcpy buf (d + of_nat p) w m)"
      using f(1) lt w(2) wp \<open>ucast _ = _\<close>
      by (simp add: fs_read_def f(5) Let_def t'_def w_def [symmetric])
    then have "fs_read fd buf n t m = (int k, t', copied buf (d + of_nat p) k m)"
      by (simp add: memcpy_copied [OF up] w(1))
    moreover have "k < 2 ^ 64"
      using f(4) by (simp add: k_def)
    moreover have "load_bytes (d + of_nat p) k m = take k (drop p bs)"
      using load_bytes_part [of p k ?z d m] f(3,6) by (simp add: k_def)
    moreover have "load_bytes d ?z (copied buf (d + of_nat p) k m) = bs"
      using copied_apart [OF apart_mono [OF assms(2), of k 0 ?z], of "d + of_nat p" m] f(4,6)
      by (simp add: k_def)
    moreover have "p + k \<le> ?z"
      using f(3) by (simp add: k_def)
    moreover have "nat fd < XKERN_MAX_FDS"
      using f(1) by (auto simp: fd_ok_def)
    ultimately show thesis
      using that f(1,2,4) by (simp add: load_copied fd_on_def t'_def)
  qed
qed

text \<open>A client that reads with the given request sizes and collects what it gets.\<close>

fun fs_reads :: "int \<Rightarrow> u64 \<Rightarrow> u32 list \<Rightarrow> task \<Rightarrow> mem \<Rightarrow> u8 list" where
  "fs_reads fd buf [] t m = []"
| "fs_reads fd buf (n # ns) t m =
     (case fs_read fd buf n t m of (r, t', m') \<Rightarrow> load_bytes buf (nat r) m' @ fs_reads fd buf ns t' m')"

lemma fs_reads_on:
  assumes "fd_on fd d bs p t m" "\<forall>n \<in> set ns. apart buf (unat n) d (length bs)"
  shows "fs_reads fd buf ns t m = take (\<Sum>n \<leftarrow> ns. unat n) (drop p bs)"
  using assms
proof (induction ns arbitrary: p t m)
  case (Cons n ns)
  define k where "k = min (unat n) (length bs - p)"
  from Cons.prems(2) have "apart buf (unat n) d (length bs)"
    by simp
  from fs_read_step [OF Cons.prems(1) this] obtain t' m' where
    r: "fs_read fd buf n t m = (int k, t', m')" "load_bytes buf k m' = take k (drop p bs)"
      "fd_on fd d bs (p + k) t' m'"
    unfolding k_def by metis
  have "take (unat n + s) (drop p bs) = take k (drop p bs) @ take s (drop (p + k) bs)" for s
  proof (cases "unat n \<le> length bs - p")
    case True
    then show ?thesis by (simp add: k_def take_add add.commute [of p])
  next
    case False
    then show ?thesis by (simp add: k_def)
  qed
  with r Cons.IH [OF r(3)] Cons.prems(2) show ?case
    by simp
qed simp

section \<open>Descriptor tables\<close>

text \<open>
  The invariant of a task's descriptors: sixteen slots, the first three the console, every other
  one free or a file; the type field takes no other value.
\<close>

definition fds_wf :: "task \<Rightarrow> bool" where
  "fds_wf t \<longleftrightarrow> length (t_fd t) = XKERN_MAX_FDS \<and> (\<forall>i < 3. fd_type (t_fd t ! i) = 2) \<and>
     (\<forall>i. 3 \<le> i \<longrightarrow> i < XKERN_MAX_FDS \<longrightarrow> fd_type (t_fd t ! i) \<le> 1)"

lemma find_in_set: "List.find P xs = Some x \<Longrightarrow> x \<in> set xs \<and> P x"
  by (induction xs) (auto split: if_splits)

lemma fs_alloc_fd_Some:
  assumes "fs_alloc_fd t = Some i"
  shows "3 \<le> i" "i < XKERN_MAX_FDS" "fd_type (t_fd t ! i) = 0"
  using find_in_set [OF assms [unfolded fs_alloc_fd_def]] by (auto simp del: upt_rec_numeral)

lemma fs_alloc_fd_None:
  assumes "fs_alloc_fd t = None" "3 \<le> i" "i < XKERN_MAX_FDS"
  shows "fd_type (t_fd t ! i) \<noteq> 0"
  using assms unfolding fs_alloc_fd_def find_None_iff by (metis atLeastLessThan_iff set_upt)

lemma fds_wf_update:
  assumes "fds_wf t" "3 \<le> i" "i < XKERN_MAX_FDS" "fd_type f \<le> 1"
  shows "fds_wf (t\<lparr>t_fd := (t_fd t)[i := f]\<rparr>)"
  using assms by (auto simp: fds_wf_def nth_list_update)

lemma fds_wf_file:
  assumes "fds_wf t" "fd_ok fd" "fd_type (t_fd t ! nat fd) = 1"
  shows "3 \<le> nat fd" "nat fd < XKERN_MAX_FDS"
proof -
  show "3 \<le> nat fd"
  proof (rule ccontr)
    assume "\<not> 3 \<le> nat fd"
    then have "fd_type (t_fd t ! nat fd) = 2"
      using assms(1) by (simp add: fds_wf_def)
    with assms(3) show False by simp
  qed
  show "nat fd < XKERN_MAX_FDS"
    using assms(2) by (auto simp: fd_ok_def)
qed

lemma fds_wf_open: "fds_wf t \<Longrightarrow> fs_open n fs path m t = Some (r, t') \<Longrightarrow> fds_wf t'"
  by (auto simp: fs_open_def set_fd_def dest: fs_alloc_fd_Some
      intro!: fds_wf_update split: if_splits option.splits)

lemma fds_wf_close: "fds_wf t \<Longrightarrow> fds_wf (snd (fs_close fd t))"
  by (auto simp: fs_close_def fd_ok_def intro!: fds_wf_update)

lemma fds_wf_read: "fds_wf t \<Longrightarrow> fs_read fd buf n t m = (r, t', m') \<Longrightarrow> fds_wf t'"
  using fds_wf_file [of t fd] by (auto simp: fs_read_def Let_def split: if_splits intro!: fds_wf_update)

lemma fds_wf_lseek: "fds_wf t \<Longrightarrow> fds_wf (snd (fs_lseek fd off whence t))"
  using fds_wf_file [of t fd] by (auto simp: fs_lseek_def Let_def intro!: fds_wf_update)

section \<open>Listing a directory\<close>

lemma procfs_component:
  assumes "relative d" "0 \<notin> set d" "is_procfs (replicate n slash @ d)"
  shows "takeWhile (\<lambda>x. x \<noteq> slash) d = bytes_of ''proc''"
proof -
  have p: "take 4 d = bytes_of ''proc''" "hd0 (drop 4 d) = 0 \<or> hd0 (drop 4 d) = slash"
    using assms(3) skip_slashes_replicate [OF assms(1), of n] by (simp_all add: is_procfs_def Let_def)
  have "d = bytes_of ''proc'' @ drop 4 d"
    using p(1) by (metis append_take_drop_id)
  moreover have "drop 4 d = [] \<or> hd (drop 4 d) = slash"
    using p(2) assms(2) in_set_dropD [of 0 4 d] by (cases "drop 4 d") (auto simp: hd0_def)
  ultimately show ?thesis
    by (cases "drop 4 d") (simp_all add: bytes_of_def)
qed

lemma getdents_dir:
  assumes "relative d" "length d < RAMFS_NAME_MAX" "0 \<notin> set d" "takeWhile (\<lambda>x. x \<noteq> slash) d \<noteq> bytes_of ''proc''"
    and "ramfs_ok RAMFS_MAX_FILES fs" "\<forall>f \<in> set fs. \<forall>r. f_name f \<noteq> below d (slash # r)" "index \<noteq> - 1"
  shows "fs_getdents tasks fs (replicate n slash @ d) index 256 =
    Some (if unat index < length (dir_spec (below d []) fs) then dir_spec (below d []) fs ! unat index else (0, []))"
proof -
  have len: "\<forall>f \<in> set fs. length (f_name f) < unat (256 :: u32)" "length fs < 2 ^ 32"
    using assms(5) by (auto simp: ramfs_ok_def)
  have "plain_names (below d []) fs"
    unfolding plain_names_def child_of_below
  proof (intro ballI allI impI)
    fix f c assume "f \<in> set fs" "f_name f = below d c"
    with assms(6) show "hd0 c \<noteq> 0x2F"
      by (cases c) (auto simp: hd0_def)
  qed
  moreover have "index + 1 \<noteq> 0"
    using assms(7) by (metis add_eq_0_iff2)
  then have "unat (index + 1) = unat index + 1"
    using unat_minus_one [of "index + 1"] by (simp add: unat_eq_0 flip: neq0_conv)
  moreover have "\<not> is_procfs (replicate n slash @ d)"
    using procfs_component [OF assms(1,3)] assms(4) by blast
  ultimately show ?thesis
    using dir_scan_spec [of "below d []" "[]" fs 256 0 "index + 1"] len assms(2) skip_slashes_replicate [OF assms(1), of n]
    by (cases "d = []") (simp_all add: fs_getdents_def dir_child_def Let_def dir_spec_def below_def)
qed

section \<open>Properties\<close>

text \<open>
  C21. Reading a file through a descriptor: after a successful open of a file of the boot file
  system, any sequence of reads, whatever the request sizes, returns the file's bytes in order from
  the start, each once, and never a byte beyond its end.
\<close>

theorem fs_read_file:
  assumes "length (t_fd t) = XKERN_MAX_FDS" "\<not> is_procfs path" "ramfs_lookup path fs = Some f"
    and "unat (f_size f) < 2 ^ 31" "fs_open ntasks fs path m t = Some (fd, t')" "0 \<le> fd"
    and "\<forall>n \<in> set ns. apart buf (unat n) (f_data f) (unat (f_size f))"
  shows "fs_reads fd buf ns t' m =
    take (\<Sum>n \<leftarrow> ns. unat n) (load_bytes (f_data f) (unat (f_size f)) m)"
proof -
  obtain i where i: "fs_alloc_fd t = Some i" "fd = int i" "t' = set_fd i (f_data f) (f_size f) t"
    using assms(2,3,5,6) by (auto simp: fs_open_def split: option.splits)
  define bs where "bs = load_bytes (f_data f) (unat (f_size f)) m"
  have len: "length bs = unat (f_size f)"
    by (simp add: bs_def load_bytes_def)
  have "fd_on fd (f_data f) bs 0 t' m"
    using fs_alloc_fd_Some [OF i(1)] assms(1,4) i(2,3)
    by (simp add: fd_on_def fd_ok_def set_fd_def len) (simp add: bs_def)
  from fs_reads_on [OF this, of ns buf] assms(7) show ?thesis
    by (simp add: len) (simp add: bs_def)
qed

definition demo_fs :: ramfs where
  "demo_fs = [\<lparr>f_name = bytes_of ''init'', f_data = 0x1000, f_size = 3\<rparr>,
     \<lparr>f_name = bytes_of ''bin/sh'', f_data = 0x2000, f_size = 2\<rparr>,
     \<lparr>f_name = bytes_of ''bin/ls'', f_data = 0x3000, f_size = 1\<rparr>]"

definition demo_task :: task where
  "demo_task = fs_task_init \<lparr>t_sp = 0, t_cr3 = 0x1000, t_pid = 1, t_name = bytes_of ''init'', t_stack = 0x9000,
     t_state = TASK_RUNNING, t_ticks = 0, t_arg = 0, t_vfork_parent = 0, t_fd = [], t_procbuf = 0xA000\<rparr>"

theorem fs_read_file_witness:
  "\<exists>fd t'. fs_open 2 demo_fs (bytes_of ''/init'') (\<lambda>a. ucast a + 7) demo_task = Some (fd, t') \<and>
     fs_reads fd 0x8000 [2, 2, 2] t' (\<lambda>a. ucast a + 7) = [7, 8, 9]"
proof -
  let ?m = "\<lambda>a :: u64. (ucast a + 7) :: u8"
  let ?f = "\<lparr>f_name = bytes_of ''init'', f_data = 0x1000, f_size = 3 :: u32\<rparr>"
  have p: "\<not> is_procfs (bytes_of ''/init'')" "ramfs_lookup (bytes_of ''/init'') demo_fs = Some ?f"
    "length (t_fd demo_task) = XKERN_MAX_FDS"
    by code_simp+
  have "fs_alloc_fd demo_task = Some 3"
    by code_simp
  with p obtain t' where o: "fs_open 2 demo_fs (bytes_of ''/init'') ?m demo_task = Some (3, t')"
    by (simp add: fs_open_def)
  have "\<forall>n \<in> set [2, 2, 2 :: u32]. apart 0x8000 (unat n) (f_data ?f) (unat (f_size ?f))"
    by (auto intro!: apart_above)
  from fs_read_file [OF p(3,1,2) _ o _ this] have "fs_reads 3 0x8000 [2, 2, 2] t' ?m = [7, 8, 9]"
    by (simp add: load_bytes_def upt_rec)
  with o show ?thesis
    by blast
qed

text \<open>
  C23. Listing a directory of the boot file system other than those below /proc: for the directory \<open>d\<close>, given with
  any number of leading slashes, there is a list of files of the table, in the order of the table, each with its kind
  and name, such that the calls with index 0, 1, 2, ... return these kinds and names and then 0. Each is the first
  component below \<open>d\<close> of that file's path, a regular entry if the path ends there and a directory otherwise, and no
  earlier file has that component; every component below \<open>d\<close> of any file is listed; none is listed twice. The
  table is within its bounds, the directory's path has fewer than 64 bytes, and no file has an empty component
  directly below \<open>d\<close>.
\<close>

theorem fs_getdents_enumerates:
  assumes "relative d" "length d < RAMFS_NAME_MAX" "0 \<notin> set d" "takeWhile (\<lambda>x. x \<noteq> slash) d \<noteq> bytes_of ''proc''"
    and "ramfs_ok RAMFS_MAX_FILES fs" "\<forall>f \<in> set fs. \<forall>r. f_name f \<noteq> below d (slash # r)"
  shows "\<exists>ps. sorted_wrt (<) (map fst ps) \<and> distinct (map (snd \<circ> snd) ps) \<and>
    (\<forall>index. index \<noteq> - 1 \<longrightarrow> fs_getdents tasks fs (replicate n slash @ d) index 256 =
       Some (if unat index < length ps then snd (ps ! unat index) else (0, []))) \<and>
    (\<forall>(i, kind, c) \<in> set ps. i < length fs \<and> entry_of d (f_name (fs ! i)) kind c \<and>
       (\<forall>j < i. \<forall>kind'. \<not> entry_of d (f_name (fs ! j)) kind' c)) \<and>
    (\<forall>f \<in> set fs. \<forall>kind c. entry_of d (f_name f) kind c \<longrightarrow> c \<in> (snd \<circ> snd) ` set ps)"
proof -
  let ?prefix = "below d []"
  obtain ps where ps: "map snd ps = dir_spec ?prefix fs" "sorted_wrt (<) (map fst ps)" "list_all (first_at ?prefix fs) ps"
    using dir_spec_indices by blast
  have names: "map (snd \<circ> snd) ps = map component (first_occ (children ?prefix fs))"
    using arg_cong [OF ps(1), of "map snd"] by (simp add: dir_spec_def comp_def)
  have ent: "entry_of d (f_name f) kind c \<longleftrightarrow>
      (\<exists>e. child_of ?prefix f = Some e \<and> e \<noteq> [] \<and> dir_entry e = (kind, c))" if "f \<in> set fs" for f kind c
    using assms(6) that by (intro entry_of_child) blast
  have dist: "distinct (map (snd \<circ> snd) ps)"
    unfolding names by (rule first_occ_comps(2))
  have calls: "\<forall>index. index \<noteq> - 1 \<longrightarrow> fs_getdents tasks fs (replicate n slash @ d) index 256 =
      Some (if unat index < length ps then snd (ps ! unat index) else (0, []))"
    using getdents_dir [OF assms(1-6), of _ tasks n] by (simp flip: ps(1))
  have first: "\<forall>(i, kind, c) \<in> set ps. i < length fs \<and> entry_of d (f_name (fs ! i)) kind c \<and>
       (\<forall>j < i. \<forall>kind'. \<not> entry_of d (f_name (fs ! j)) kind' c)"
  proof clarify
    fix i kind c assume "(i, kind, c) \<in> set ps"
    then have i: "i < length fs" "\<exists>e. child_of ?prefix (fs ! i) = Some e \<and> e \<noteq> [] \<and> dir_entry e = (kind, c)"
        "\<forall>j < i. \<forall>e. child_of ?prefix (fs ! j) = Some e \<and> e \<noteq> [] \<longrightarrow> component e \<noteq> c"
    proof -
      have "first_at ?prefix fs (i, kind, c)"
        using ps(3) \<open>(i, kind, c) \<in> set ps\<close> by (simp add: list_all_iff)
      then show "i < length fs" "\<exists>e. child_of ?prefix (fs ! i) = Some e \<and> e \<noteq> [] \<and> dir_entry e = (kind, c)"
        "\<forall>j < i. \<forall>e. child_of ?prefix (fs ! j) = Some e \<and> e \<noteq> [] \<longrightarrow> component e \<noteq> c"
        by (simp_all add: first_at_def)
    qed
    then show "i < length fs \<and> entry_of d (f_name (fs ! i)) kind c \<and>
       (\<forall>j < i. \<forall>kind'. \<not> entry_of d (f_name (fs ! j)) kind' c)"
      using ent by (auto simp: dir_entry_def)
  qed
  have "c \<in> (snd \<circ> snd) ` set ps" if f: "f \<in> set fs" and e: "entry_of d (f_name f) kind c" for f kind c
  proof -
    obtain e where "child_of ?prefix f = Some e" "e \<noteq> []" "component e = c"
      using ent [OF f] e by (auto simp: dir_entry_def)
    then have "c \<in> component ` set (children ?prefix fs)"
      using f by (force simp: children_def map_filter_def)
    then show ?thesis
      using arg_cong [OF names, of set] first_occ_comps(1) [of "children ?prefix fs"] by simp
  qed
  then have cover: "\<forall>f \<in> set fs. \<forall>kind c. entry_of d (f_name f) kind c \<longrightarrow> c \<in> (snd \<circ> snd) ` set ps"
    by blast
  show ?thesis
    by (intro exI [of _ ps] conjI ps(2) dist calls first cover)
qed

theorem fs_getdents_enumerates_witness:
  "\<exists>ps :: (nat \<times> u32 \<times> cstr) list. distinct (map (snd \<circ> snd) ps) \<and> bytes_of ''bin'' \<in> (snd \<circ> snd) ` set ps \<and>
     fs_getdents [] demo_fs (bytes_of ''/'') 1 256 = Some (if 1 < length ps then snd (ps ! 1) else (0, []))"
proof -
  have d: "relative []" "length ([] :: cstr) < RAMFS_NAME_MAX" "(0 :: u8) \<notin> set []"
    "takeWhile (\<lambda>x. x \<noteq> slash) [] \<noteq> bytes_of ''proc''" "ramfs_ok RAMFS_MAX_FILES demo_fs"
    "\<forall>f \<in> set demo_fs. \<forall>r. f_name f \<noteq> below [] (slash # r)"
    by (simp_all add: relative_def bytes_of_def ramfs_ok_def demo_fs_def below_def)
  obtain ps :: "(nat \<times> u32 \<times> cstr) list" where ps: "distinct (map (snd \<circ> snd) ps)"
    "\<forall>index. index \<noteq> - 1 \<longrightarrow> fs_getdents [] demo_fs (replicate 1 slash @ []) index 256 =
       Some (if unat index < length ps then snd (ps ! unat index) else (0, []))"
    "\<forall>f \<in> set demo_fs. \<forall>kind c. entry_of [] (f_name f) kind c \<longrightarrow> c \<in> (snd \<circ> snd) ` set ps"
    using fs_getdents_enumerates [OF d, of "[]" 1] by (elim exE conjE) (rule that, assumption+)
  have "demo_fs ! 1 \<in> set demo_fs" "entry_of [] (f_name (demo_fs ! 1)) XKERN_DT_DIR (bytes_of ''bin'')"
    by (simp_all add: demo_fs_def entry_of_def below_def bytes_of_def)
  then have "bytes_of ''bin'' \<in> (snd \<circ> snd) ` set ps"
    using ps(3) by blast
  moreover have "fs_getdents [] demo_fs (bytes_of ''/'') 1 256 = Some (if 1 < length ps then snd (ps ! 1) else (0, []))"
    using spec [OF ps(2), of 1] by (simp add: bytes_of_def)
  ultimately show ?thesis
    using ps(1) by blast
qed

text \<open>
  C31. Every file operation keeps the descriptor table well formed: sixteen slots, the three console
  descriptors in place (closing one has no effect) and every other slot free or a file. An open
  that succeeds returns a slot that was free, and it fails for a file that exists only if no slot
  is free.
\<close>

theorem fs_descriptors_wf:
  assumes "fds_wf t"
  shows "(\<forall>fd t'. fs_open ntasks fs path m t = Some (fd, t') \<longrightarrow> fds_wf t' \<and>
       (0 \<le> fd \<longrightarrow> 3 \<le> fd \<and> fd < 16 \<and> fd_type (t_fd t ! nat fd) = 0 \<and> fd_type (t_fd t' ! nat fd) = 1) \<and>
       (fd < 0 \<and> \<not> is_procfs path \<and> ramfs_lookup path fs \<noteq> None \<longrightarrow>
          (\<forall>i. 3 \<le> i \<and> i < 16 \<longrightarrow> fd_type (t_fd t ! i) = 1))) \<and>
    fds_wf (snd (fs_close fd t)) \<and> fds_wf (fst (snd (fs_read fd buf n t m))) \<and>
    fds_wf (snd (fs_lseek fd off whence t)) \<and> fds_wf (fs_task_init u)"
proof (intro conjI allI impI)
  fix r t' assume o: "fs_open ntasks fs path m t = Some (r, t')"
  show "fds_wf t'"
    using assms o by (rule fds_wf_open)
  have len: "length (t_fd t) = 16"
    using assms by (simp add: fds_wf_def)
  {
    assume "0 \<le> r"
    then obtain i d z where i: "fs_alloc_fd t = Some i" "r = int i" "t' = set_fd i d z t"
      using o by (auto simp: fs_open_def split: option.splits if_splits)
    then show "3 \<le> r" "r < 16" "fd_type (t_fd t ! nat r) = 0" "fd_type (t_fd t' ! nat r) = 1"
      using fs_alloc_fd_Some [OF i(1)] len by (simp_all add: set_fd_def)
  next
    fix i :: nat
    assume "r < 0 \<and> \<not> is_procfs path \<and> ramfs_lookup path fs \<noteq> None" and i: "3 \<le> i \<and> i < 16"
    then have "fs_alloc_fd t = None"
      using o by (auto simp: fs_open_def split: option.splits)
    from fs_alloc_fd_None [OF this, of i] i assms show "fd_type (t_fd t ! i) = 1"
      by (auto simp: fds_wf_def word_le_nat_alt word_unat_eq_iff dest!: spec [of _ i])
  }
next
  show "fds_wf (fst (snd (fs_read fd buf n t m)))"
    using fds_wf_read [OF assms] by (metis prod.collapse)
  show "fds_wf (fs_task_init u)"
    by (auto simp: fds_wf_def fs_task_init_def empty_fd_def nth_append)
qed (use assms in \<open>simp_all add: fds_wf_close fds_wf_lseek\<close>)

theorem fs_descriptors_wf_witness:
  "fds_wf (snd (fs_close 0 demo_task)) \<and> fds_wf (snd (fs_lseek 3 1 0 demo_task))"
proof -
  have "fds_wf demo_task"
    by (auto simp: fds_wf_def demo_task_def fs_task_init_def empty_fd_def nth_append)
  from fs_descriptors_wf [OF this, of 0 "[]" "[]" "\<lambda>_. 0" 0] fs_descriptors_wf [OF this, of 0 "[]" "[]" "\<lambda>_. 0" 3]
  show ?thesis
    by blast
qed

section \<open>The argument vector\<close>

text \<open>The bytes at an address of the current address space.\<close>

definition vbytes :: "u64 \<Rightarrow> u8 list \<Rightarrow> sys \<Rightarrow> bool" where
  "vbytes va bs s \<longleftrightarrow> (\<forall>i < length bs. vread (va + of_nat i) s = Some (bs ! i))"

lemma unat_add_of_nat:
  fixes a :: u64
  assumes "unat a + i < 2 ^ 64"
  shows "unat (a + of_nat i) = unat a + i"
  using assms by (simp add: unat_word_ariths unat_of_nat)

lemma unat_diff_less:
  fixes a u :: u64
  assumes "unat a + n < 2 ^ 64"
  shows "unat (u - a) < n \<longleftrightarrow> unat a \<le> unat u \<and> unat u < unat a + n"
proof (cases "unat a \<le> unat u")
  case True
  then show ?thesis
    by (auto simp: unat_sub word_le_nat_alt)
next
  case False
  then have "unat (u - a) = unat u + 2 ^ 64 - unat a"
    by (simp add: unat_sub_if_size word_size)
  with False assms show ?thesis
    by simp
qed

lemma vstore_bytes:
  assumes "frames_for F Y (s_vm s)" "\<forall>u. unat va \<le> unat u \<longrightarrow> unat u < unat va + length bs \<longrightarrow> page_down u \<in> Y"
    and "unat va + length bs < 2 ^ 64"
  obtains s' where "vstore va bs s = Some s'" "s_vm s' = s_vm s" "vbytes va bs s'"
    "\<forall>u. page_down u \<in> Y \<longrightarrow> unat u < unat va \<or> unat va + length bs \<le> unat u \<longrightarrow> vread u s' = vread u s"
proof -
  have pg: "\<forall>i < length bs. page_down (va + of_nat i) \<in> Y"
    using assms(2,3) by (simp add: unat_add_of_nat)
  from vstore_ok [OF assms(1) pg] assms(3) obtain s' where s': "vstore va bs s = Some s'" "s_vm s' = s_vm s"
      "\<forall>u. page_down u \<in> Y \<longrightarrow> vread u s' =
         (if unat (u - va) < length bs then Some (bs ! unat (u - va)) else vread u s)"
    by auto
  have "vbytes va bs s'"
    unfolding vbytes_def
  proof (intro allI impI)
    fix i assume i: "i < length bs"
    then have "unat (of_nat i :: u64) = i"
      using assms(3) by (simp add: unat_of_nat)
    with s'(3) pg i show "vread (va + of_nat i) s' = Some (bs ! i)"
      by simp
  qed
  with s' that show thesis
    by (simp add: unat_diff_less [OF assms(3)])
qed

lemma vbytes_keep:
  assumes "vbytes va bs s" "\<forall>i < length bs. vread (va + of_nat i) s' = vread (va + of_nat i) s"
  shows "vbytes va bs s'"
  using assms by (simp add: vbytes_def)

abbreviation toks_len :: "cstr list \<Rightarrow> nat" where
  "toks_len toks \<equiv> \<Sum>x \<leftarrow> toks. length x + 1"

definition argv_at :: "cstr list \<Rightarrow> u64 \<Rightarrow> sys \<Rightarrow> bool" where
  "argv_at toks arr s \<longleftrightarrow> vbytes (arr + of_nat (8 * length toks)) (u64_bytes 0) s \<and>
     (\<forall>i < length toks. \<exists>q. vbytes (arr + of_nat (8 * i)) (u64_bytes q) s \<and> vbytes q (toks ! i @ [0]) s)"

lemma argv_at_Cons:
  assumes "vbytes arr (u64_bytes p) s" "vbytes p (x @ [0]) s" "argv_at toks (arr + 8) s"
  shows "argv_at (x # toks) arr s"
  unfolding argv_at_def
proof (intro conjI allI impI)
  have e: "arr + of_nat (8 * Suc i) = arr + 8 + of_nat (8 * i)" for i
    by simp
  show "vbytes (arr + of_nat (8 * length (x # toks))) (u64_bytes 0) s"
    using assms(3) unfolding argv_at_def length_Cons e by blast
  fix i assume "i < length (x # toks)"
  then show "\<exists>q. vbytes (arr + of_nat (8 * i)) (u64_bytes q) s \<and> vbytes q ((x # toks) ! i @ [0]) s"
    using assms unfolding argv_at_def by (cases i) (auto simp: add.assoc)
qed

lemma argv_store_ok:
  assumes "frames_for F Y (s_vm s)" "unat arr + 8 * (length toks + 1) \<le> unat p"
    and "\<forall>u. unat arr \<le> unat u \<longrightarrow> unat u < unat p + toks_len toks \<longrightarrow> page_down u \<in> Y"
    and "unat p + toks_len toks < 2 ^ 64"
  shows "\<exists>s'. argv_store toks arr p s = Some s' \<and> s_vm s' = s_vm s \<and> argv_at toks arr s' \<and>
    (\<forall>u. page_down u \<in> Y \<longrightarrow> unat u < unat arr \<or> unat arr + 8 * (length toks + 1) \<le> unat u \<and> unat u < unat p \<longrightarrow>
       vread u s' = vread u s)"
  using assms
proof (induction toks arbitrary: arr p s)
  case Nil
  have l: "length (u64_bytes 0) = 8"
    by (simp add: u64_bytes_def)
  from Nil show ?case
    by (auto simp: l argv_at_def elim!: vstore_bytes [of F Y s arr "u64_bytes 0"])
next
  case (Cons x toks)
  have l: "length (u64_bytes p) = 8"
    by (simp add: u64_bytes_def)
  have "\<forall>u. unat arr \<le> unat u \<longrightarrow> unat u < unat arr + length (u64_bytes p) \<longrightarrow> page_down u \<in> Y"
    using Cons.prems(2,3) l by auto
  from vstore_bytes [OF Cons.prems(1) this] Cons.prems(2,4) l obtain s1 where
    s1: "vstore arr (u64_bytes p) s = Some s1" "s_vm s1 = s_vm s" "vbytes arr (u64_bytes p) s1"
      "\<forall>u. page_down u \<in> Y \<longrightarrow> unat u < unat arr \<or> unat arr + 8 \<le> unat u \<longrightarrow> vread u s1 = vread u s"
    by auto
  have "\<forall>u. unat p \<le> unat u \<longrightarrow> unat u < unat p + length (x @ [0]) \<longrightarrow> page_down u \<in> Y"
    using Cons.prems(2,3) by auto
  from vstore_bytes [OF _ this, of F s1] Cons.prems(1,4) s1(2) obtain s2 where
    s2: "vstore p (x @ [0]) s1 = Some s2" "s_vm s2 = s_vm s" "vbytes p (x @ [0]) s2"
      "\<forall>u. page_down u \<in> Y \<longrightarrow> unat u < unat p \<or> unat p + length x + 1 \<le> unat u \<longrightarrow> vread u s2 = vread u s1"
    by auto
  define p' where "p' = p + of_nat (length x + 1)"
  have u: "unat (arr + 8) = unat arr + 8" "unat p' = unat p + (length x + 1)"
    using Cons.prems(2,4) unat_add_of_nat [of arr 8] unat_add_of_nat [of p "length x + 1"] by (simp_all add: p'_def)
  from Cons.IH [of s2 "arr + 8" p'] Cons.prems u s2(2) obtain s' where
    s': "argv_store toks (arr + 8) p' s2 = Some s'" "s_vm s' = s_vm s" "argv_at toks (arr + 8) s'"
      "\<forall>u. page_down u \<in> Y \<longrightarrow> unat u < unat arr + 8 \<or>
         unat arr + 8 + 8 * (length toks + 1) \<le> unat u \<and> unat u < unat p' \<longrightarrow> vread u s' = vread u s2"
    by auto
  have k1: "vbytes arr (u64_bytes p) s'"
  proof (rule vbytes_keep [OF s1(3)], intro allI impI)
    fix i assume "i < length (u64_bytes p)"
    then have "unat (arr + of_nat i) = unat arr + i" "i < 8"
      using Cons.prems(2,4) l by (simp_all add: unat_add_of_nat)
    then show "vread (arr + of_nat i) s' = vread (arr + of_nat i) s1"
      using s'(4) s2(4) Cons.prems(2,3) by auto
  qed
  have k2: "vbytes p (x @ [0]) s'"
  proof (rule vbytes_keep [OF s2(3)], intro allI impI)
    fix i assume "i < length (x @ [0])"
    then have "unat (p + of_nat i) = unat p + i" "i < length x + 1"
      using Cons.prems(4) by (simp_all add: unat_add_of_nat)
    then show "vread (p + of_nat i) s' = vread (p + of_nat i) s2"
      using s'(4) Cons.prems(2,3) u(2) by auto
  qed
  have "argv_at (x # toks) arr s'"
    using k1 k2 s'(3) by (rule argv_at_Cons)
  moreover have "argv_store (x # toks) arr p s = Some s'"
    using s1(1) s2(1) s'(1) by (simp add: p'_def)
  moreover have "vread w s' = vread w s" if "page_down w \<in> Y"
      "unat w < unat arr \<or> unat arr + 8 * (length (x # toks) + 1) \<le> unat w \<and> unat w < unat p" for w
  proof -
    have "vread w s' = vread w s2"
      using that s'(4) Cons.prems(2) u(2) by auto
    also have "\<dots> = vread w s1"
      using that s2(4) Cons.prems(2) by auto
    also have "\<dots> = vread w s"
      using that s1(4) by auto
    finally show ?thesis .
  qed
  ultimately show ?case
    using s'(2) by blast
qed

text \<open>A command line that quotes each argument.\<close>

definition command_line :: "cstr list \<Rightarrow> cstr" where
  "command_line xs = concat (map (\<lambda>x. 0x27 # x @ [0x27, 0x20]) xs)"

lemma argv_word_quoted:
  assumes "0x27 \<notin> set x" "length acc + length x < FS_MAX_TOK"
  shows "argv_word True False acc (x @ 0x27 # r) = argv_word False False (acc @ x) r"
  using assms by (induction x arbitrary: acc) auto

lemma argv_loop_quoted:
  assumes "\<forall>x \<in> set xs. 0x27 \<notin> set x \<and> length x < FS_MAX_TOK" "length toks + length xs \<le> FS_MAX_ARGS"
    and "set bl \<subseteq> {0x20}"
  shows "argv_loop toks (bl @ command_line xs) = toks @ xs"
  using assms
proof (induction xs arbitrary: toks bl)
  case Nil
  then have "dropWhile blank bl = []"
    by (auto simp: dropWhile_eq_Nil_conv blank_def)
  then show ?case
    by (simp add: command_line_def argv_loop.simps [of toks bl])
next
  case (Cons x xs)
  define q where "q = 0x27 # x @ 0x27 # 0x20 # command_line xs"
  have c: "command_line (x # xs) = q"
    by (simp add: q_def command_line_def)
  have "dropWhile blank (bl @ q) = q"
    using Cons.prems(3) by (simp add: dropWhile_append3 q_def blank_def subset_iff)
  moreover have "argv_word False False [] q = (x, 0x20 # command_line xs)"
    using Cons.prems(1) argv_word_quoted [of x "[]" "0x20 # command_line xs"] by (simp add: q_def blank_def)
  moreover have "argv_loop (toks @ [x]) ([0x20] @ command_line xs) = (toks @ [x]) @ xs"
    using Cons.prems by (intro Cons.IH) auto
  ultimately show ?case
    using Cons.prems(2) unfolding c by (subst argv_loop.simps) (simp add: q_def)
qed

lemma length_page_range: "length (page_range a b) = (unat b - unat a + 4095) div 4096"
  by (simp add: page_range_def)

text \<open>
  C18. The arguments of a new program: from a command line that quotes each argument (at most 32 of
  them, of at most 254 bytes), \<open>task_build_argv\<close> builds, in the address space of the task, the
  vector at the fixed address: its words point to NUL-terminated copies of exactly these
  arguments, and a null pointer ends it. The caller's address space is the current one again.
\<close>

theorem task_build_argv_delivers:
  assumes "xs \<noteq> []" "length xs \<le> 32" "\<forall>x \<in> set xs. 0x27 \<notin> set x \<and> length x < 255"
    and "vm_wf (paging_load_cr3 (t_cr3 t) (s_vm s))" "12 \<le> card (pmm_frames (vm_pmm (s_vm s)))"
  shows "\<exists>s'. task_build_argv t (Some (command_line xs)) s = Some ((ARGV_BASE, Some (of_nat (length xs))), s') \<and>
    vm_cr3 (s_vm s') = vm_cr3 (s_vm s) \<and>
    argv_at xs ARGV_BASE (s'\<lparr>s_vm := paging_load_cr3 (t_cr3 t) (s_vm s')\<rparr>)"
proof -
  define need where "need = (length xs + 1) * 8 + toks_len xs"
  have toks: "argv_tokens (Some (command_line xs)) t = xs"
    using argv_loop_quoted [of xs "[]" "[]"] assms(1-3) by (simp add: argv_tokens_def)
  have "toks_len xs \<le> (\<Sum>x \<leftarrow> xs. 255)"
    using assms(3) by (intro sum_list_mono) auto
  then have need: "need \<le> 8424"
    using assms(2) by (simp add: need_def sum_list_triv)
  then have n: "unat (of_nat need :: u64) = need"
    by (simp add: unat_of_nat)
  have an: "argv_need xs = of_nat need"
    by (simp only: argv_need_def need_def)
  define top :: u64 where "top = ARGV_BASE + of_nat need"
  have top: "unat top = 0x8100000 + need"
    using need unat_add_of_nat [of ARGV_BASE need] by (simp add: top_def)
  define vm where "vm = paging_load_cr3 (t_cr3 t) (s_vm s)"
  let ?P = "page_range ARGV_BASE top"
  have lb: "loop_bound top"
    using need by (simp add: loop_bound_def top)
  have al: "page_aligned ARGV_BASE" "page_down ARGV_BASE = ARGV_BASE"
    by (simp_all add: page_aligned_def page_down_def)
  have P: "set ?P = {x. page_aligned x \<and> ARGV_BASE \<le> x \<and> x < top}"
    by (rule set_page_range [OF lb al(1)])
  have "\<forall>x \<in> set ?P. user_page x"
    using need by (auto simp: P user_page_def word_less_nat_alt top)
  moreover have "4 * length ?P \<le> card (pmm_frames (vm_pmm vm))"
  proof -
    have "(need + 4095) div 4096 \<le> 3"
      using need by simp
    then show ?thesis
      using assms(5) by (simp add: length_page_range top vm_def paging_load_cr3_def)
  qed
  moreover have "frames_for id {} vm"
    using assms(4) by (simp add: frames_for_def vm_def)
  ultimately obtain F vm' where vm': "alloc_pages 2 ?P vm = (True, vm')" "frames_for F (set ?P) vm'" "vm_cr3 vm' = vm_cr3 vm"
    using alloc_pages_ok [of id "{}" vm ?P 2] by auto
  define p :: u64 where "p = ARGV_BASE + of_nat ((length xs + 1) * 8)"
  have p: "unat p = 0x8100000 + (length xs + 1) * 8"
    using assms(2) unat_add_of_nat [of ARGV_BASE "(length xs + 1) * 8"] by (simp add: p_def del: of_nat_mult of_nat_add)
  have "page_down u \<in> set ?P" if "unat ARGV_BASE \<le> unat u" "unat u < unat p + toks_len xs" for u
  proof -
    have "0x8100000 div 4096 * 4096 \<le> unat u div 4096 * 4096"
      using that(1) by (intro mult_le_mono1 div_le_mono) simp
    moreover have "unat u div 4096 * 4096 \<le> unat u"
      by simp
    ultimately show ?thesis
      using that(2) by (simp add: P word_le_nat_alt word_less_nat_alt unat_page_down minus_mod_eq_div_mult top p need_def)
  qed
  with argv_store_ok [of F "set ?P" "s\<lparr>s_vm := vm'\<rparr>" ARGV_BASE xs p] vm'(2) p need obtain s' where
    s': "argv_store xs ARGV_BASE p (s\<lparr>s_vm := vm'\<rparr>) = Some s'" "s_vm s' = vm'" "argv_at xs ARGV_BASE s'"
    by (auto simp: need_def)
  have cr3: "paging_load_cr3 (t_cr3 t) (paging_load_cr3 c vm') = vm'" for c
    using vm'(3) by (simp add: vm_def paging_load_cr3_def)
  have keep: "s'\<lparr>s_vm := vm'\<rparr> = s'"
    using s'(2) by simp
  have le: "\<not> 0x00100000 < (of_nat need :: u64)"
    using need n by (simp add: word_less_nat_alt)
  have "task_build_argv t (Some (command_line xs)) s =
      Some ((ARGV_BASE, Some (of_nat (length xs))), s'\<lparr>s_vm := paging_load_cr3 (vm_cr3 (s_vm s)) vm'\<rparr>)"
    unfolding task_build_argv_def toks Let_def an al(2) top_def [symmetric] vm_def [symmetric] p_def [symmetric]
      if_not_P [OF le] vm'(1) prod.case bool.case s'(1) option.map s'(2) paging_cr3_def ..
  with s'(3) show ?thesis
    by (auto simp: cr3 keep) (simp add: paging_load_cr3_def)
qed

theorem task_build_argv_delivers_witness:
  "\<exists>s'. task_build_argv demo_task (Some (command_line [bytes_of ''sh'', bytes_of ''a b'']))
      \<lparr>s_vm = empty_vm (map (\<lambda>i. of_nat (4096 * i)) [2..<20]), s_ram = (\<lambda>_. 1)\<rparr> = Some ((ARGV_BASE, Some 2), s') \<and>
    argv_at [bytes_of ''sh'', bytes_of ''a b''] ARGV_BASE (s'\<lparr>s_vm := paging_load_cr3 0x1000 (s_vm s')\<rparr>)"
proof -
  let ?xs = "[bytes_of ''sh'', bytes_of ''a b'']" and ?fs = "map (\<lambda>i. of_nat (4096 * i)) [2..<20] :: u64 list"
  let ?s = "\<lparr>s_vm = empty_vm ?fs, s_ram = (\<lambda>_. 1 :: u8)\<rparr>"
  have fs: "?fs = [0x2000, 0x3000, 0x4000, 0x5000, 0x6000, 0x7000, 0x8000, 0x9000, 0xA000, 0xB000, 0xC000,
      0xD000, 0xE000, 0xF000, 0x10000, 0x11000, 0x12000, 0x13000]"
    by (simp add: upt_rec)
  have "vm_wf (empty_vm ?fs)"
    unfolding fs by (rule empty_vm_wf) (simp_all add: pmm_ok_def page_aligned_def phys_ok_def PHYS_MASK_def)
  moreover have "t_cr3 demo_task = 0x1000"
    by (simp add: demo_task_def fs_task_init_def)
  moreover have "paging_load_cr3 0x1000 (empty_vm ?fs) = empty_vm ?fs"
    by (simp add: paging_load_cr3_def empty_vm_def)
  ultimately have "vm_wf (paging_load_cr3 (t_cr3 demo_task) (s_vm ?s))"
    by simp
  moreover have "12 \<le> card (pmm_frames (vm_pmm (s_vm ?s)))"
    unfolding fs by (simp add: empty_vm_frames)
  moreover have "\<forall>x \<in> set ?xs. 0x27 \<notin> set x \<and> length x < 255"
    by (simp add: bytes_of_def)
  ultimately show ?thesis
    using task_build_argv_delivers [of ?xs demo_task ?s] by (auto simp: \<open>t_cr3 demo_task = 0x1000\<close>)
qed

end
