(* ===== verification/Osfmk_Isr.thy ===== *)
theory Osfmk_Isr
  imports Xk_Prelude
begin

text \<open>
  The interrupt, exception, system-call and context-switch stubs of osfmk/x86_64/isr.asm, on a
  machine with its general registers, the stack pointer, the control registers the stubs touch
  and a memory of 64-bit cells (the stubs only move aligned quadwords). A call into C is a
  function on the machine; what the stubs rely on is the calling convention, stated as a
  predicate. Writes to the interrupt controllers are recorded in order.
\<close>

section \<open>Machine\<close>

record regs =
  rax :: u64
  rcx :: u64
  rdx :: u64
  rbx :: u64
  rbp :: u64
  rsi :: u64
  rdi :: u64
  r8 :: u64
  r9 :: u64
  r10 :: u64
  r11 :: u64
  r12 :: u64
  r13 :: u64
  r14 :: u64
  r15 :: u64

datatype io_event = Lapic_eoi | Outb u16 u8

record cpu =
  c_regs :: regs
  c_rsp :: u64
  c_rip :: u64
  c_cs :: u64
  c_rflags :: u64
  c_ss :: u64
  c_cr2 :: u64
  c_cr3 :: u64
  c_mem :: "u64 \<Rightarrow> u64"
  c_cur :: u64
  c_frame :: u64
  c_io :: "io_event list"

definition push :: "u64 \<Rightarrow> cpu \<Rightarrow> cpu" where
  "push v c = c\<lparr>c_rsp := c_rsp c - 8, c_mem := (c_mem c)(c_rsp c - 8 := v)\<rparr>"

definition drop_slots :: "nat \<Rightarrow> cpu \<Rightarrow> cpu" where
  "drop_slots n c = c\<lparr>c_rsp := c_rsp c + of_nat (8 * n)\<rparr>"

definition cell :: "cpu \<Rightarrow> nat \<Rightarrow> u64" where
  "cell c i = c_mem c (c_rsp c + of_nat (8 * i))"

definition PUSHALL :: "cpu \<Rightarrow> cpu" where
  "PUSHALL c = (let r = c_regs c in fold push
     [rax r, rcx r, rdx r, rbx r, rbp r, rsi r, rdi r, r8 r, r9 r, r10 r, r11 r, r12 r, r13 r, r14 r, r15 r] c)"

definition POPALL :: "cpu \<Rightarrow> cpu" where
  "POPALL c = drop_slots 15 (c\<lparr>c_regs :=
     \<lparr>rax = cell c 14, rcx = cell c 13, rdx = cell c 12, rbx = cell c 11, rbp = cell c 10, rsi = cell c 9,
      rdi = cell c 8, r8 = cell c 7, r9 = cell c 6, r10 = cell c 5, r11 = cell c 4, r12 = cell c 3,
      r13 = cell c 2, r14 = cell c 1, r15 = cell c 0\<rparr>\<rparr>)"

text \<open>What the processor does on an interrupt (with an error code for some) and on \<open>iretq\<close>.\<close>

definition enter_interrupt :: "u64 option \<Rightarrow> u64 \<Rightarrow> cpu \<Rightarrow> cpu" where
  "enter_interrupt code handler c =
     (let c1 = fold push ([c_ss c, c_rsp c, c_rflags c, c_cs c, c_rip c] @ (case code of None \<Rightarrow> [] | Some e \<Rightarrow> [e])) c
      in c1\<lparr>c_rip := handler\<rparr>)"

definition iretq :: "cpu \<Rightarrow> cpu" where
  "iretq c = c\<lparr>c_rip := cell c 0, c_cs := cell c 1, c_rflags := cell c 2, c_rsp := cell c 3, c_ss := cell c 4\<rparr>"

definition ret :: "cpu \<Rightarrow> cpu" where
  "ret c = drop_slots 1 (c\<lparr>c_rip := cell c 0\<rparr>)"

section \<open>Stubs\<close>

definition set_al :: "u8 \<Rightarrow> cpu \<Rightarrow> cpu" where
  "set_al v c = c\<lparr>c_regs := (c_regs c)\<lparr>rax := (rax (c_regs c) AND NOT 0xFF) OR ucast v\<rparr>\<rparr>"

definition eoi :: "io_event list \<Rightarrow> cpu \<Rightarrow> cpu" where
  "eoi evs c = (set_al 0x20 c)\<lparr>c_io := c_io c @ evs\<rparr>"

definition irq1_handler :: "(cpu \<Rightarrow> cpu) \<Rightarrow> cpu \<Rightarrow> cpu" where
  "irq1_handler kbd c = iretq (POPALL (eoi [Lapic_eoi, Outb 0x20 0x20] (kbd (PUSHALL c))))"

definition irq12_handler :: "(cpu \<Rightarrow> cpu) \<Rightarrow> cpu \<Rightarrow> cpu" where
  "irq12_handler mouse c =
     iretq (POPALL (eoi [Lapic_eoi, Outb 0x20 0x20, Outb 0xA0 0x20] (mouse (PUSHALL c))))"

definition irq_default :: "nat \<Rightarrow> cpu \<Rightarrow> cpu" where
  "irq_default n c =
     iretq (POPALL (eoi ([Lapic_eoi, Outb 0x20 0x20] @ (if 8 \<le> n then [Outb 0xA0 0x20] else [])) (PUSHALL c)))"

definition irq_disp :: "(cpu \<Rightarrow> cpu) \<Rightarrow> nat \<Rightarrow> cpu \<Rightarrow> cpu" where
  "irq_disp dispatch n c =
     (let c1 = PUSHALL c;
          c2 = c1\<lparr>c_regs := (c_regs c1)\<lparr>rdi := (rdi (c_regs c1) AND NOT 0xFF) OR of_nat (n + 0x20)\<rparr>\<rparr>
      in iretq (POPALL (dispatch c2)))"

definition exc_no_code :: "cpu \<Rightarrow> cpu" where
  "exc_no_code c = iretq (POPALL (PUSHALL c))"

definition exc_with_code :: "cpu \<Rightarrow> cpu" where
  "exc_with_code c = iretq (drop_slots 1 (POPALL (PUSHALL c)))"

definition exc14_handler :: "(cpu \<Rightarrow> cpu) \<Rightarrow> cpu \<Rightarrow> cpu" where
  "exc14_handler page_fault c =
     (let c1 = PUSHALL c;
          c2 = c1\<lparr>c_regs := (c_regs c1)\<lparr>rdi := cell c1 15, rsi := c_cr2 c1\<rparr>, c_rsp := c_rsp c1 - 8\<rparr>
      in iretq (POPALL (drop_slots 2 (page_fault c2))))"

definition resume :: "cpu \<Rightarrow> cpu" where
  "resume c = ret (drop_slots 6 (c\<lparr>c_regs := (c_regs c)
     \<lparr>r15 := cell c 0, r14 := cell c 1, r13 := cell c 2, r12 := cell c 3, rbp := cell c 4, rbx := cell c 5\<rparr>\<rparr>))"

text \<open>The stack pointer of a task is the cell at its address, its page-table root the next one.\<close>

definition load_task :: "u64 \<Rightarrow> cpu \<Rightarrow> cpu" where
  "load_task t c = c\<lparr>c_regs := (c_regs c)\<lparr>rcx := t, rdx := c_mem c (t + 8)\<rparr>,
     c_cr3 := c_mem c (t + 8), c_rsp := c_mem c t\<rparr>"

definition cli :: "cpu \<Rightarrow> cpu" where
  "cli c = c\<lparr>c_rflags := c_rflags c AND NOT 0x200\<rparr>"

definition sched_save :: "cpu \<Rightarrow> cpu" where
  "sched_save c =
     (let r = c_regs c;
          cur = c_cur c;
          c1 = fold push [rbx r, rbp r, r12 r, r13 r, r14 r, r15 r] (c\<lparr>c_regs := r\<lparr>r10 := cur\<rparr>\<rparr>)
      in c1\<lparr>c_mem := (c_mem c1)(cur := c_rsp c1), c_regs := (c_regs c1)\<lparr>rbx := cur\<rparr>\<rparr>)"

definition sched_switch :: "(cpu \<Rightarrow> cpu) \<Rightarrow> cpu \<Rightarrow> cpu" where
  "sched_switch tick c =
     (let c3 = tick (sched_save c);
          c4 = c3\<lparr>c_regs := (c_regs c3)\<lparr>rcx := c_cur c3\<rparr>\<rparr>
      in if c_cur c4 = rbx (c_regs c4) then ret (drop_slots 6 c4)
         else resume (load_task (c_cur c4) (cli c4)))"

definition irq0_handler :: "(cpu \<Rightarrow> cpu) \<Rightarrow> (cpu \<Rightarrow> cpu) \<Rightarrow> u64 \<Rightarrow> cpu \<Rightarrow> cpu" where
  "irq0_handler pit tick after_call c =
     (let c1 = pit (PUSHALL c);
          c2 = c1\<lparr>c_regs := (c_regs c1)\<lparr>rax := c_cur c1\<rparr>\<rparr>
      in if c_cur c2 = 0 then c2 else sched_switch tick (push after_call c2))"

definition sched_start :: "cpu \<Rightarrow> cpu" where
  "sched_start c = resume (load_task (c_cur c) (cli c))"

definition irq0_resume :: "cpu \<Rightarrow> cpu" where
  "irq0_resume c = iretq (POPALL (eoi [Lapic_eoi, Outb 0x20 0x20] c))"

text \<open>
  The dispatcher gets its arguments in \<open>rdi\<close>, \<open>rsi\<close>, \<open>rdx\<close>, \<open>rcx\<close>, in the order of its
  C declaration.
\<close>

definition syscall_handler :: "(cpu \<Rightarrow> cpu) \<Rightarrow> cpu \<Rightarrow> cpu" where
  "syscall_handler dispatch c =
     (let c1 = PUSHALL c;
          c2 = c1\<lparr>c_frame := c_rsp c1, c_regs := (c_regs c1)
                 \<lparr>rdi := cell c1 8, rsi := cell c1 9, rdx := cell c1 12, rcx := cell c1 14\<rparr>\<rparr>;
          c3 = dispatch c2;
          c4 = c3\<lparr>c_mem := (c_mem c3)(c_rsp c3 + 112 := rax (c_regs c3))\<rparr>
      in if rax (c_regs c4) = 0x55550001 then resume (load_task (c_cur c4) c4)
         else iretq (POPALL c4))"

section \<open>The stack as a list\<close>

definition stack_is :: "u64 list \<Rightarrow> cpu \<Rightarrow> bool" where
  "stack_is vs c \<longleftrightarrow> length vs < 2 ^ 32 \<and> (\<forall>i < length vs. cell c i = vs ! i)"

lemma slot_inj:
  assumes "i < 2 ^ 33" "j < 2 ^ 33" "(of_nat (8 * i) :: u64) = of_nat (8 * j)"
  shows "i = j"
proof -
  have "unat (of_nat (8 * i) :: u64) = 8 * i" "unat (of_nat (8 * j) :: u64) = 8 * j"
    using assms(1,2) by (simp_all only: unat_of_nat) simp_all
  with assms(3) show ?thesis
    by simp
qed

lemma stack_is_push:
  assumes "stack_is vs c" "length vs + 1 < 2 ^ 32"
  shows "stack_is (v # vs) (push v c)"
  unfolding stack_is_def
proof (intro conjI allI impI)
  show "length (v # vs) < 2 ^ 32"
    using assms(2) by simp
  fix i assume i: "i < length (v # vs)"
  have a: "c_rsp c - 8 + of_nat (8 * Suc j) = c_rsp c + of_nat (8 * j)" for j
    by simp
  show "cell (push v c) i = (v # vs) ! i"
  proof (cases i)
    case 0
    then show ?thesis by (simp add: cell_def push_def)
  next
    case (Suc j)
    have ne: "(of_nat (8 * Suc j) :: u64) \<noteq> of_nat (8 * 0)"
      using slot_inj [of "Suc j" 0] i Suc assms(2) by auto
    have "a + w \<noteq> a" if "w \<noteq> 0" for a w :: u64
      using that by simp
    moreover have "(of_nat (8 * 0) :: u64) = 0"
      by simp
    ultimately have "c_rsp c - 8 + of_nat (8 * Suc j) \<noteq> c_rsp c - 8"
      using ne by metis
    moreover have "cell (push v c) (Suc j) = ((c_mem c)(c_rsp c - 8 := v)) (c_rsp c - 8 + of_nat (8 * Suc j))"
      by (simp add: cell_def push_def)
    ultimately have "cell (push v c) (Suc j) = cell c j"
      unfolding a cell_def by simp
    with assms(1) i Suc show ?thesis
      by (simp add: stack_is_def)
  qed
qed

lemma cell_drop [simp]: "cell (drop_slots n c) i = cell c (n + i)"
  by (simp add: cell_def drop_slots_def algebra_simps)

lemma drop_slots_fields [simp]:
  "c_regs (drop_slots n c) = c_regs c" "c_rip (drop_slots n c) = c_rip c" "c_cs (drop_slots n c) = c_cs c"
  "c_rflags (drop_slots n c) = c_rflags c" "c_ss (drop_slots n c) = c_ss c" "c_cr2 (drop_slots n c) = c_cr2 c"
  "c_cr3 (drop_slots n c) = c_cr3 c" "c_cur (drop_slots n c) = c_cur c" "c_io (drop_slots n c) = c_io c"
  "c_mem (drop_slots n c) = c_mem c"
  by (simp_all add: drop_slots_def)

lemma drop_slots_rsp [simp]: "c_rsp (drop_slots n c) = c_rsp c + of_nat (8 * n)"
  by (simp add: drop_slots_def)

lemma cell_update [simp]: "cell (c\<lparr>c_regs := r\<rparr>) i = cell c i" "cell (c\<lparr>c_rip := x\<rparr>) i = cell c i"
  by (simp_all add: cell_def)

lemma stack_is_cell: "stack_is vs c \<Longrightarrow> i < length vs \<Longrightarrow> cell c i = vs ! i"
  by (simp add: stack_is_def)

lemma stack_is_fold_push:
  "stack_is us c \<Longrightarrow> length us + length vs < 2 ^ 32 \<Longrightarrow> stack_is (rev vs @ us) (fold push vs c)"
  by (induction vs arbitrary: us c) (simp, use stack_is_push in fastforce)

lemma push_fields [simp]:
  "c_regs (push v c) = c_regs c" "c_rip (push v c) = c_rip c" "c_cs (push v c) = c_cs c"
  "c_rflags (push v c) = c_rflags c" "c_ss (push v c) = c_ss c" "c_cr2 (push v c) = c_cr2 c"
  "c_cr3 (push v c) = c_cr3 c" "c_cur (push v c) = c_cur c" "c_io (push v c) = c_io c"
  "c_rsp (push v c) = c_rsp c - 8"
  by (simp_all add: push_def)

lemma fold_push_fields [simp]:
  "c_regs (fold push vs c) = c_regs c" "c_rip (fold push vs c) = c_rip c" "c_cs (fold push vs c) = c_cs c"
  "c_rflags (fold push vs c) = c_rflags c" "c_ss (fold push vs c) = c_ss c" "c_cr2 (fold push vs c) = c_cr2 c"
  "c_cr3 (fold push vs c) = c_cr3 c" "c_cur (fold push vs c) = c_cur c" "c_io (fold push vs c) = c_io c"
  "c_rsp (fold push vs c) = c_rsp c - of_nat (8 * length vs)"
  by (induction vs arbitrary: c) (simp_all add: push_def)

text \<open>
  The calling convention, as far as the stubs rely on it: a C function keeps the stack pointer, the
  callee-saved registers and the caller's part of the stack (of which thirty-two slots from the stack
  pointer on are needed).
\<close>

definition c_abi :: "(cpu \<Rightarrow> cpu) \<Rightarrow> bool" where
  "c_abi f \<longleftrightarrow> (\<forall>c. c_rsp (f c) = c_rsp c \<and> (\<forall>i < 32. cell (f c) i = cell c i) \<and>
     rbx (c_regs (f c)) = rbx (c_regs c) \<and> rbp (c_regs (f c)) = rbp (c_regs c) \<and>
     r12 (c_regs (f c)) = r12 (c_regs c) \<and> r13 (c_regs (f c)) = r13 (c_regs c) \<and>
     r14 (c_regs (f c)) = r14 (c_regs c) \<and> r15 (c_regs (f c)) = r15 (c_regs c))"

lemma c_abi_stack: "c_abi f \<Longrightarrow> stack_is vs c \<Longrightarrow> length vs \<le> 32 \<Longrightarrow> stack_is vs (f c)"
  by (simp add: c_abi_def stack_is_def)

text \<open>The saved registers in the order of the frame, and the frame the processor pushed.\<close>

definition saved :: "regs \<Rightarrow> u64 list" where
  "saved r = [r15 r, r14 r, r13 r, r12 r, r11 r, r10 r, r9 r, r8 r, rdi r, rsi r, rbp r, rbx r, rdx r, rcx r, rax r]"

definition iframe :: "cpu \<Rightarrow> u64 list" where
  "iframe c = [c_rip c, c_cs c, c_rflags c, c_rsp c, c_ss c]"

lemma length_saved [simp]: "length (saved r) = 15" "length (iframe c) = 5"
  by (simp_all add: saved_def iframe_def)

lemma stack_is_Nil [simp]: "stack_is [] c"
  by (simp add: stack_is_def)

lemma enter_stack:
  "stack_is ((case code of None \<Rightarrow> [] | Some e \<Rightarrow> [e]) @ iframe c) (enter_interrupt code h c)"
proof -
  have "stack_is (rev vs) (fold push vs c)" if "length vs < 10" for vs
    using stack_is_fold_push [of "[]" c vs] that by simp
  from this [of "[c_ss c, c_rsp c, c_rflags c, c_cs c, c_rip c] @ (case code of None \<Rightarrow> [] | Some e \<Rightarrow> [e])"]
  show ?thesis
    by (auto simp: enter_interrupt_def iframe_def stack_is_def cell_def Let_def split: option.splits)
qed

lemma PUSHALL_stack: "stack_is vs c \<Longrightarrow> length vs \<le> 22 \<Longrightarrow> stack_is (saved (c_regs c) @ vs) (PUSHALL c)"
  using stack_is_fold_push [of vs c "rev (saved (c_regs c))"] by (simp add: PUSHALL_def saved_def Let_def)

lemma POPALL_regs:
  assumes "stack_is (saved r @ vs) c"
  shows "c_regs (POPALL c) = r" "stack_is vs (POPALL c)"
proof -
  have "cell c i = saved r ! i" if "i < 15" for i
    using stack_is_cell [OF assms, of i] that by (simp add: nth_append)
  then show "c_regs (POPALL c) = r"
    by (simp add: POPALL_def saved_def)
  have "stack_is (drop 15 (saved r @ vs)) (drop_slots 15 c)"
    using assms by (auto simp: stack_is_def nth_append)
  then show "stack_is vs (POPALL c)"
    by (simp add: POPALL_def stack_is_def cell_def drop_slots_def)
qed

lemma iretq_frame:
  assumes "stack_is (iframe c0) c"
  shows "c_rip (iretq c) = c_rip c0" "c_cs (iretq c) = c_cs c0" "c_rflags (iretq c) = c_rflags c0"
    "c_rsp (iretq c) = c_rsp c0" "c_ss (iretq c) = c_ss c0" "c_regs (iretq c) = c_regs c"
  using stack_is_cell [OF assms] by (simp_all add: iretq_def iframe_def)

text \<open>The machine an interrupted program sees when it continues.\<close>

definition resumes :: "cpu \<Rightarrow> cpu \<Rightarrow> bool" where
  "resumes c c' \<longleftrightarrow> c_regs c' = c_regs c \<and> c_rip c' = c_rip c \<and> c_cs c' = c_cs c \<and>
     c_rflags c' = c_rflags c \<and> c_rsp c' = c_rsp c \<and> c_ss c' = c_ss c"

lemma stub_transparent:
  assumes "stack_is (saved (c_regs c) @ iframe c) c1"
  shows "resumes c (iretq (POPALL c1))"
  using POPALL_regs [OF assms] iretq_frame [of c "POPALL c1"] by (simp add: resumes_def)

lemma eoi_stack [simp]: "stack_is vs (eoi evs c) = stack_is vs c"
  by (simp add: stack_is_def cell_def eoi_def set_al_def)

lemma regs_stack [simp]: "stack_is vs (c\<lparr>c_regs := r\<rparr>) = stack_is vs c"
  by (simp add: stack_is_def cell_def)

lemma irq_stack:
  assumes "c_regs c1 = c_regs c" "stack_is vs c1" "length vs \<le> 22"
  shows "stack_is (saved (c_regs c) @ vs) (PUSHALL c1)"
  using PUSHALL_stack [OF assms(2,3)] assms(1) by simp

lemma enter_regs [simp]: "c_regs (enter_interrupt code h c) = c_regs c"
  by (simp add: enter_interrupt_def Let_def)

text \<open>
  The \<open>sp\<close> field of a task lies outside of the \<open>n\<close> slots of the stack from the last of the six registers on
  that a suspension saves.
\<close>

definition off_stack :: "nat \<Rightarrow> u64 \<Rightarrow> cpu \<Rightarrow> bool" where
  "off_stack n t c \<longleftrightarrow> (\<forall>i < n. c_rsp c - 48 + of_nat (8 * i) \<noteq> t)"

text \<open>The registers a suspension saves, in the order of the stack.\<close>

definition callee_saved :: "regs \<Rightarrow> u64 list" where
  "callee_saved r = [r15 r, r14 r, r13 r, r12 r, rbp r, rbx r]"

lemma length_callee_saved [simp]: "length (callee_saved r) = 6"
  by (simp add: callee_saved_def)

lemma sched_save_fields:
  "c_rsp (sched_save c) = c_rsp c - 48" "c_mem (sched_save c) (c_cur c) = c_rsp c - 48"
  "c_cur (sched_save c) = c_cur c" "rbx (c_regs (sched_save c)) = c_cur c"
  by (simp_all add: sched_save_def Let_def)

lemma sched_save_stack:
  assumes "stack_is vs c" "off_stack (6 + length vs) (c_cur c) c" "length vs \<le> 32"
  shows "stack_is (callee_saved (c_regs c) @ vs) (sched_save c)"
proof -
  let ?r = "c_regs c"
  let ?vs = "[rbx ?r, rbp ?r, r12 ?r, r13 ?r, r14 ?r, r15 ?r]"
  define c0 where "c0 = c\<lparr>c_regs := ?r\<lparr>r10 := c_cur c\<rparr>\<rparr>"
  define c1 where "c1 = fold push ?vs c0"
  have "stack_is vs c0"
    using assms(1) by (simp add: c0_def)
  then have st: "stack_is (rev ?vs @ vs) c1"
    unfolding c1_def by (rule stack_is_fold_push) (use assms(3) in simp)
  have rsp: "c_rsp c1 = c_rsp c - 48"
    by (simp add: c1_def c0_def)
  have s: "sched_save c = c1\<lparr>c_mem := (c_mem c1)(c_cur c := c_rsp c1), c_regs := (c_regs c1)\<lparr>rbx := c_cur c\<rparr>\<rparr>"
    by (simp add: sched_save_def c1_def c0_def Let_def)
  have "cell (sched_save c) i = cell c1 i" if "i < 6 + length vs" for i
    using assms(2) that by (simp add: s cell_def rsp off_stack_def)
  with st show ?thesis
    by (simp add: stack_is_def callee_saved_def)
qed

lemma stack_is_append: "stack_is (us @ vs) c \<Longrightarrow> stack_is vs (drop_slots (length us) c)"
  unfolding stack_is_def by (auto simp: nth_append)

lemma ret_stack:
  assumes "stack_is (ra # vs) c"
  shows "c_rip (ret c) = ra" "c_rsp (ret c) = c_rsp c + 8" "stack_is vs (ret c)" "c_regs (ret c) = c_regs c" "c_cr3 (ret c) = c_cr3 c"
  using stack_is_cell [OF assms, of 0] stack_is_append [of "[ra]" vs c] assms
  by (simp_all add: ret_def stack_is_def)

lemma resume_stack:
  assumes "stack_is (callee_saved r @ ra # vs) c"
  shows "c_regs (resume c) = (c_regs c)\<lparr>r15 := r15 r, r14 := r14 r, r13 := r13 r, r12 := r12 r, rbp := rbp r, rbx := rbx r\<rparr>"
    "c_rip (resume c) = ra" "c_rsp (resume c) = c_rsp c + 56" "c_cr3 (resume c) = c_cr3 c" "stack_is vs (resume c)"
proof -
  define c1 where "c1 = drop_slots 6 (c\<lparr>c_regs := (c_regs c)
     \<lparr>r15 := cell c 0, r14 := cell c 1, r13 := cell c 2, r12 := cell c 3, rbp := cell c 4, rbx := cell c 5\<rparr>\<rparr>)"
  have "stack_is (ra # vs) c1"
    using stack_is_append [of "callee_saved r" "ra # vs" c] assms
    by (simp add: c1_def stack_is_def cell_def drop_slots_def)
  note r = ret_stack [OF this]
  have res: "resume c = ret c1"
    by (simp add: resume_def c1_def)
  show "c_rip (resume c) = ra" "stack_is vs (resume c)" "c_rsp (resume c) = c_rsp c + 56" "c_cr3 (resume c) = c_cr3 c"
    using r unfolding res by (simp_all add: c1_def)
  show "c_regs (resume c) = (c_regs c)\<lparr>r15 := r15 r, r14 := r14 r, r13 := r13 r, r12 := r12 r, rbp := rbp r, rbx := rbx r\<rparr>"
    using r(4) stack_is_cell [OF assms, of 0] stack_is_cell [OF assms, of 1] stack_is_cell [OF assms, of 2]
      stack_is_cell [OF assms, of 3] stack_is_cell [OF assms, of 4] stack_is_cell [OF assms, of 5]
    unfolding res by (simp add: c1_def callee_saved_def)
qed

lemma resume_cells:
  assumes "stack_is [a15, a14, a13, a12, abp, abx, ra] c"
  shows "c_regs (resume c) = (c_regs c)\<lparr>r15 := a15, r14 := a14, r13 := a13, r12 := a12, rbp := abp, rbx := abx\<rparr>"
    "c_rip (resume c) = ra"
  using stack_is_cell [OF assms] by (simp_all add: resume_def ret_def)

text \<open>Keeping the task: the call returns, with the stack and all callee-saved registers but \<open>rbx\<close> as they were.\<close>

lemma sched_switch_same:
  assumes "c_abi tick" "stack_is (ra # vs) c" "length vs \<le> 20" "off_stack (7 + length vs) (c_cur c) c"
    and "c_cur (tick (sched_save c)) = c_cur c"
  shows "c_rip (sched_switch tick c) = ra" "c_rsp (sched_switch tick c) = c_rsp c + 8" "stack_is vs (sched_switch tick c)"
    "rbx (c_regs (sched_switch tick c)) = c_cur c"
proof -
  define c3 where "c3 = tick (sched_save c)"
  define c4 where "c4 = drop_slots 6 (c3\<lparr>c_regs := (c_regs c3)\<lparr>rcx := c_cur c3\<rparr>\<rparr>)"
  have c3: "rbx (c_regs c3) = c_cur c" "c_rsp c3 = c_rsp c - 48" "c_cur c3 = c_cur c"
    using assms(1,5) sched_save_fields [of c] by (simp_all add: c3_def c_abi_def)
  have "stack_is (callee_saved (c_regs c) @ ra # vs) (sched_save c)"
    using sched_save_stack [OF assms(2)] assms(3,4) by simp
  then have "stack_is (callee_saved (c_regs c) @ ra # vs) c3"
    unfolding c3_def using assms(3) by (intro c_abi_stack [OF assms(1)]) simp_all
  then have "stack_is (ra # vs) c4"
    using stack_is_append [of "callee_saved (c_regs c)" "ra # vs" c3] by (simp add: c4_def stack_is_def cell_def drop_slots_def)
  note r = ret_stack [OF this]
  have sw: "sched_switch tick c = ret c4"
    using c3 by (simp add: sched_switch_def Let_def c4_def flip: c3_def)
  show "c_rip (sched_switch tick c) = ra" "c_rsp (sched_switch tick c) = c_rsp c + 8" "stack_is vs (sched_switch tick c)"
    "rbx (c_regs (sched_switch tick c)) = c_cur c"
    using r c3 unfolding sw by (simp_all add: c4_def)
qed

text \<open>
  Leaving a task and coming back: \<open>undisturbed n c m m'\<close> says that from memory \<open>m\<close> to \<open>m'\<close> the \<open>sp\<close> field of the task
  that called \<open>sched_switch\<close> in \<open>c\<close>, and \<open>n\<close> slots of its stack from the last saved register on, did not change.
\<close>

definition undisturbed :: "nat \<Rightarrow> cpu \<Rightarrow> (u64 \<Rightarrow> u64) \<Rightarrow> (u64 \<Rightarrow> u64) \<Rightarrow> bool" where
  "undisturbed n c m m' \<longleftrightarrow> m' (c_cur c) = m (c_cur c) \<and>
     (\<forall>i < n. m' (c_rsp c - 48 + of_nat (8 * i)) = m (c_rsp c - 48 + of_nat (8 * i)))"

lemma sched_switch_other:
  assumes "c_abi tick" "c_cur (tick (sched_save c)) \<noteq> c_cur c"
  shows "sched_switch tick c = resume (load_task (c_cur (tick (sched_save c)))
      (cli ((tick (sched_save c))\<lparr>c_regs := (c_regs (tick (sched_save c)))\<lparr>rcx := c_cur (tick (sched_save c))\<rparr>\<rparr>)))"
    and "c_mem (sched_switch tick c) = c_mem (tick (sched_save c))"
proof -
  have "rbx (c_regs (tick (sched_save c))) = c_cur c"
    using assms(1) sched_save_fields(4) by (simp add: c_abi_def)
  then show "sched_switch tick c = resume (load_task (c_cur (tick (sched_save c)))
      (cli ((tick (sched_save c))\<lparr>c_regs := (c_regs (tick (sched_save c)))\<lparr>rcx := c_cur (tick (sched_save c))\<rparr>\<rparr>)))"
    using assms(2) by (simp add: sched_switch_def Let_def)
  then show "c_mem (sched_switch tick c) = c_mem (tick (sched_save c))"
    by (simp add: resume_def ret_def load_task_def cli_def)
qed

lemma sched_switch_back:
  assumes "c_abi tick" "c_abi tick'" "stack_is (ra # vs) c" "length vs \<le> 20" "off_stack (7 + length vs) (c_cur c) c"
    and "c_cur (tick (sched_save c)) \<noteq> c_cur c" "c_mem (tick (sched_save c)) (c_cur c) = c_mem (sched_save c) (c_cur c)"
    and "c_cur d \<noteq> c_cur c" "c_cur (tick' (sched_save d)) = c_cur c"
    and "undisturbed (7 + length vs) c (c_mem (sched_switch tick c)) (c_mem (tick' (sched_save d)))"
  defines "c' \<equiv> sched_switch tick' d"
  shows "c_rip c' = ra" "c_rsp c' = c_rsp c + 8" "stack_is vs c'" "c_cr3 c' = c_mem (tick' (sched_save d)) (c_cur c + 8)"
    "callee_saved (c_regs c') = callee_saved (c_regs c)"
proof -
  define e where "e = load_task (c_cur c) (cli ((tick' (sched_save d))\<lparr>c_regs := (c_regs (tick' (sched_save d)))\<lparr>rcx := c_cur c\<rparr>\<rparr>))"
  have c': "c' = resume e"
    using sched_switch_other(1) [OF assms(2), of d] assms(8,9) by (simp add: c'_def e_def)
  have m: "c_mem e = c_mem (tick' (sched_save d))" "c_cr3 e = c_mem (tick' (sched_save d)) (c_cur c + 8)"
    by (simp_all add: e_def load_task_def cli_def)
  have rsp: "c_rsp e = c_rsp c - 48"
    using assms(7,10) sched_save_fields(2) [of c] sched_switch_other(2) [OF assms(1,6)]
    by (simp add: undisturbed_def e_def load_task_def cli_def)
  have "stack_is (callee_saved (c_regs c) @ ra # vs) (sched_save c)"
    using sched_save_stack [OF assms(3)] assms(4,5) by simp
  then have "stack_is (callee_saved (c_regs c) @ ra # vs) (tick (sched_save c))"
    using assms(4) by (intro c_abi_stack [OF assms(1)]) simp_all
  moreover have "cell e i = cell (tick (sched_save c)) i" if "i < 7 + length vs" for i
    using assms(1,10) that sched_save_fields(1) [of c] sched_switch_other(2) [OF assms(1,6)]
    by (simp add: cell_def undisturbed_def m rsp c_abi_def)
  ultimately have "stack_is (callee_saved (c_regs c) @ ra # vs) e"
    by (simp add: stack_is_def)
  note r = resume_stack [OF this]
  show "c_rip c' = ra" "c_rsp c' = c_rsp c + 8" "stack_is vs c'" "c_cr3 c' = c_mem (tick' (sched_save d)) (c_cur c + 8)"
    "callee_saved (c_regs c') = callee_saved (c_regs c)"
    using r unfolding c' by (simp_all add: rsp m callee_saved_def)
qed

text \<open>The machine at the call of \<open>sched_switch\<close> in the timer stub.\<close>

definition timer_call :: "(cpu \<Rightarrow> cpu) \<Rightarrow> u64 \<Rightarrow> cpu \<Rightarrow> cpu" where
  "timer_call pit after_call c =
     (let c1 = pit (PUSHALL c) in push after_call (c1\<lparr>c_regs := (c_regs c1)\<lparr>rax := c_cur c1\<rparr>\<rparr>))"

lemma irq0_handler_call:
  "irq0_handler pit tick after_call c =
    (if c_cur (pit (PUSHALL c)) = 0 then (pit (PUSHALL c))\<lparr>c_regs := (c_regs (pit (PUSHALL c)))\<lparr>rax := 0\<rparr>\<rparr>
     else sched_switch tick (timer_call pit after_call c))"
  by (simp add: irq0_handler_def timer_call_def Let_def)

lemma timer_call_stack:
  assumes "c_abi f"
  shows "stack_is (ra # saved (c_regs c) @ iframe c) (timer_call f ra (enter_interrupt None h c))"
    "c_rsp (timer_call f ra (enter_interrupt None h c)) = c_rsp c - 168"
proof -
  define c1 where "c1 = PUSHALL (enter_interrupt None h c)"
  have "stack_is (saved (c_regs c) @ iframe c) c1"
    using irq_stack [OF enter_regs enter_stack [of None c h]] by (simp add: c1_def)
  then have "stack_is (saved (c_regs c) @ iframe c) (f c1)"
    by (rule c_abi_stack [OF assms]) simp
  then show "stack_is (ra # saved (c_regs c) @ iframe c) (timer_call f ra (enter_interrupt None h c))"
    unfolding timer_call_def Let_def c1_def [symmetric] by (intro stack_is_push) simp_all
  have "c_rsp c1 = c_rsp c - 160"
    by (simp add: c1_def PUSHALL_def enter_interrupt_def Let_def)
  then show "c_rsp (timer_call f ra (enter_interrupt None h c)) = c_rsp c - 168"
    using assms unfolding timer_call_def Let_def c1_def [symmetric] by (simp add: c_abi_def)
qed

lemma irq0_resume_transparent: "stack_is (saved (c_regs c) @ iframe c) c1 \<Longrightarrow> resumes c (irq0_resume c1)"
  unfolding irq0_resume_def by (rule stub_transparent) simp

section \<open>Properties\<close>

text \<open>
  C9. Interrupts are transparent, page faults excepted: for the keyboard, mouse, default and dispatched interrupts,
  for exceptions with and without an error code other than the page fault, and for the timer as long as no other
  task is chosen, whatever the C handlers do within the calling convention, the interrupted program continues with
  every register, the flags, the stack and the instruction pointer it had. For the timer, the C functions leave
  the current task alone, and if there is one, its \<open>sp\<close> field is not on the part of the stack in use; the scheduler
  then returns into the stub. (Page faults shift the registers, as shown below, and a timer interrupt that switches
  to another task is described with \<open>sched_switch\<close>.)
\<close>

theorem interrupts_transparent:
  assumes "c_abi f" "c_abi tick" "n < 16"
  shows "resumes c (irq1_handler f (enter_interrupt None h c)) \<and>
    resumes c (irq12_handler f (enter_interrupt None h c)) \<and>
    resumes c (irq_default n (enter_interrupt None h c)) \<and>
    resumes c (irq_disp f n (enter_interrupt None h c)) \<and>
    resumes c (exc_no_code (enter_interrupt None h c)) \<and>
    resumes c (exc_with_code (enter_interrupt (Some e) h c)) \<and>
    ((\<forall>x. c_cur (f x) = c_cur x) \<and> (\<forall>x. c_cur (tick x) = c_cur x) \<and>
       (c_cur c = 0 \<or> off_stack 27 (c_cur c) (c\<lparr>c_rsp := c_rsp c - 168\<rparr>)) \<longrightarrow>
     resumes c (irq0_resume (irq0_handler f tick ra (enter_interrupt None h c))) \<and>
     (c_cur c \<noteq> 0 \<longrightarrow> c_rip (irq0_handler f tick ra (enter_interrupt None h c)) = ra))"
proof -
  have st: "stack_is (saved (c_regs c) @ iframe c) (PUSHALL (enter_interrupt None h c))"
    using irq_stack [OF enter_regs enter_stack [of None c h]] by simp
  have sf: "stack_is (saved (c_regs c) @ iframe c) (f c1)" if "stack_is (saved (c_regs c) @ iframe c) c1" for c1
    using c_abi_stack [OF assms(1) that] by simp
  have "stack_is (saved (c_regs c) @ e # iframe c) (PUSHALL (enter_interrupt (Some e) h c))"
    using irq_stack [OF enter_regs enter_stack [of "Some e" c h]] by simp
  from POPALL_regs [OF this] have p:
    "c_regs (POPALL (PUSHALL (enter_interrupt (Some e) h c))) = c_regs c"
    "stack_is (iframe c) (drop_slots 1 (POPALL (PUSHALL (enter_interrupt (Some e) h c))))"
    by (auto simp: stack_is_def)
  have "resumes c (exc_with_code (enter_interrupt (Some e) h c))"
    using iretq_frame [OF p(2)] p(1) by (simp add: resumes_def exc_with_code_def)
  moreover have "resumes c (irq1_handler f (enter_interrupt None h c))"
    "resumes c (irq12_handler f (enter_interrupt None h c))"
    unfolding irq1_handler_def irq12_handler_def by (rule stub_transparent, simp add: sf st)+
  moreover have "resumes c (irq_default n (enter_interrupt None h c))"
    "resumes c (exc_no_code (enter_interrupt None h c))"
    unfolding irq_default_def exc_no_code_def by (rule stub_transparent, simp add: st)+
  moreover have "resumes c (irq_disp f n (enter_interrupt None h c))"
    unfolding irq_disp_def Let_def by (rule stub_transparent, rule sf, simp add: st)
  moreover have "resumes c (irq0_resume (irq0_handler f tick ra (enter_interrupt None h c))) \<and>
      (c_cur c \<noteq> 0 \<longrightarrow> c_rip (irq0_handler f tick ra (enter_interrupt None h c)) = ra)"
    if cur: "\<forall>x. c_cur (f x) = c_cur x" "\<forall>x. c_cur (tick x) = c_cur x"
      and off: "c_cur c = 0 \<or> off_stack 27 (c_cur c) (c\<lparr>c_rsp := c_rsp c - 168\<rparr>)"
  proof -
    define s where "s = timer_call f ra (enter_interrupt None h c)"
    have c1: "c_cur (f (PUSHALL (enter_interrupt None h c))) = c_cur c" "c_cur s = c_cur c"
      using cur(1) by (simp_all add: s_def timer_call_def PUSHALL_def enter_interrupt_def Let_def)
    show ?thesis
    proof (cases "c_cur c = 0")
      case True
      then show ?thesis
        using c1 sf [OF st] by (simp add: irq0_handler_call irq0_resume_transparent)
    next
      case False
      have t: "irq0_handler f tick ra (enter_interrupt None h c) = sched_switch tick s"
        using False c1 by (simp add: irq0_handler_call s_def)
      note s = timer_call_stack [OF assms(1), where ra = ra and c = c and h = h, folded s_def]
      have "off_stack (7 + length (saved (c_regs c) @ iframe c)) (c_cur s) s"
        using off False s(2) c1 by (simp add: off_stack_def)
      from sched_switch_same [OF assms(2) s(1) _ this] show ?thesis
        unfolding t using cur(2) by (simp add: irq0_resume_transparent sched_save_fields)
    qed
  qed
  ultimately show ?thesis
    by blast
qed

definition demo_cpu :: cpu where
  "demo_cpu = \<lparr>c_regs = \<lparr>rax = 1, rcx = 2, rdx = 3, rbx = 4, rbp = 5, rsi = 6, rdi = 7, r8 = 8, r9 = 9, r10 = 10,
     r11 = 11, r12 = 12, r13 = 13, r14 = 14, r15 = 15\<rparr>, c_rsp = 0x9000, c_rip = 0x400000, c_cs = 8, c_rflags = 0x202,
     c_ss = 16, c_cr2 = 0xDEAD000, c_cr3 = 0x1000, c_mem = (\<lambda>_. 0), c_cur = 0x7000, c_frame = 0, c_io = []\<rparr>"

definition demo_call :: "cpu \<Rightarrow> cpu" where
  "demo_call c = c\<lparr>c_regs := (c_regs c)\<lparr>rax := 99, rcx := 98, r11 := 97\<rparr>\<rparr>"

lemma demo_call_abi: "c_abi demo_call"
  by (simp add: c_abi_def demo_call_def cell_def)

lemma demo_off_stack: "off_stack 7 (c_cur demo_cpu) demo_cpu"
proof -
  have "\<forall>i \<in> {0, 1, 2, 3, 4, 5, 6}. c_rsp demo_cpu - 48 + of_nat (8 * i) \<noteq> c_cur demo_cpu"
    by (simp add: demo_cpu_def)
  moreover have "i \<in> {0, 1, 2, 3, 4, 5, 6}" if "i < 7" for i :: nat
    using that by auto
  ultimately show ?thesis
    unfolding off_stack_def by blast
qed

lemma demo_off_timer_stack: "off_stack 27 (c_cur demo_cpu) (demo_cpu\<lparr>c_rsp := c_rsp demo_cpu - 168\<rparr>)"
proof -
  have "list_all (\<lambda>i. (0x8F28 :: u64) + of_nat (8 * i) \<noteq> 0x7000) [0..<27]"
    by code_simp
  then show ?thesis
    by (simp add: off_stack_def demo_cpu_def list_all_iff del: upt_rec_numeral)
qed

theorem interrupts_transparent_witness:
  "resumes demo_cpu (irq1_handler demo_call (enter_interrupt None 0x100000 demo_cpu)) \<and>
   resumes demo_cpu (irq0_resume (irq0_handler demo_call demo_call 0x300000 (enter_interrupt None 0x100000 demo_cpu)))"
proof -
  have "\<forall>x. c_cur (demo_call x) = c_cur x"
    by (simp add: demo_call_def)
  then show ?thesis
    using interrupts_transparent [OF demo_call_abi demo_call_abi, of 0 demo_cpu "0x100000" _ "0x300000"] demo_off_timer_stack
    by simp
qed

text \<open>
  C11. A task that \<open>sched_switch\<close> leaves continues where it stopped when \<open>sched_switch\<close> comes back to it: let the
  scheduler choose another task in the call made in \<open>c\<close>, without writing the task's \<open>sp\<close> field, and let a later
  call made in \<open>d\<close> by another task choose the first task again. If from the end of the first call to that choice
  the \<open>sp\<close> field and the seven quadwords saved on the stack of the task did not change, the later call ends behind
  the first one, with the first caller's stack pointer and callee-saved registers and the task's page tables. (When
  the scheduler keeps the task instead, \<open>rbx\<close> is lost, as shown below.)
\<close>

theorem sched_switch_resumes:
  assumes "c_abi tick" "c_abi tick'" "off_stack 7 (c_cur c) c"
    and "c_cur (tick (sched_save c)) \<noteq> c_cur c" "c_mem (tick (sched_save c)) (c_cur c) = c_mem (sched_save c) (c_cur c)"
    and "c_cur d \<noteq> c_cur c" "c_cur (tick' (sched_save d)) = c_cur c"
    and "undisturbed 7 c (c_mem (sched_switch tick c)) (c_mem (tick' (sched_save d)))"
  shows "c_rip (sched_switch tick' d) = cell c 0 \<and> c_rsp (sched_switch tick' d) = c_rsp c + 8 \<and>
    callee_saved (c_regs (sched_switch tick' d)) = callee_saved (c_regs c) \<and>
    c_cr3 (sched_switch tick' d) = c_mem (tick' (sched_save d)) (c_cur c + 8)"
proof -
  have "stack_is [cell c 0] c"
    by (simp add: stack_is_def)
  from sched_switch_back [OF assms(1,2) this _ _ assms(4-7)] assms(3,8) show ?thesis
    by simp
qed

definition demo_tick :: "u64 \<Rightarrow> cpu \<Rightarrow> cpu" where
  "demo_tick t c = c\<lparr>c_cur := t\<rparr>"

theorem sched_switch_resumes_witness:
  "r12 (c_regs (sched_switch (demo_tick 0x7000)
     ((sched_switch (demo_tick 0x7100) demo_cpu)\<lparr>c_regs := c_regs (demo_call demo_cpu)\<lparr>r12 := 0\<rparr>, c_rsp := 0xA000\<rparr>))) = 12"
proof -
  let ?c = "demo_cpu"
  define d where "d = (sched_switch (demo_tick 0x7100) ?c)\<lparr>c_regs := c_regs (demo_call ?c)\<lparr>r12 := 0\<rparr>, c_rsp := 0xA000\<rparr>"
  have abi: "c_abi (demo_tick t)" for t
    by (simp add: c_abi_def demo_tick_def cell_def)
  have cur: "c_cur (demo_tick t x) = t" "c_mem (demo_tick t x) = c_mem x" for t x
    by (simp_all add: demo_tick_def)
  have a: "c_cur ?c = 0x7000" "c_rsp ?c = 0x9000" and sp: "(0x9000 :: u64) - 48 = 0x8FD0"
    by (simp_all add: demo_cpu_def)
  have "c_cur (sched_switch (demo_tick 0x7100) ?c) = 0x7100"
    using sched_switch_other(1) [OF abi, of "0x7100" ?c] a(1)
    by (simp add: cur resume_def ret_def load_task_def cli_def)
  then have d: "c_cur d = 0x7100" "c_rsp d = 0xA000" "c_mem d = c_mem (sched_switch (demo_tick 0x7100) ?c)"
    by (simp_all add: d_def)
  have "\<forall>x \<in> {0x7000, 0x8FD0, 0x8FD8, 0x8FE0, 0x8FE8, 0x8FF0, 0x8FF8, 0x9000}. c_mem (sched_save d) x = c_mem d x"
    by (simp add: sched_save_def Let_def d push_def)
  moreover have "0x8FD0 + of_nat (8 * i) \<in> {0x7000, 0x8FD0, 0x8FD8, 0x8FE0, 0x8FE8, 0x8FF0, 0x8FF8, 0x9000 :: u64}" if "i < 7" for i
  proof -
    have "i \<in> {0, 1, 2, 3, 4, 5, 6}"
      using that by auto
    then show ?thesis
      by auto
  qed
  ultimately have "undisturbed 7 ?c (c_mem (sched_switch (demo_tick 0x7100) ?c)) (c_mem (demo_tick 0x7000 (sched_save d)))"
    unfolding undisturbed_def a cur d(3) [symmetric] sp by blast
  from sched_switch_resumes [OF abi abi demo_off_stack _ _ _ _ this]
  have "callee_saved (c_regs (sched_switch (demo_tick 0x7000) d)) = callee_saved (c_regs ?c)"
    by (simp add: cur a d(1))
  then show ?thesis
    unfolding d_def [symmetric] by (simp add: callee_saved_def) (simp add: demo_cpu_def)
qed

text \<open>
  A timer interrupt that switches to another task is transparent too, once the task is chosen again and the twenty-seven
  quadwords of its interrupted stack are undisturbed.
\<close>

lemma timer_switch_transparent:
  fixes f tick ra c h
  defines "s \<equiv> timer_call f ra (enter_interrupt None h c)"
  assumes "c_abi f" "c_abi tick" "c_abi tick'" "off_stack 27 (c_cur s) s"
    and "c_cur (tick (sched_save s)) \<noteq> c_cur s" "c_mem (tick (sched_save s)) (c_cur s) = c_mem (sched_save s) (c_cur s)"
    and "c_cur d \<noteq> c_cur s" "c_cur (tick' (sched_save d)) = c_cur s"
    and "undisturbed 27 s (c_mem (sched_switch tick s)) (c_mem (tick' (sched_save d)))"
  shows "c_rip (sched_switch tick' d) = ra" "resumes c (irq0_resume (sched_switch tick' d))"
  using sched_switch_back [OF assms(3,4) timer_call_stack(1) [OF assms(2), where ra = ra and c = c and h = h, folded s_def] _ _ assms(6-9)] assms(5,10)
  by (simp_all add: irq0_resume_transparent)

text \<open>
  When the scheduler keeps the current task, \<open>sched_switch\<close> returns to its caller with \<open>rbx\<close>
  overwritten by the address of the task, although the calling convention makes it callee-saved;
  a caller written in C (\<open>task_wait\<close>) loses the value it holds there.
\<close>

theorem sched_switch_same_loses_rbx:
  assumes "c_abi tick" "off_stack 7 (c_cur c) c" "c_cur (tick (sched_save c)) = c_cur c"
  shows "rbx (c_regs (sched_switch tick c)) = c_cur c \<and> c_rip (sched_switch tick c) = cell c 0 \<and>
    c_rsp (sched_switch tick c) = c_rsp c + 8"
proof -
  have "stack_is [cell c 0] c"
    by (simp add: stack_is_def)
  from sched_switch_same [OF assms(1) this] assms(2,3) show ?thesis
    by simp
qed

theorem sched_switch_same_loses_rbx_witness:
  "rbx (c_regs (sched_switch demo_call demo_cpu)) = 0x7000 \<and> rbx (c_regs demo_cpu) = 4"
proof -
  have "c_cur (demo_call (sched_save demo_cpu)) = c_cur demo_cpu"
    by (simp add: demo_call_def sched_save_def Let_def)
  from sched_switch_same_loses_rbx [OF demo_call_abi demo_off_stack this] show ?thesis
    by (simp add: demo_cpu_def)
qed

text \<open>
  A page fault that its handler resolves does not resume the program: the stub drops the last
  saved register instead of the error code, so every register comes back with the value of its
  neighbour in the frame and \<open>rax\<close> with the error code; and the handler is given the error code
  where it expects the faulting instruction's address.
\<close>

theorem page_fault_shifts_registers:
  assumes "c_abi f"
  shows "\<exists>entry. rdi (c_regs entry) = e \<and> rsi (c_regs entry) = c_cr2 c \<and>
    exc14_handler f (enter_interrupt (Some e) h c) = iretq (POPALL (drop_slots 2 (f entry))) \<and>
    c_regs (exc14_handler f (enter_interrupt (Some e) h c)) = (let r = c_regs c in
      \<lparr>rax = e, rcx = rax r, rdx = rcx r, rbx = rdx r, rbp = rbx r, rsi = rbp r, rdi = rsi r, r8 = rdi r, r9 = r8 r,
       r10 = r9 r, r11 = r10 r, r12 = r11 r, r13 = r12 r, r14 = r13 r, r15 = r14 r\<rparr>)"
proof -
  define c1 where "c1 = PUSHALL (enter_interrupt (Some e) h c)"
  define entry where "entry = c1\<lparr>c_regs := (c_regs c1)\<lparr>rdi := cell c1 15, rsi := c_cr2 c1\<rparr>, c_rsp := c_rsp c1 - 8\<rparr>"
  have st: "stack_is (saved (c_regs c) @ e # iframe c) c1"
    using irq_stack [OF enter_regs enter_stack [of "Some e" c h]] by (simp add: c1_def)
  have "cell c1 15 = e"
    using stack_is_cell [OF st, of 15] by (simp add: nth_append)
  moreover have "c_cr2 c1 = c_cr2 c"
    by (simp add: c1_def PUSHALL_def Let_def enter_interrupt_def split: option.split)
  moreover have "cell (drop_slots 2 (f entry)) i = (tl (saved (c_regs c)) @ [e]) ! i" if i: "i < 15" for i
  proof -
    have "cell (drop_slots 2 (f entry)) i = cell entry (2 + i)"
      using assms i by (simp add: c_abi_def)
    also have "\<dots> = cell c1 (1 + i)"
      by (simp add: entry_def cell_def algebra_simps)
    also have "\<dots> = (saved (c_regs c) @ e # iframe c) ! (1 + i)"
      using stack_is_cell [OF st, of "1 + i"] i by simp
    also have "\<dots> = (tl (saved (c_regs c)) @ [e]) ! i"
      using i by (simp add: nth_append nth_tl)
    finally show ?thesis .
  qed
  then have "stack_is (saved r @ []) (drop_slots 2 (f entry))" if "saved r = tl (saved (c_regs c)) @ [e]" for r
    using that by (simp add: stack_is_def)
  note POPALL_regs(1) [OF this]
  moreover have "exc14_handler f (enter_interrupt (Some e) h c) = iretq (POPALL (drop_slots 2 (f entry)))"
    by (simp add: exc14_handler_def Let_def c1_def entry_def)
  moreover have "c_regs (iretq x) = c_regs x" for x
    by (simp add: iretq_def)
  ultimately show ?thesis
    by (intro exI [of _ entry]) (simp add: entry_def saved_def Let_def)
qed

theorem page_fault_shifts_registers_witness:
  "rax (c_regs (exc14_handler demo_call (enter_interrupt (Some 6) 0x100000 demo_cpu))) = 6 \<and>
   rcx (c_regs (exc14_handler demo_call (enter_interrupt (Some 6) 0x100000 demo_cpu))) = rax (c_regs demo_cpu)"
proof -
  obtain entry where "c_regs (exc14_handler demo_call (enter_interrupt (Some 6) 0x100000 demo_cpu)) = (let r = c_regs demo_cpu in
      \<lparr>rax = 6, rcx = rax r, rdx = rcx r, rbx = rdx r, rbp = rbx r, rsi = rbp r, rdi = rsi r, r8 = rdi r, r9 = r8 r,
       r10 = r9 r, r11 = r10 r, r12 = r11 r, r13 = r12 r, r14 = r13 r, r15 = r14 r\<rparr>)"
    using page_fault_shifts_registers [OF demo_call_abi, of 6 demo_cpu "0x100000"] by blast
  then show ?thesis
    by (simp add: Let_def)
qed

end
