(* ===== verification/Getty_Proc.thy ===== *)
theory Getty_Proc
  imports Getty_Fs Osfmk_Isr
begin

text \<open>
  Tasks and their scheduling, bsd/kern/init_ram_getty/proc.c. The task table is the list of its
  live entries (slots are never reused, so an entry's index is its pid); the current task is a
  slot. Kernel stacks are 64-bit cells, as in the stubs that switch between them; page tables and
  the memory of the programs are the \<open>sys\<close> of the loader; file contents and buffers are the
  kernel's memory. Where the kernel panics or faults the result is \<open>None\<close>.
\<close>

section \<open>State\<close>

record ker =
  g_tasks :: "task list"
  g_cur_task :: "nat option"
  g_syscall_frame :: u64
  k_sys :: sys
  k_mem :: mem
  k_cells :: "u64 \<Rightarrow> u64"
  k_fs :: ramfs
  k_stacks :: u64
  k_procbufs :: u64
  k_irq0_resume :: u64

abbreviation TASK_STACK_SIZE :: u64 where "TASK_STACK_SIZE \<equiv> 8192"
abbreviation TASK_NAME_MAX :: nat where "TASK_NAME_MAX \<equiv> 32"

text \<open>The kernel stack and the /proc buffer of a slot.\<close>

definition stack_of :: "ker \<Rightarrow> nat \<Rightarrow> u64" where
  "stack_of k i = k_stacks k + of_nat i * TASK_STACK_SIZE"

definition procbuf_of :: "ker \<Rightarrow> nat \<Rightarrow> u64" where
  "procbuf_of k i = k_procbufs k + of_nat i * 1024"

definition upd_task :: "nat \<Rightarrow> (task \<Rightarrow> task) \<Rightarrow> ker \<Rightarrow> ker" where
  "upd_task i f k = k\<lparr>g_tasks := (g_tasks k)[i := f (g_tasks k ! i)]\<rparr>"

abbreviation set_vm :: "vm_state \<Rightarrow> ker \<Rightarrow> ker" where
  "set_vm vm k \<equiv> k\<lparr>k_sys := (k_sys k)\<lparr>s_vm := vm\<rparr>\<rparr>"

section \<open>Scheduling\<close>

definition tick_slot :: "nat \<Rightarrow> nat \<Rightarrow> nat \<Rightarrow> nat" where
  "tick_slot n slot i = (if n \<le> slot + i then slot + i - n else slot + i)"

definition runnable :: "ker \<Rightarrow> nat \<Rightarrow> bool" where
  "runnable k i \<longleftrightarrow> t_state (g_tasks k ! i) = TASK_RUNNING"

definition sched_tick :: "ker \<Rightarrow> ker option" where
  "sched_tick k =
     (case g_cur_task k of None \<Rightarrow> None
      | Some slot \<Rightarrow>
          if g_tasks k = [] then None
          else let n = length (g_tasks k);
                   k1 = upd_task slot (\<lambda>t. t\<lparr>t_ticks := t_ticks t + 1\<rparr>) k
               in case List.find (runnable k1) (map (tick_slot n slot) [1..<n]) of
                    Some s \<Rightarrow> Some (k1\<lparr>g_cur_task := Some s\<rparr>)
                  | None \<Rightarrow> if runnable k1 slot then Some k1 else None)"

definition task_find :: "ker \<Rightarrow> u32 \<Rightarrow> nat option" where
  "task_find k pid = (if unat pid < length (g_tasks k) then Some (unat pid) else None)"

definition task_count :: "ker \<Rightarrow> nat" where
  "task_count k = length (g_tasks k)"

definition task_at :: "ker \<Rightarrow> int \<Rightarrow> nat option" where
  "task_at k i = (if i < 0 \<or> int (length (g_tasks k)) \<le> i then None else Some (nat i))"

definition sched_boot :: "nat option \<Rightarrow> ker \<Rightarrow> ker option" where
  "sched_boot idle k =
     (if idle = None \<or> g_tasks k = [] then None else Some (k\<lparr>g_cur_task := idle\<rparr>))"

section \<open>New tasks\<close>

text \<open>\<open>*--s = v\<close> for each value in turn.\<close>

definition stk_push :: "u64 list \<Rightarrow> u64 \<Rightarrow> (u64 \<Rightarrow> u64) \<Rightarrow> u64 \<times> (u64 \<Rightarrow> u64)" where
  "stk_push vs s m = fold (\<lambda>v (s, m). (s - 8, m(s - 8 := v))) vs (s, m)"

definition task_alloc :: "cstr \<Rightarrow> u64 \<Rightarrow> ker \<Rightarrow> (nat option \<times> ker) option" where
  "task_alloc name arg k =
     (let i = length (g_tasks k)
      in if PROC_MAX_TASKS \<le> i then Some (None, k)
         else case paging_clone_pd (s_vm (k_sys k)) of (cr3, vm) \<Rightarrow>
           if cr3 = 0 then Some (None, set_vm vm k)
           else (case strncpy_buf name (TASK_NAME_MAX - 1) of None \<Rightarrow> None
                 | Some nm \<Rightarrow>
                     let t = fs_task_init \<lparr>t_sp = 0, t_cr3 = cr3, t_pid = of_nat i, t_name = nm,
                               t_stack = stack_of k i, t_state = TASK_NEW, t_ticks = 0, t_arg = arg,
                               t_vfork_parent = 0, t_fd = [], t_procbuf = procbuf_of k i\<rparr>
                     in Some (Some i, (set_vm vm k)\<lparr>g_tasks := g_tasks k @ [t]\<rparr>)))"

definition entry_frame :: "ker \<Rightarrow> u64 \<Rightarrow> u64 \<Rightarrow> u64 \<Rightarrow> u64 \<Rightarrow> u64 list" where
  "entry_frame k stack entry argc argv =
     [0x10, stack + TASK_STACK_SIZE, 0x202, 0x08, entry,
      0, 0, 0, 0, 0, argv, argc, 0, 0, 0, 0, 0, 0, 0, 0, k_irq0_resume k]"

definition push_frame :: "nat \<Rightarrow> u64 list \<Rightarrow> ker \<Rightarrow> ker" where
  "push_frame i vs k =
     (case stk_push vs (t_stack (g_tasks k ! i) + TASK_STACK_SIZE) (k_cells k) of (s, m) \<Rightarrow>
        upd_task i (\<lambda>t. t\<lparr>t_sp := s, t_state := TASK_RUNNING\<rparr>) (k\<lparr>k_cells := m\<rparr>))"

definition task_set_entry :: "nat option \<Rightarrow> u64 \<Rightarrow> u64 \<Rightarrow> u64 \<Rightarrow> ker \<Rightarrow> ker" where
  "task_set_entry ot entry argc argv k =
     (case ot of None \<Rightarrow> k
      | Some i \<Rightarrow> push_frame i (entry_frame k (t_stack (g_tasks k ! i)) entry argc argv) k)"

definition task_create :: "cstr \<Rightarrow> u64 \<Rightarrow> u64 \<Rightarrow> ker \<Rightarrow> (nat option \<times> ker) option" where
  "task_create name entry arg k =
     map_option (\<lambda>(t, k'). (t, if t \<noteq> None then task_set_entry t entry 0 0 k' else k')) (task_alloc name arg k)"

text \<open>Waking the parent a vfork child has left waiting.\<close>

definition wake_parent :: "nat \<Rightarrow> ker \<Rightarrow> ker" where
  "wake_parent i k =
     (let pp = t_vfork_parent (g_tasks k ! i)
      in if pp \<noteq> 0
         then (case task_find k pp of None \<Rightarrow> k
               | Some p \<Rightarrow> if t_state (g_tasks k ! p) = TASK_WAITING
                   then upd_task p (\<lambda>t. t\<lparr>t_state := TASK_RUNNING\<rparr>) k else k)
         else k)"

definition task_exit :: "nat \<Rightarrow> ker \<Rightarrow> ker" where
  "task_exit cur k = wake_parent cur (upd_task cur (\<lambda>t. t\<lparr>t_state := TASK_ZOMBIE\<rparr>) k)"

text \<open>The frame of the system call in flight, \<open>f[i]\<close>.\<close>

definition sc_frame :: "ker \<Rightarrow> nat \<Rightarrow> u64" where
  "sc_frame k i = k_cells k (g_syscall_frame k + of_nat (8 * i))"

definition vfork_frame :: "ker \<Rightarrow> u64 list" where
  "vfork_frame k = map (sc_frame k) [19, 18, 17, 16, 15] @ [0] @
     map (sc_frame k) [13, 12, 11, 10, 9, 8, 7, 6, 5, 4, 3, 2, 1, 0] @ [k_irq0_resume k]"

definition task_vfork :: "nat \<Rightarrow> ker \<Rightarrow> (u32 \<times> ker) option" where
  "task_vfork cur k =
     (let i = length (g_tasks k); p = g_tasks k ! cur
      in if PROC_MAX_TASKS \<le> i then Some (- 1, k)
         else case paging_vfork_clone (s_vm (k_sys k)) of (cr3, vm) \<Rightarrow>
           if cr3 = 0 then Some (- 1, set_vm vm k)
           else (case strncpy_buf (t_name p) (TASK_NAME_MAX - 1) of None \<Rightarrow> None
                 | Some nm \<Rightarrow>
                     let t = \<lparr>t_sp = 0, t_cr3 = cr3, t_pid = of_nat i, t_name = nm, t_stack = stack_of k i,
                              t_state = TASK_NEW, t_ticks = 0, t_arg = 0, t_vfork_parent = t_pid p,
                              t_fd = t_fd p, t_procbuf = procbuf_of k i\<rparr>;
                         k1 = (set_vm vm k)\<lparr>g_tasks := g_tasks k @ [t],
                                k_mem := memcpy (procbuf_of k i) (t_procbuf p) 1024 (k_mem k)\<rparr>;
                         k2 = push_frame i (vfork_frame k) k1
                     in Some (of_nat i, upd_task cur (\<lambda>t. t\<lparr>t_state := TASK_WAITING\<rparr>) k2)))"

section \<open>Running another program, waiting\<close>

definition file_bytes :: "ker \<Rightarrow> file_entry \<Rightarrow> u8 list" where
  "file_bytes k f = load_bytes (f_data f) (unat (f_size f)) (k_mem k)"

definition task_exec :: "nat \<Rightarrow> cstr \<Rightarrow> cstr option \<Rightarrow> ker \<Rightarrow> (int \<times> ker) option" where
  "task_exec cur path argline k =
     (case ramfs_lookup path (k_fs k) of None \<Rightarrow> Some (- 1, k)
      | Some f \<Rightarrow>
          if \<not> elf_valid (file_bytes k f) then Some (- 1, k)
          else case paging_clone_pd (s_vm (k_sys k)) of (new_cr3, vm) \<Rightarrow>
            let k1 = set_vm vm k
            in if new_cr3 = 0 then Some (- 1, k1)
               else case elf_load_pd new_cr3 (file_bytes k f) (k_sys k1) of None \<Rightarrow> None
                    | Some (ElfFail, s2) \<Rightarrow> Some (- 1, k1\<lparr>k_sys := s2\<rparr>)
                    | Some (ElfLoaded entry lo hi, s2) \<Rightarrow>
                        let old_cr3 = t_cr3 (g_tasks k ! cur);
                            k2 = upd_task cur (\<lambda>t. t\<lparr>t_cr3 := new_cr3,
                                   t_stack := stack_of k (unat (t_pid t))\<rparr>) (k1\<lparr>k_sys := s2\<rparr>)
                        in (case task_build_argv (g_tasks k2 ! cur) argline s2 of
                              None \<Rightarrow> None
                            | Some ((argv, argc), s3) \<Rightarrow>
                                let k3 = k2\<lparr>k_sys := s3\<rparr>
                                in case argc of
                                     None \<Rightarrow> Some (- 1, upd_task cur (\<lambda>t. t\<lparr>t_cr3 := old_cr3\<rparr>) k3)
                                   | Some n \<Rightarrow>
                                       if argv = 0 then Some (- 1, upd_task cur (\<lambda>t. t\<lparr>t_cr3 := old_cr3\<rparr>) k3)
                                       else Some (0, wake_parent cur (task_set_entry (Some cur) entry n argv k3))))"

text \<open>
  One pass of the loop of \<open>task_wait\<close>: the returned value, or the state in which the caller is
  suspended by \<open>sched_switch\<close> (\<open>None\<close> where that panics); after it the caller is marked running
  and makes the next pass.
\<close>

datatype wait_result = Returned int | Suspended "ker option"

definition task_wait_pass :: "nat \<Rightarrow> u32 \<Rightarrow> ker \<Rightarrow> wait_result" where
  "task_wait_pass cur pid k =
     (case task_find k pid of None \<Rightarrow> Returned (- 1)
      | Some child \<Rightarrow>
          if t_state (g_tasks k ! child) = TASK_ZOMBIE then Returned 0
          else Suspended (sched_tick (upd_task cur (\<lambda>t. t\<lparr>t_state := TASK_WAITING\<rparr>) k)))"

definition task_wait_resumed :: "nat \<Rightarrow> ker \<Rightarrow> ker" where
  "task_wait_resumed cur k = upd_task cur (\<lambda>t. t\<lparr>t_state := TASK_RUNNING\<rparr>) k"

text \<open>The listing of /proc as text; a line that does not fit is left out.\<close>

definition proc_line :: "task \<Rightarrow> nat \<times> cstr" where
  "proc_line t = (case vsnprintf (\<lambda>_ _ (_ :: unit). []) 48 (bytes_of ''%u %s'' @ [10])
       [VInt (t_pid t), VStr (Some (t_name t))] of
     Some (n, Some s) \<Rightarrow> (n, s) | _ \<Rightarrow> (0, []))"

definition procfs_list :: "task list \<Rightarrow> nat \<Rightarrow> cstr" where
  "procfs_list tasks bufsize = fold (\<lambda>t out. case proc_line t of (n, s) \<Rightarrow>
     if length out + n < bufsize then out @ take n s else out) tasks []"

section \<open>Round robin\<close>

lemma upd_task_simps [simp]:
  "length (g_tasks (upd_task i f k)) = length (g_tasks k)" "g_cur_task (upd_task i f k) = g_cur_task k"
  "i < length (g_tasks k) \<Longrightarrow> g_tasks (upd_task i f k) ! i = f (g_tasks k ! i)"
  "i \<noteq> j \<Longrightarrow> g_tasks (upd_task i f k) ! j = g_tasks k ! j"
  by (simp_all add: upd_task_def)

lemma upd_task_field:
  "(\<And>t. g (f t) = g t) \<Longrightarrow> j < length (g_tasks k) \<Longrightarrow> g (g_tasks (upd_task i f k) ! j) = g (g_tasks k ! j)"
  by (cases "i = j") simp_all

lemma find_least:
  "List.find P (map f [1..<n]) = Some x \<longleftrightarrow>
    (\<exists>i. 1 \<le> i \<and> i < n \<and> P (f i) \<and> x = f i \<and> (\<forall>j. 1 \<le> j \<longrightarrow> j < i \<longrightarrow> \<not> P (f j)))"
proof -
  have nth: "i < n - 1 \<Longrightarrow> map f [1..<n] ! i = f (Suc i)" for i
    by simp
  show ?thesis
  proof
    assume "List.find P (map f [1..<n]) = Some x"
    then obtain i where i: "i < n - 1" "P (f (Suc i))" "x = f (Suc i)" "\<forall>j < i. \<not> P (f (Suc j))"
      by (auto simp: find_Some_iff nth)
    then have "\<not> P (f j)" if "1 \<le> j" "j < Suc i" for j
      using that i(4) [rule_format, of "j - 1"] by auto
    with i show "\<exists>i. 1 \<le> i \<and> i < n \<and> P (f i) \<and> x = f i \<and> (\<forall>j. 1 \<le> j \<longrightarrow> j < i \<longrightarrow> \<not> P (f j))"
      by (intro exI [of _ "Suc i"]) auto
  next
    assume "\<exists>i. 1 \<le> i \<and> i < n \<and> P (f i) \<and> x = f i \<and> (\<forall>j. 1 \<le> j \<longrightarrow> j < i \<longrightarrow> \<not> P (f j))"
    then obtain i where i: "1 \<le> i" "i < n" "P (f i)" "x = f i" "\<forall>j. 1 \<le> j \<longrightarrow> j < i \<longrightarrow> \<not> P (f j)"
      by blast
    then show "List.find P (map f [1..<n]) = Some x"
      by (auto simp: find_Some_iff nth intro!: exI [of _ "i - 1"])
  qed
qed

lemma find_none: "List.find P (map f [1..<n]) = None \<longleftrightarrow> (\<forall>i. 1 \<le> i \<longrightarrow> i < n \<longrightarrow> \<not> P (f i))"
  by (auto simp: find_None_iff)

text \<open>The number of steps from slot \<open>c\<close> to slot \<open>j\<close> around a table of \<open>n\<close> slots.\<close>

definition dist :: "nat \<Rightarrow> nat \<Rightarrow> nat \<Rightarrow> nat" where
  "dist n c j = (if c \<le> j then j - c else j + n - c)"

lemma tick_slot_dist:
  assumes "c < n" "j < n"
  shows "tick_slot n c (dist n c j) = j" "dist n c j < n" "dist n c j = 0 \<longleftrightarrow> j = c"
  using assms by (auto simp: tick_slot_def dist_def)

lemma dist_tick_slot:
  assumes "c < n" "j < n" "1 \<le> i" "i \<le> dist n c j"
  shows "tick_slot n c i < n" "dist n (tick_slot n c i) j = dist n c j - i"
  using assms by (auto simp: tick_slot_def dist_def split: if_splits)

definition same_states :: "ker \<Rightarrow> ker \<Rightarrow> bool" where
  "same_states k k' \<longleftrightarrow> map t_state (g_tasks k') = map t_state (g_tasks k)"

lemma same_states_runnable:
  assumes "same_states k k'" "j < length (g_tasks k)"
  shows "runnable k' j = runnable k j" "length (g_tasks k') = length (g_tasks k)"
proof -
  show l: "length (g_tasks k') = length (g_tasks k)"
    using assms(1) unfolding same_states_def by (metis length_map)
  have "map t_state (g_tasks k') ! j = map t_state (g_tasks k) ! j"
    using assms(1) by (simp add: same_states_def)
  then show "runnable k' j = runnable k j"
    using assms(2) l by (simp add: runnable_def)
qed

lemma same_states_trans: "same_states a b \<Longrightarrow> same_states b c \<Longrightarrow> same_states a c"
  by (simp add: same_states_def)

lemma ticked_states: "same_states k (upd_task i (\<lambda>t. t\<lparr>t_ticks := t_ticks t + 1\<rparr>) k)"
  unfolding same_states_def by (intro nth_equalityI) (simp_all add: upd_task_field [of t_state])

text \<open>A tick moves to the next runnable task in cyclic order.\<close>

lemma sched_tick_next:
  assumes "g_cur_task k = Some c" "c < length (g_tasks k)" "j < length (g_tasks k)" "j \<noteq> c" "runnable k j"
  obtains s k' where "sched_tick k = Some k'" "g_cur_task k' = Some s" "s < length (g_tasks k)" "same_states k k'"
    "runnable k s" "s \<noteq> c" "dist (length (g_tasks k)) s j < dist (length (g_tasks k)) c j"
proof -
  let ?n = "length (g_tasks k)"
  define k1 where "k1 = upd_task c (\<lambda>t. t\<lparr>t_ticks := t_ticks t + 1\<rparr>) k"
  have ss: "same_states k k1"
    unfolding k1_def by (rule ticked_states)
  have r: "runnable k1 i = runnable k i" if "i < ?n" for i
    using same_states_runnable [OF ss that] by simp
  note d = tick_slot_dist [OF assms(2,3)]
  have "runnable k1 (tick_slot ?n c (dist ?n c j))"
    using d(1) r [OF assms(3)] assms(5) by simp
  moreover have "1 \<le> dist ?n c j"
    using d(3) assms(4) by simp
  ultimately have "List.find (runnable k1) (map (tick_slot ?n c) [1..<?n]) \<noteq> None"
    using d(2) unfolding find_none by blast
  then obtain s where f: "List.find (runnable k1) (map (tick_slot ?n c) [1..<?n]) = Some s"
    by blast
  then obtain i where i: "1 \<le> i" "i < ?n" "runnable k1 (tick_slot ?n c i)" "s = tick_slot ?n c i"
      "\<forall>j. 1 \<le> j \<longrightarrow> j < i \<longrightarrow> \<not> runnable k1 (tick_slot ?n c j)"
    unfolding find_least by blast
  have le: "i \<le> dist ?n c j"
    using i(5) \<open>1 \<le> dist ?n c j\<close> \<open>runnable k1 (tick_slot ?n c (dist ?n c j))\<close> by (metis not_less)
  note t = dist_tick_slot [OF assms(2,3) i(1) le]
  show thesis
  proof (rule that)
    show "sched_tick k = Some (k1\<lparr>g_cur_task := Some s\<rparr>)"
      using assms(1,3) f by (auto simp: sched_tick_def Let_def k1_def [symmetric])
    show "g_cur_task (k1\<lparr>g_cur_task := Some s\<rparr>) = Some s" "s < ?n" "runnable k s" "same_states k (k1\<lparr>g_cur_task := Some s\<rparr>)"
      using t(1) i(3,4) r ss by (simp_all add: same_states_def)
    show "s \<noteq> c"
      using i(1,2,4) assms(2) by (auto simp: tick_slot_def)
    show "dist ?n s j < dist ?n c j"
      using t(2) i(1,4) le by simp
  qed
qed

fun ticks :: "nat \<Rightarrow> ker \<Rightarrow> ker option" where
  "ticks 0 k = Some k"
| "ticks (Suc m) k = (case sched_tick k of None \<Rightarrow> None | Some k' \<Rightarrow> ticks m k')"

lemma ticks_reach:
  assumes "g_cur_task k = Some c" "c < length (g_tasks k)" "j < length (g_tasks k)" "runnable k j"
  shows "\<exists>m k'. m \<le> dist (length (g_tasks k)) c j \<and> (j \<noteq> c \<longrightarrow> 0 < m) \<and> ticks m k = Some k' \<and>
    g_cur_task k' = Some j \<and> same_states k k'"
  using assms
proof (induction "dist (length (g_tasks k)) c j" arbitrary: k c rule: less_induct)
  case less
  show ?case
  proof (cases "j = c")
    case True
    then show ?thesis
      using less.prems(1) by (intro exI [of _ 0]) (simp add: same_states_def)
  next
    case False
    let ?n = "length (g_tasks k)"
    from sched_tick_next [OF less.prems(1-3) False less.prems(4)] obtain s k1 where
      s: "sched_tick k = Some k1" "g_cur_task k1 = Some s" "s < ?n" "same_states k k1" "dist ?n s j < dist ?n c j"
      by metis
    note sr = same_states_runnable [OF s(4) less.prems(3)]
    obtain m k' where m: "m \<le> dist ?n s j" "ticks m k1 = Some k'" "g_cur_task k' = Some j" "same_states k1 k'"
      using less.hyps [of k1 s] s less.prems sr by auto
    with s show ?thesis
      by (intro exI [of _ "Suc m"] exI [of _ k']) (auto intro: same_states_trans)
  qed
qed

section \<open>What the operations change\<close>

text \<open>
  The parts of the table that scheduling looks at: the current slot, the states and the vfork
  parents.
\<close>

abbreviation st :: "ker \<Rightarrow> nat \<Rightarrow> task_state" where
  "st k i \<equiv> t_state (g_tasks k ! i)"

abbreviation vp :: "ker \<Rightarrow> nat \<Rightarrow> u32" where
  "vp k i \<equiv> t_vfork_parent (g_tasks k ! i)"

lemma wake_parent_frame:
  "length (g_tasks (wake_parent i k)) = length (g_tasks k)" "g_cur_task (wake_parent i k) = g_cur_task k"
  "j < length (g_tasks k) \<Longrightarrow> vp (wake_parent i k) j = vp k j"
  "j < length (g_tasks k) \<Longrightarrow> t_pid (g_tasks (wake_parent i k) ! j) = t_pid (g_tasks k ! j)"
  "j < length (g_tasks k) \<Longrightarrow> t_fd (g_tasks (wake_parent i k) ! j) = t_fd (g_tasks k ! j)"
  "j < length (g_tasks k) \<Longrightarrow> vp k i = 0 \<or> unat (vp k i) \<noteq> j \<Longrightarrow> st (wake_parent i k) j = st k j"
  by (auto simp: wake_parent_def Let_def task_find_def upd_task_field split: option.splits)

lemma push_frame_frame:
  "length (g_tasks (push_frame i vs k)) = length (g_tasks k)" "g_cur_task (push_frame i vs k) = g_cur_task k"
  "j < length (g_tasks k) \<Longrightarrow> vp (push_frame i vs k) j = vp k j"
  "j < length (g_tasks k) \<Longrightarrow> t_pid (g_tasks (push_frame i vs k) ! j) = t_pid (g_tasks k ! j)"
  "j < length (g_tasks k) \<Longrightarrow> t_fd (g_tasks (push_frame i vs k) ! j) = t_fd (g_tasks k ! j)"
  "j < length (g_tasks k) \<Longrightarrow> st (push_frame i vs k) j = (if j = i then TASK_RUNNING else st k j)"
proof -
  obtain s m where s: "push_frame i vs k = upd_task i (\<lambda>t. t\<lparr>t_sp := s, t_state := TASK_RUNNING\<rparr>) (k\<lparr>k_cells := m\<rparr>)"
    by (cases "stk_push vs (t_stack (g_tasks k ! i) + TASK_STACK_SIZE) (k_cells k)") (simp add: push_frame_def)
  show "length (g_tasks (push_frame i vs k)) = length (g_tasks k)" "g_cur_task (push_frame i vs k) = g_cur_task k"
    "j < length (g_tasks k) \<Longrightarrow> vp (push_frame i vs k) j = vp k j"
    "j < length (g_tasks k) \<Longrightarrow> t_pid (g_tasks (push_frame i vs k) ! j) = t_pid (g_tasks k ! j)"
    "j < length (g_tasks k) \<Longrightarrow> t_fd (g_tasks (push_frame i vs k) ! j) = t_fd (g_tasks k ! j)"
    "j < length (g_tasks k) \<Longrightarrow> st (push_frame i vs k) j = (if j = i then TASK_RUNNING else st k j)"
    by (auto simp: s upd_task_field)
qed

text \<open>
  \<open>keeps_tasks k k'\<close>: the table keeps its entries' pids, vfork parents and descriptors, may have one new
  entry, and the current slot stays.
\<close>

definition keeps_tasks :: "ker \<Rightarrow> ker \<Rightarrow> bool" where
  "keeps_tasks k k' \<longleftrightarrow> length (g_tasks k) \<le> length (g_tasks k') \<and> g_cur_task k' = g_cur_task k \<and>
     (\<forall>j < length (g_tasks k). vp k' j = vp k j \<and> t_pid (g_tasks k' ! j) = t_pid (g_tasks k ! j) \<and>
        t_fd (g_tasks k' ! j) = t_fd (g_tasks k ! j))"

lemma keeps_tasks_refl [simp]: "keeps_tasks k k"
  by (simp add: keeps_tasks_def)

lemma task_exit_frame:
  assumes "c < length (g_tasks k)"
  shows "keeps_tasks k (task_exit c k)" "length (g_tasks (task_exit c k)) = length (g_tasks k)"
    "\<And>j. j < length (g_tasks k) \<Longrightarrow> j \<noteq> c \<Longrightarrow> vp k c = 0 \<or> unat (vp k c) \<noteq> j \<Longrightarrow> st (task_exit c k) j = st k j"
proof -
  let ?k1 = "upd_task c (\<lambda>t. t\<lparr>t_state := TASK_ZOMBIE\<rparr>) k"
  have v: "vp ?k1 c = vp k c"
    using assms by simp
  show "keeps_tasks k (task_exit c k)" "length (g_tasks (task_exit c k)) = length (g_tasks k)"
    by (simp_all add: keeps_tasks_def task_exit_def wake_parent_frame upd_task_field)
  show "st (task_exit c k) j = st k j" if "j < length (g_tasks k)" "j \<noteq> c" "vp k c = 0 \<or> unat (vp k c) \<noteq> j" for j
    using that v wake_parent_frame(6) [of j ?k1 c] by (simp add: task_exit_def)
qed

lemma set_entry_frame:
  "length (g_tasks (task_set_entry (Some i) e a v k)) = length (g_tasks k)"
  "g_cur_task (task_set_entry (Some i) e a v k) = g_cur_task k"
  "j < length (g_tasks k) \<Longrightarrow> vp (task_set_entry (Some i) e a v k) j = vp k j"
  "j < length (g_tasks k) \<Longrightarrow> t_pid (g_tasks (task_set_entry (Some i) e a v k) ! j) = t_pid (g_tasks k ! j)"
  "j < length (g_tasks k) \<Longrightarrow> t_fd (g_tasks (task_set_entry (Some i) e a v k) ! j) = t_fd (g_tasks k ! j)"
  "j < length (g_tasks k) \<Longrightarrow> st (task_set_entry (Some i) e a v k) j = (if j = i then TASK_RUNNING else st k j)"
  by (simp_all add: task_set_entry_def push_frame_frame)

lemma task_exec_frame:
  assumes "task_exec c path args k = Some (r, k')" "c < length (g_tasks k)"
  shows "keeps_tasks k k'" "length (g_tasks k') = length (g_tasks k)"
    "\<And>j. j < length (g_tasks k) \<Longrightarrow> j \<noteq> c \<Longrightarrow> vp k c = 0 \<or> unat (vp k c) \<noteq> j \<Longrightarrow> st k' j = st k j"
  using assms
  by (auto simp: task_exec_def Let_def keeps_tasks_def wake_parent_frame set_entry_frame upd_task_field
      split: option.splits prod.splits if_splits elf_result.splits)

lemma task_alloc_frame:
  assumes "task_alloc name arg k = Some (ot, k')"
  shows "keeps_tasks k k'" "\<And>j. j < length (g_tasks k) \<Longrightarrow> st k' j = st k j"
    "ot = None \<and> length (g_tasks k') = length (g_tasks k) \<or> (ot = Some (length (g_tasks k)) \<and>
       length (g_tasks k) < PROC_MAX_TASKS \<and> length (g_tasks k') = Suc (length (g_tasks k)) \<and>
       vp k' (length (g_tasks k)) = 0 \<and> st k' (length (g_tasks k)) = TASK_NEW \<and>
       t_pid (g_tasks k' ! length (g_tasks k)) = of_nat (length (g_tasks k)) \<and>
       fds_wf (g_tasks k' ! length (g_tasks k)))"
  using assms
  by (auto simp: task_alloc_def Let_def keeps_tasks_def nth_append fs_task_init_def fds_wf_def empty_fd_def
      split: option.splits prod.splits if_splits)

lemma task_vfork_frame:
  assumes "task_vfork c k = Some (r, k')" "c < length (g_tasks k)"
  shows "keeps_tasks k k'" "\<And>j. j < length (g_tasks k) \<Longrightarrow> j \<noteq> c \<Longrightarrow> st k' j = st k j"
    "(r = - 1 \<and> length (g_tasks k') = length (g_tasks k) \<and> st k' c = st k c) \<or>
     (r = of_nat (length (g_tasks k)) \<and> length (g_tasks k) < PROC_MAX_TASKS \<and>
       length (g_tasks k') = Suc (length (g_tasks k)) \<and> st k' c = TASK_WAITING \<and>
       st k' (length (g_tasks k)) = TASK_RUNNING \<and> vp k' (length (g_tasks k)) = t_pid (g_tasks k ! c) \<and>
       t_pid (g_tasks k' ! length (g_tasks k)) = of_nat (length (g_tasks k)) \<and>
       t_fd (g_tasks k' ! length (g_tasks k)) = t_fd (g_tasks k ! c))"
  using assms
  by (auto simp: task_vfork_def Let_def keeps_tasks_def nth_append push_frame_frame upd_task_field
      split: option.splits prod.splits if_splits)

section \<open>The table invariant\<close>

text \<open>
  Entries are at the index of their pid, their descriptor tables are well formed, a vfork parent is
  an older task, and the current slot is one of the entries.
\<close>

definition proc_wf :: "ker \<Rightarrow> bool" where
  "proc_wf k \<longleftrightarrow> length (g_tasks k) \<le> PROC_MAX_TASKS \<and>
     (\<forall>i < length (g_tasks k). t_pid (g_tasks k ! i) = of_nat i \<and> fds_wf (g_tasks k ! i) \<and>
        (vp k i = 0 \<or> unat (vp k i) < i)) \<and>
     (\<forall>c. g_cur_task k = Some c \<longrightarrow> c < length (g_tasks k))"

lemma fds_wf_cong: "t_fd t = t_fd u \<Longrightarrow> fds_wf t = fds_wf u"
  by (simp add: fds_wf_def)

lemma proc_wf_keeps:
  assumes "proc_wf k" "keeps_tasks k k'" "length (g_tasks k') \<le> PROC_MAX_TASKS"
    and "\<And>i. length (g_tasks k) \<le> i \<Longrightarrow> i < length (g_tasks k') \<Longrightarrow>
      t_pid (g_tasks k' ! i) = of_nat i \<and> fds_wf (g_tasks k' ! i) \<and> (vp k' i = 0 \<or> unat (vp k' i) < i)"
  shows "proc_wf k'"
  unfolding proc_wf_def
proof (intro conjI allI impI)
  fix i assume i: "i < length (g_tasks k')"
  show "t_pid (g_tasks k' ! i) = of_nat i" "fds_wf (g_tasks k' ! i)" "vp k' i = 0 \<or> unat (vp k' i) < i"
    using assms i fds_wf_cong [of "g_tasks k' ! i" "g_tasks k ! i"]
    by (cases "i < length (g_tasks k)"; auto simp: proc_wf_def keeps_tasks_def)+
next
  fix c assume "g_cur_task k' = Some c"
  then have "c < length (g_tasks k)"
    using assms(1,2) by (simp add: proc_wf_def keeps_tasks_def)
  then show "c < length (g_tasks k')"
    using assms(2) by (simp add: keeps_tasks_def)
qed (rule assms(3))

lemma proc_wf_cur: "proc_wf k \<Longrightarrow> g_cur_task k = Some c \<Longrightarrow> c < length (g_tasks k)"
  by (simp add: proc_wf_def)

lemma proc_wf_exit: "proc_wf k \<Longrightarrow> c < length (g_tasks k) \<Longrightarrow> proc_wf (task_exit c k)"
  by (rule proc_wf_keeps [OF _ task_exit_frame(1)]) (auto simp: task_exit_frame proc_wf_def)

lemma proc_wf_exec:
  "proc_wf k \<Longrightarrow> c < length (g_tasks k) \<Longrightarrow> task_exec c path args k = Some (r, k') \<Longrightarrow> proc_wf k'"
  by (rule proc_wf_keeps [OF _ task_exec_frame(1)]) (auto dest: task_exec_frame(2) simp: proc_wf_def)

lemma proc_wf_alloc: "proc_wf k \<Longrightarrow> task_alloc name arg k = Some (ot, k') \<Longrightarrow> proc_wf k'"
proof -
  assume a: "proc_wf k" "task_alloc name arg k = Some (ot, k')"
  note f = task_alloc_frame [OF a(2)]
  show "proc_wf k'"
    by (rule proc_wf_keeps [OF a(1) f(1)]) (use f(3) a(1) in \<open>auto simp: proc_wf_def less_Suc_eq\<close>)
qed

lemma proc_wf_vfork:
  assumes "proc_wf k" "c < length (g_tasks k)" "task_vfork c k = Some (r, k')"
  shows "proc_wf k'"
proof (rule proc_wf_keeps [OF assms(1)])
  note f = task_vfork_frame [OF assms(3,2)]
  show "keeps_tasks k k'"
    by (rule f(1))
  have c: "t_pid (g_tasks k ! c) = of_nat c" "fds_wf (g_tasks k ! c)" "length (g_tasks k) \<le> 32"
    using assms(1,2) by (auto simp: proc_wf_def)
  then have u: "unat (of_nat c :: u32) = c"
    using assms(2) by (simp add: unat_of_nat)
  show "length (g_tasks k') \<le> PROC_MAX_TASKS"
    using f(3) c(3) by auto
  fix i assume i: "length (g_tasks k) \<le> i" "i < length (g_tasks k')"
  then show "t_pid (g_tasks k' ! i) = of_nat i \<and> fds_wf (g_tasks k' ! i) \<and> (vp k' i = 0 \<or> unat (vp k' i) < i)"
    using f(3) c u assms(2) fds_wf_cong [of "g_tasks k' ! i" "g_tasks k ! c"] by (auto simp: less_Suc_eq)
qed

lemma set_entry_keeps: "keeps_tasks k (task_set_entry (Some i) e a v k)"
  by (simp add: keeps_tasks_def set_entry_frame)

lemma proc_wf_set_entry: "proc_wf k \<Longrightarrow> proc_wf (task_set_entry (Some i) e a v k)"
  by (rule proc_wf_keeps [OF _ set_entry_keeps]) (auto simp: set_entry_frame proc_wf_def)

lemma task_create_alloc:
  assumes "task_create name entry arg k = Some (ot, k')"
  obtains k1 where "task_alloc name arg k = Some (ot, k1)" "k' = task_set_entry ot entry 0 0 k1"
  using assms by (fastforce simp: task_create_def task_set_entry_def)

lemma proc_wf_create: "proc_wf k \<Longrightarrow> task_create name entry arg k = Some (ot, k') \<Longrightarrow> proc_wf k'"
  by (erule task_create_alloc, cases ot)
     (simp_all add: proc_wf_alloc proc_wf_set_entry, simp add: task_set_entry_def proc_wf_alloc)

lemma sched_tick_frame:
  assumes "sched_tick k = Some k'"
  shows "length (g_tasks k') = length (g_tasks k)"
    "\<And>j. j < length (g_tasks k) \<Longrightarrow> st k' j = st k j \<and> vp k' j = vp k j \<and>
       t_pid (g_tasks k' ! j) = t_pid (g_tasks k ! j) \<and> t_fd (g_tasks k' ! j) = t_fd (g_tasks k ! j)"
  using assms by (auto simp: sched_tick_def Let_def upd_task_field split: option.splits if_splits)

lemma sched_tick_cur:
  assumes "sched_tick k = Some k'" "proc_wf k"
  obtains s where "g_cur_task k' = Some s" "s < length (g_tasks k)" "st k' s = TASK_RUNNING"
proof -
  obtain c where c: "g_cur_task k = Some c" "c < length (g_tasks k)"
    using assms by (auto simp: sched_tick_def proc_wf_def split: option.splits)
  define k1 where "k1 = upd_task c (\<lambda>t. t\<lparr>t_ticks := t_ticks t + 1\<rparr>) k"
  let ?n = "length (g_tasks k)"
  show thesis
  proof (cases "List.find (runnable k1) (map (tick_slot ?n c) [1..<?n])")
    case None
    then have "k' = k1" "runnable k1 c"
      using assms(1) c by (simp_all add: sched_tick_def Let_def k1_def [symmetric] split: if_splits)
    then show thesis
      using c by (intro that [of c]) (simp_all add: k1_def runnable_def)
  next
    case (Some s)
    then obtain i where i: "1 \<le> i" "i < ?n" "runnable k1 (tick_slot ?n c i)" "s = tick_slot ?n c i"
      unfolding find_least by blast
    then have "s < ?n"
      using c(2) by (auto simp: tick_slot_def)
    moreover have "k' = k1\<lparr>g_cur_task := Some s\<rparr>"
      using assms(1) c Some by (simp add: sched_tick_def Let_def k1_def [symmetric] split: if_splits)
    ultimately show thesis
      using i(3,4) by (intro that [of s]) (simp_all add: runnable_def)
  qed
qed

lemma proc_wf_tick: "sched_tick k = Some k' \<Longrightarrow> proc_wf k \<Longrightarrow> proc_wf k'"
proof -
  assume a: "sched_tick k = Some k'" "proc_wf k"
  note f = sched_tick_frame [OF a(1)]
  obtain s where "g_cur_task k' = Some s" "s < length (g_tasks k)"
    using sched_tick_cur [OF a] by metis
  moreover have "fds_wf (g_tasks k' ! i) = fds_wf (g_tasks k ! i)" if "i < length (g_tasks k)" for i
    using f(2) [OF that] by (intro fds_wf_cong) simp
  ultimately show "proc_wf k'"
    using a(2) f by (simp add: proc_wf_def)
qed

section \<open>Properties\<close>

text \<open>
  C12. The scheduler is fair: as long as no task changes its state, every runnable task gets the
  processor, again and again: it is the current task after at least one and at most as many ticks
  as there are tasks, counted from any moment.
\<close>

theorem sched_fair:
  assumes "g_cur_task k = Some c" "c < length (g_tasks k)" "j < length (g_tasks k)"
    and "t_state (g_tasks k ! j) = TASK_RUNNING"
  shows "\<exists>m k'. 0 < m \<and> m \<le> length (g_tasks k) \<and> ticks m k = Some k' \<and> g_cur_task k' = Some j \<and> same_states k k'"
proof (cases "j = c")
  case False
  have "runnable k j"
    using assms(4) by (simp add: runnable_def)
  from ticks_reach [OF assms(1-3) this] False tick_slot_dist(2) [OF assms(2,3)] show ?thesis
    by (meson less_imp_le order_trans)
next
  case True
  let ?n = "length (g_tasks k)"
  have rj: "runnable k j"
    using assms(4) by (simp add: runnable_def)
  show ?thesis
  proof (cases "\<exists>i < ?n. i \<noteq> c \<and> runnable k i")
    case True
    then obtain i where i: "i < ?n" "i \<noteq> c" "runnable k i"
      by blast
    from sched_tick_next [OF assms(1,2) i] obtain s k1 where
      s: "sched_tick k = Some k1" "g_cur_task k1 = Some s" "s < ?n" "same_states k k1" "s \<noteq> c"
      by metis
    note sr = same_states_runnable [OF s(4) assms(3)]
    obtain m k' where m: "m \<le> dist ?n s j" "ticks m k1 = Some k'" "g_cur_task k' = Some j" "same_states k1 k'"
      using ticks_reach [of k1 s j] s sr assms(3) rj by auto
    have "dist ?n s j < ?n"
      using tick_slot_dist(2) [OF s(3) assms(3)] .
    with m s show ?thesis
      by (intro exI [of _ "Suc m"] exI [of _ k']) (auto intro: same_states_trans)
  next
    case none: False
    define k1 where "k1 = upd_task c (\<lambda>t. t\<lparr>t_ticks := t_ticks t + 1\<rparr>) k"
    have ss: "same_states k k1"
      unfolding k1_def by (rule ticked_states)
    have "\<not> runnable k1 (tick_slot ?n c i)" if "1 \<le> i" "i < ?n" for i
    proof -
      have "tick_slot ?n c i < ?n" "tick_slot ?n c i \<noteq> c"
        using that assms(2) by (auto simp: tick_slot_def)
      with none same_states_runnable [OF ss] show ?thesis
        by auto
    qed
    then have "List.find (runnable k1) (map (tick_slot ?n c) [1..<?n]) = None"
      unfolding find_none by blast
    moreover have "runnable k1 c"
      using same_states_runnable [OF ss assms(2)] rj True by simp
    ultimately have "sched_tick k = Some k1"
      using assms(1,2) by (auto simp: sched_tick_def Let_def k1_def [symmetric])
    with True assms(1,2) ss show ?thesis
      by (intro exI [of _ 1] exI [of _ k1]) (auto simp: k1_def)
  qed
qed

definition demo_ker :: ker where
  "demo_ker = \<lparr>g_tasks = [demo_task\<lparr>t_pid := 0\<rparr>, demo_task, demo_task\<lparr>t_pid := 2, t_state := TASK_WAITING\<rparr>,
     demo_task\<lparr>t_pid := 3\<rparr>], g_cur_task = Some 1, g_syscall_frame = 0x5000,
     k_sys = \<lparr>s_vm = empty_vm [0x2000, 0x3000, 0x4000, 0x5000, 0x6000, 0x7000], s_ram = (\<lambda>_. 0)\<rparr>, k_mem = (\<lambda>_. 0),
     k_cells = (\<lambda>_. 0), k_fs = demo_fs, k_stacks = 0x100000, k_procbufs = 0x200000, k_irq0_resume = 0x300000\<rparr>"

theorem sched_fair_witness:
  "\<exists>m k'. 0 < m \<and> m \<le> 4 \<and> ticks m demo_ker = Some k' \<and> g_cur_task k' = Some 0"
proof -
  have s: "g_cur_task demo_ker = Some 1" "length (g_tasks demo_ker) = 4" "t_state (g_tasks demo_ker ! 0) = TASK_RUNNING"
    by (simp_all add: demo_ker_def demo_task_def fs_task_init_def)
  from sched_fair [OF s(1) _ _ s(3)] s(2) show ?thesis
    by auto
qed

lemma stk_push_cpu: "stk_push vs (c_rsp c) (c_mem c) = (c_rsp (fold push vs c), c_mem (fold push vs c))"
proof (induction vs arbitrary: c)
  case (Cons v vs)
  have p: "c_rsp (push v c) = c_rsp c - 8" "c_mem (push v c) = (c_mem c)(c_rsp c - 8 := v)"
    by (simp_all add: push_def)
  have "stk_push (v # vs) (c_rsp c) (c_mem c) = stk_push vs (c_rsp (push v c)) (c_mem (push v c))"
    unfolding stk_push_def p by simp
  then show ?case
    unfolding Cons by simp
qed (simp add: stk_push_def)

lemma push_frame_stack:
  assumes "i < length (g_tasks k)" "length vs < 1000"
  defines "k' \<equiv> push_frame i vs k"
  shows "stack_is (rev vs) (c\<lparr>c_rsp := t_sp (g_tasks k' ! i), c_mem := k_cells k'\<rparr>)"
proof -
  define c0 where "c0 = c\<lparr>c_rsp := t_stack (g_tasks k ! i) + TASK_STACK_SIZE, c_mem := k_cells k\<rparr>"
  have "stack_is (rev vs @ []) (fold push vs c0)"
    using assms(2) by (intro stack_is_fold_push) simp_all
  moreover have "t_sp (g_tasks k' ! i) = c_rsp (fold push vs c0)" "k_cells k' = c_mem (fold push vs c0)"
    using stk_push_cpu [of vs c0] assms(1) by (simp_all add: k'_def push_frame_def c0_def upd_task_def)
  ultimately show ?thesis
    by (simp add: stack_is_def cell_def)
qed

text \<open>
  C33. A new task does not start at its entry point: the frame that \<open>task_set_entry\<close> prepares has the
  trampoline at its very bottom, where \<open>sched_switch\<close> and \<open>sched_start\<close> first pop six registers, so
  the processor takes the trampoline's address as \<open>r15\<close> and returns to the slot of \<open>r10\<close>, which is
  zero, whatever the entry point and the arguments.
\<close>

theorem new_task_starts_at_zero:
  assumes "i < length (g_tasks k)" "k' = task_set_entry (Some i) entry argc argv k"
    and "sp = t_sp (g_tasks k' ! i)" "c_mem c (c_cur c) = sp"
    and "\<forall>j < 7. c_mem c (sp + of_nat (8 * j)) = k_cells k' (sp + of_nat (8 * j))"
  shows "c_rip (sched_start c) = 0 \<and> r15 (c_regs (sched_start c)) = k_irq0_resume k"
proof -
  define c1 where "c1 = load_task (c_cur c) (cli c)"
  let ?vs = "entry_frame k (t_stack (g_tasks k ! i)) entry argc argv"
  have k': "k' = push_frame i ?vs k"
    using assms(2) by (simp add: task_set_entry_def)
  have "length ?vs = 21"
    by (simp add: entry_frame_def)
  from push_frame_stack [OF assms(1), of ?vs c] this
  have st: "stack_is (rev ?vs) (c\<lparr>c_rsp := sp, c_mem := k_cells k'\<rparr>)"
    by (simp add: k' assms(3))
  have c1: "c_rsp c1 = sp" "c_mem c1 = c_mem c"
    using assms(4) by (simp_all add: c1_def load_task_def cli_def)
  have "cell c1 j = rev ?vs ! j" if "j < 7" for j
    using stack_is_cell [OF st, of j] that assms(5) \<open>length ?vs = 21\<close> by (simp add: cell_def c1)
  then have "stack_is (take 7 (rev ?vs)) c1"
    using \<open>length ?vs = 21\<close> by (simp add: stack_is_def)
  moreover have "take 7 (rev ?vs) = [k_irq0_resume k, 0, 0, 0, 0, 0, 0]"
    by (simp add: entry_frame_def)
  ultimately have "stack_is [k_irq0_resume k, 0, 0, 0, 0, 0, 0] c1"
    by simp
  from resume_cells [OF this] show ?thesis
    by (simp add: sched_start_def c1_def)
qed

theorem new_task_starts_at_zero_witness:
  "\<exists>c. c_mem c (c_cur c) = t_sp (g_tasks (task_set_entry (Some 1) 0x400000 2 0x8100000 demo_ker) ! 1) \<and>
     c_rip (sched_start c) = 0 \<and> r15 (c_regs (sched_start c)) = 0x300000"
proof -
  define k' where "k' = task_set_entry (Some 1) 0x400000 2 0x8100000 demo_ker"
  define sp where "sp = t_sp (g_tasks k' ! 1)"
  have sp: "sp = 0xAF58"
    by (simp add: sp_def k'_def task_set_entry_def push_frame_def entry_frame_def stk_push_def demo_ker_def
        upd_task_def demo_task_def fs_task_init_def)
  define c where "c = demo_cpu\<lparr>c_mem := (k_cells k')(0x7000 := sp)\<rparr>"
  have cur: "c_cur c = 0x7000"
    by (simp add: c_def demo_cpu_def)
  have "sp + of_nat (8 * j) \<noteq> 0x7000" if "j < 7" for j
  proof -
    have "unat (sp + of_nat (8 * j)) = 0xAF58 + 8 * j"
      using that unat_add_of_nat [of sp "8 * j"] by (simp add: sp)
    then show ?thesis
      by auto
  qed
  then have "\<forall>j < 7. c_mem c (sp + of_nat (8 * j)) = k_cells k' (sp + of_nat (8 * j))"
    by (simp add: c_def)
  moreover have "c_mem c (c_cur c) = sp"
    unfolding cur by (simp add: c_def)
  moreover have "1 < length (g_tasks demo_ker)" "k_irq0_resume demo_ker = 0x300000"
    by (simp_all add: demo_ker_def)
  ultimately show ?thesis
    using new_task_starts_at_zero [of 1 demo_ker k' "0x400000" 2 "0x8100000" sp c]
    by (auto simp: k'_def sp_def)
qed

end
