(* ===== verification/Getty_Syscall.thy ===== *)
theory Getty_Syscall
  imports Getty_Proc
begin

text \<open>
  Starting programs and scripts (the first part of bsd/kern/init_ram_getty/script.c) and the system
  calls (syscall.c), on the kernel state with the console output, the table of script paths and the
  clock. A system call returns a value, or does not return to its caller (\<open>None\<close> inside of the
  result: the task exited or is suspended); a fault or panic is \<open>None\<close> outside, and so is a
  call that needs a current task when there is none. Pointers passed by the caller are read and
  written in the kernel's memory \<open>k_mem\<close>: this describes callers whose buffers lie there, as those
  of the scripts do, and not the buffers of a loaded program, which lie in frames of \<open>k_sys\<close>.
\<close>

record shell =
  sh_ker :: ker
  sh_out :: "u8 list"
  sh_data :: "cstr list"
  sh_clock :: "u64 list"
  sh_input :: "u32 list"
  sh_script_main :: u64
  sh_data_addr :: u64
  sh_buf :: u64
  sh_line :: u64

abbreviation SCRIPT_DATA_MAX :: nat where "SCRIPT_DATA_MAX \<equiv> 8"

abbreviation upd_ker :: "(ker \<Rightarrow> ker) \<Rightarrow> shell \<Rightarrow> shell" where
  "upd_ker f s \<equiv> s\<lparr>sh_ker := f (sh_ker s)\<rparr>"

partial_function (option) read_cstr :: "u64 \<Rightarrow> mem \<Rightarrow> cstr option" where
  "read_cstr p m = (if m p = 0 then Some [] else Option.bind (read_cstr (p + 1) m) (\<lambda>s. Some (m p # s)))"

section \<open>Starting tasks\<close>

text \<open>The address of the entry taken, and the table; entries are never given back.\<close>

definition script_task_data_new :: "shell \<Rightarrow> nat option \<times> shell" where
  "script_task_data_new s =
     (if SCRIPT_DATA_MAX \<le> length (sh_data s) then (None, s)
      else (Some (length (sh_data s)), s\<lparr>sh_data := sh_data s @ [[]]\<rparr>))"

definition data_addr :: "shell \<Rightarrow> nat \<Rightarrow> u64" where
  "data_addr s i = sh_data_addr s + of_nat (i * RAMFS_NAME_MAX)"

definition cmd_spawn :: "cstr \<Rightarrow> shell \<Rightarrow> (int \<times> shell) option" where
  "cmd_spawn path s =
     (case script_task_data_new s of
        (None, s1) \<Rightarrow> Some (0, s1)
      | (Some d, s1) \<Rightarrow>
          (case strncpy_buf path (RAMFS_NAME_MAX - 1) of None \<Rightarrow> None
           | Some p \<Rightarrow>
               let s2 = s1\<lparr>sh_data := (sh_data s1)[d := p]\<rparr>
               in map_option (\<lambda>(t, k). (0, s2\<lparr>sh_ker := k\<rparr>))
                    (task_create path (sh_script_main s) (data_addr s d) (sh_ker s2))))"

text \<open>
  The argument count is not initialised when the argument vector cannot be built; \<open>junk\<close> is what
  the stack holds there.
\<close>

definition spawn_task :: "u64 \<Rightarrow> cstr \<Rightarrow> cstr option \<Rightarrow> shell \<Rightarrow> (int \<times> shell) option" where
  "spawn_task junk path argline s =
     (case ramfs_lookup path (k_fs (sh_ker s)) of None \<Rightarrow> Some (- 1, s)
      | Some f \<Rightarrow>
          if elf_valid (file_bytes (sh_ker s) f)
          then (case task_alloc path 0 (sh_ker s) of None \<Rightarrow> None
                | Some (None, k1) \<Rightarrow> Some (- 1, s\<lparr>sh_ker := k1\<rparr>)
                | Some (Some i, k1) \<Rightarrow>
                    (case elf_load_pd (t_cr3 (g_tasks k1 ! i)) (file_bytes (sh_ker s) f) (k_sys k1) of None \<Rightarrow> None
                     | Some (ElfFail, s2) \<Rightarrow>
                         Some (- 1, s\<lparr>sh_ker := upd_task i (\<lambda>t. t\<lparr>t_state := TASK_ZOMBIE\<rparr>) (k1\<lparr>k_sys := s2\<rparr>)\<rparr>)
                     | Some (ElfLoaded entry lo hi, s2) \<Rightarrow>
                         (case task_build_argv (g_tasks k1 ! i) argline s2 of None \<Rightarrow> None
                          | Some ((argv, argc), s3) \<Rightarrow>
                              Some (0, s\<lparr>sh_ker := task_set_entry (Some i) entry
                                     (case argc of None \<Rightarrow> junk | Some n \<Rightarrow> n) argv (k1\<lparr>k_sys := s3\<rparr>)\<rparr>))))
          else cmd_spawn path s)"

section \<open>System calls\<close>

text \<open>Readings of the millisecond clock come from the environment, one per call.\<close>

definition tsc_ms :: "shell \<Rightarrow> (u64 \<times> shell) option" where
  "tsc_ms s = (case sh_clock s of [] \<Rightarrow> None | t # ts \<Rightarrow> Some (t, s\<lparr>sh_clock := ts\<rparr>))"

definition sleep_ms :: "u64 \<Rightarrow> shell \<Rightarrow> shell option" where
  "sleep_ms ms s =
     (case tsc_ms s of None \<Rightarrow> None
      | Some (now, s1) \<Rightarrow>
          (case dropWhile (\<lambda>t. t < now + ms) (sh_clock s1) of [] \<Rightarrow> None
           | t # ts \<Rightarrow> Some (s1\<lparr>sh_clock := ts\<rparr>)))"

definition stat_bytes :: "xkern_stat \<Rightarrow> u8 list" where
  "stat_bytes x = concat (map u32_bytes [st_dev x, st_ino x, st_mode x, st_nlink x, st_uid x, st_gid x,
     st_rdev x, st_size x, st_blksize x, st_blocks x, st_atime x, st_mtime x, st_ctime x])"

definition put_mem :: "u64 \<Rightarrow> u8 list \<Rightarrow> shell \<Rightarrow> shell" where
  "put_mem p bs = upd_ker (\<lambda>k. k\<lparr>k_mem := store_bytes p bs (k_mem k)\<rparr>)"

definition uname_fill :: "u64 \<Rightarrow> shell \<Rightarrow> shell" where
  "uname_fill u s = fold (\<lambda>(i, x). put_mem (u + 65 * i) (bytes_of x @ [0]))
     [(0, ''XKERN''), (1, ''xkern''), (2, ''0.1''), (3, ''XKERN 0.1''), (4, ''x86_64'')] s"

abbreviation XKERN_EXEC_MAGIC :: u32 where "XKERN_EXEC_MAGIC \<equiv> 0x55550001"
abbreviation minus1 :: u32 where "minus1 \<equiv> - 1"

abbreviation cur_task :: "nat \<Rightarrow> shell \<Rightarrow> task" where
  "cur_task c s \<equiv> g_tasks (sh_ker s) ! c"

definition with_path :: "u64 \<Rightarrow> (cstr \<Rightarrow> ('a \<times> shell) option) \<Rightarrow> shell \<Rightarrow> ('a \<times> shell) option" where
  "with_path p f s = (case read_cstr p (k_mem (sh_ker s)) of None \<Rightarrow> None | Some path \<Rightarrow> f path)"

text \<open>An optional string argument: a null pointer is no string.\<close>

definition opt_cstr :: "u64 \<Rightarrow> shell \<Rightarrow> cstr option option" where
  "opt_cstr p s = (if p = 0 then Some None else map_option Some (read_cstr p (k_mem (sh_ker s))))"

abbreviation int_arg :: "u64 \<Rightarrow> int" where
  "int_arg a \<equiv> sint (ucast a :: u32)"

abbreviation ret_int :: "int \<Rightarrow> u32 option" where
  "ret_int r \<equiv> Some (word_of_int r)"

definition sys_file :: "nat \<Rightarrow> u32 \<Rightarrow> u64 \<Rightarrow> u64 \<Rightarrow> u64 \<Rightarrow> shell \<Rightarrow> (u32 option \<times> shell) option" where
  "sys_file c num a1 a2 a3 s =
     (let k = sh_ker s; t = cur_task c s; m = k_mem k; n = length (g_tasks k);
          put = (\<lambda>t' s. upd_ker (upd_task c (\<lambda>_. t')) s)
      in if num = 2 then
           (case fs_write (int_arg a1) a2 (ucast a3) t m of (r, out) \<Rightarrow> Some (ret_int r, s\<lparr>sh_out := sh_out s @ out\<rparr>))
         else if num = 4 then
           (case fs_read (int_arg a1) a2 (ucast a3) t m of (r, t', m') \<Rightarrow>
              Some (ret_int r, upd_ker (\<lambda>k. k\<lparr>k_mem := m'\<rparr>) (put t' s)))
         else if num = 6 then with_path a1 (\<lambda>path.
           map_option (\<lambda>(r, t'). (ret_int r, put t' s)) (fs_open n (k_fs k) path m t)) s
         else if num = 7 then (case fs_close (int_arg a1) t of (r, t') \<Rightarrow> Some (ret_int r, put t' s))
         else if num = 8 then (case fs_lseek (int_arg a1) (ucast a2) (ucast a3) t of (r, t') \<Rightarrow> Some (ret_int r, put t' s))
         else with_path a1 (\<lambda>path.
           map_option (\<lambda>(r, x). (ret_int r, put_mem a2 (stat_bytes x) s)) (fs_stat n (k_fs k) t path m)) s)"

definition sys_dir :: "u32 \<Rightarrow> u64 \<Rightarrow> u64 \<Rightarrow> u64 \<Rightarrow> shell \<Rightarrow> (u32 option \<times> shell) option" where
  "sys_dir num a1 a2 a3 s =
     (let k = sh_ker s
      in if num = 10 then with_path a1 (\<lambda>path. Some (ret_int (fs_access (k_fs k) path), s)) s
         else with_path a1 (\<lambda>path. map_option (\<lambda>(dt, name).
           (Some dt, if dt = 0 then s else put_mem a3 (name @ [0]) s))
             (fs_getdents (g_tasks k) (k_fs k) path (ucast a2) 256)) s)"

definition sys_spawn :: "u64 \<Rightarrow> u64 \<Rightarrow> u64 \<Rightarrow> shell \<Rightarrow> (u32 option \<times> shell) option" where
  "sys_spawn junk a1 a2 s = with_path a1 (\<lambda>path. case opt_cstr a2 s of None \<Rightarrow> None
     | Some args \<Rightarrow> map_option (\<lambda>(r, s'). (Some (if r = 0 then 0 else minus1), s')) (spawn_task junk path args s)) s"

definition sys_proc :: "nat \<Rightarrow> u32 \<Rightarrow> u64 \<Rightarrow> u64 \<Rightarrow> shell \<Rightarrow> (u32 option \<times> shell) option" where
  "sys_proc c num a1 a2 s =
     (if num = 0 then Some (None, upd_ker (task_exit c) s)
      else if num = 18 then map_option (\<lambda>(r, k). (Some r, s\<lparr>sh_ker := k\<rparr>)) (task_vfork c (sh_ker s))
      else if num = 19 then with_path a1 (\<lambda>path. case opt_cstr a2 s of None \<Rightarrow> None
        | Some args \<Rightarrow> map_option (\<lambda>(r, k). (Some (if r = 0 then XKERN_EXEC_MAGIC else minus1), s\<lparr>sh_ker := k\<rparr>))
            (task_exec c path args (sh_ker s))) s
      else (case task_wait_pass c (ucast a1) (sh_ker s) of
              Returned r \<Rightarrow> Some (Some (if r = 0 then 0 else minus1), s)
            | Suspended ok \<Rightarrow> map_option (\<lambda>k. (None, s\<lparr>sh_ker := k\<rparr>)) ok))"

definition syscall_dispatch :: "u64 \<Rightarrow> u32 \<Rightarrow> u64 \<Rightarrow> u64 \<Rightarrow> u64 \<Rightarrow> shell \<Rightarrow> (u32 option \<times> shell) option" where
  "syscall_dispatch junk num a1 a2 a3 s =
     (let cur = g_cur_task (sh_ker s);
          pid = (case cur of None \<Rightarrow> 0 | Some c \<Rightarrow> t_pid (cur_task c s))
      in if num = 1 then Some (Some pid, s)
         else if num = 17 then Some (Some (if 0 < pid then pid - 1 else 0), s)
         else if num \<in> {2, 4, 6, 7, 8, 9} then Option.bind cur (\<lambda>c. sys_file c num a1 a2 a3 s)
         else if num = 3 then map_option (Pair (Some 0)) (sleep_ms a1 s)
         else if num \<in> {10, 11} then sys_dir num a1 a2 a3 s
         else if num = 12 then (if a1 = 0 then Some (Some minus1, s) else Some (Some 0, uname_fill a1 s))
         else if num = 13 then map_option (\<lambda>(t, s'). (Some (ucast t), s')) (tsc_ms s)
         else if num \<in> {14, 15, 16} then Some (Some 0, s)
         else if num = 5 then sys_spawn junk a1 a2 s
         else if num \<in> {0, 18, 19, 20} then Option.bind cur (\<lambda>c. sys_proc c num a1 a2 s)
         else Some (Some minus1, s))"

text \<open>
  The system call instruction, as the handler in isr.asm passes the registers on: the C function
  takes \<open>rdi\<close> as the number, \<open>rsi\<close>, \<open>rdx\<close> and \<open>rcx\<close> as the arguments. A result equal to
  the exec value does not come back to the caller.
\<close>

definition int80 :: "u64 \<Rightarrow> u32 \<Rightarrow> u64 \<Rightarrow> u64 \<Rightarrow> u64 \<Rightarrow> shell \<Rightarrow> (u32 option \<times> shell) option" where
  "int80 junk num a1 a2 a3 s =
     map_option (\<lambda>(r, s'). (if r = Some XKERN_EXEC_MAGIC then None else r, s'))
       (syscall_dispatch junk (ucast a1) a2 a3 (ucast num) s)"

section \<open>What the system calls of a program do\<close>

lemma dispatch_task_calls:
  assumes "g_cur_task (sh_ker s) = Some c"
  shows "syscall_dispatch junk 0 a1 a2 a3 s = Some (None, upd_ker (task_exit c) s)"
    "syscall_dispatch junk 1 a1 a2 a3 s = Some (Some (t_pid (cur_task c s)), s)"
    "syscall_dispatch junk 2 a1 a2 a3 s = sys_file c 2 a1 a2 a3 s"
  using assms by (simp_all add: syscall_dispatch_def sys_proc_def)

text \<open>
  What the stub hands to the dispatcher: the program's \<open>rdi\<close>, \<open>rsi\<close>, \<open>rdx\<close> and \<open>rax\<close> arrive
  as its first to fourth argument, which is the order \<open>int80\<close> has.
\<close>

lemma syscall_handler_passes:
  "\<exists>c2 finish. (\<forall>f. syscall_handler f c = finish (f c2)) \<and>
     rdi (c_regs c2) = rdi (c_regs c) \<and> rsi (c_regs c2) = rsi (c_regs c) \<and>
     rdx (c_regs c2) = rdx (c_regs c) \<and> rcx (c_regs c2) = rax (c_regs c)"
proof -
  have s: "stack_is (saved (c_regs c)) (PUSHALL c)"
    using PUSHALL_stack [of "[]" c] by simp
  have cells: "cell (PUSHALL c) 8 = rdi (c_regs c)" "cell (PUSHALL c) 9 = rsi (c_regs c)"
    "cell (PUSHALL c) 12 = rdx (c_regs c)" "cell (PUSHALL c) 14 = rax (c_regs c)"
    using s by (simp_all add: stack_is_cell [OF s] saved_def)
  let ?c2 = "(PUSHALL c)\<lparr>c_frame := c_rsp (PUSHALL c), c_regs := (c_regs (PUSHALL c))
     \<lparr>rdi := cell (PUSHALL c) 8, rsi := cell (PUSHALL c) 9, rdx := cell (PUSHALL c) 12, rcx := cell (PUSHALL c) 14\<rparr>\<rparr>"
  let ?g = "\<lambda>c3. let c4 = c3\<lparr>c_mem := (c_mem c3)(c_rsp c3 + 112 := rax (c_regs c3))\<rparr>
      in if rax (c_regs c4) = 0x55550001 then resume (load_task (c_cur c4) c4) else iretq (POPALL c4)"
  have "\<forall>f. syscall_handler f c = ?g (f ?c2)"
    by (simp add: syscall_handler_def Let_def)
  then show ?thesis
    by (intro exI [of _ ?c2] exI [of _ ?g]) (simp add: cells)
qed

text \<open>C29. The handler of the system call instruction hands the registers on in the wrong order, so
  the first argument of a call selects what is done. A program that asks for its pid is ended; one
  that writes to descriptor 1 gets its pid back and nothing is written, although the dispatcher
  given the call in the declared order writes exactly the bytes of the buffer to the console.\<close>

theorem syscall_registers_rotated:
  assumes "g_cur_task (sh_ker s) = Some c" "fd_type (t_fd (cur_task c s) ! 1) = 2"
    and "t_pid (cur_task c s) \<noteq> XKERN_EXEC_MAGIC"
  shows "int80 junk 1 0 0 0 s = Some (None, upd_ker (task_exit c) s) \<and>
    int80 junk 2 1 buf n s = Some (Some (t_pid (cur_task c s)), s) \<and>
    syscall_dispatch junk 2 1 buf n s = Some (Some (ucast n),
       s\<lparr>sh_out := sh_out s @ load_bytes buf (unat (ucast n :: u32)) (k_mem (sh_ker s))\<rparr>)"
  using assms by (simp_all add: int80_def dispatch_task_calls sys_file_def fs_write_def fd_ok_def)

definition demo_shell :: shell where
  "demo_shell = \<lparr>sh_ker = demo_ker\<lparr>g_tasks := [fs_task_init demo_task], g_cur_task := Some 0\<rparr>, sh_out = [],
     sh_data = [], sh_clock = [], sh_input = [], sh_script_main = 0x9000, sh_data_addr = 0x8000, sh_buf = 0x6000, sh_line = 0x7000\<rparr>"

theorem syscall_registers_rotated_witness:
  "g_cur_task (sh_ker demo_shell) = Some 0 \<and>
   int80 0 1 0 0 0 demo_shell = Some (None, upd_ker (task_exit 0) demo_shell) \<and>
   int80 0 2 1 0x1000 3 demo_shell = Some (Some (t_pid (cur_task 0 demo_shell)), demo_shell)"
proof -
  have a: "g_cur_task (sh_ker demo_shell) = Some 0"
    by (simp add: demo_shell_def)
  have b: "fd_type (t_fd (cur_task 0 demo_shell) ! 1) = 2"
    by (simp add: demo_shell_def fs_task_init_def nth_append empty_fd_def)
  have "t_pid (cur_task 0 demo_shell) \<noteq> XKERN_EXEC_MAGIC"
    by (simp add: demo_shell_def demo_task_def fs_task_init_def)
  from a syscall_registers_rotated [OF a b this] show ?thesis
    by blast
qed

end
