(* ===== verification/Getty_Steps.thy ===== *)
theory Getty_Steps
  imports Getty_Syscall
begin

text \<open>
  The process operations of bsd/kern/init_ram_getty as a step relation on the kernel state: timer
  ticks and the system calls of the current task, in any order. Each operation is one step (a timer
  interrupt falls between operations, on the one processor that runs tasks). A task that has exited
  makes no step of its own; it is left by the next tick. Failed operations that change the page
  tables only are steps too. The relation gives the table invariant for every reachable state, and
  what \<open>task_vfork\<close> promises about its caller.
\<close>

datatype kevent = Tick | Vfork nat | Exec nat int | Exit nat | Wait nat | Resumed nat | Spawn nat | Files nat

definition acts :: "ker \<Rightarrow> nat \<Rightarrow> bool" where
  "acts k c \<longleftrightarrow> g_cur_task k = Some c \<and> st k c \<noteq> TASK_ZOMBIE"

text \<open>The file calls that change the descriptors of a task, and the memory they leave.\<close>

inductive file_call :: "ker \<Rightarrow> task \<Rightarrow> task \<Rightarrow> mem \<Rightarrow> bool" for k t where
  open_call: "fs_open (length (g_tasks k)) (k_fs k) path (k_mem k) t = Some (r, t') \<Longrightarrow> file_call k t t' (k_mem k)"
| close_call: "file_call k t (snd (fs_close fd t)) (k_mem k)"
| read_call: "fs_read fd buf n t (k_mem k) = (r, t', m') \<Longrightarrow> file_call k t t' m'"
| lseek_call: "file_call k t (snd (fs_lseek fd off whence t)) (k_mem k)"

inductive kstep :: "kevent \<Rightarrow> ker \<Rightarrow> ker \<Rightarrow> bool" where
  tick: "sched_tick k = Some k' \<Longrightarrow> kstep Tick k k'"
| vfork: "acts k c \<Longrightarrow> task_vfork c k = Some (r, k') \<Longrightarrow> kstep (Vfork c) k k'"
| exec: "acts k c \<Longrightarrow> task_exec c path args k = Some (r, k') \<Longrightarrow> kstep (Exec c r) k k'"
| exit: "acts k c \<Longrightarrow> kstep (Exit c) k (task_exit c k)"
| wait: "acts k c \<Longrightarrow> task_wait_pass c pid k = Suspended (Some k') \<Longrightarrow> kstep (Wait c) k k'"
| resumed: "acts k c \<Longrightarrow> runnable k c \<Longrightarrow> kstep (Resumed c) k (task_wait_resumed c k)"
| spawn: "acts (sh_ker s) c \<Longrightarrow> spawn_task junk path args s = Some (r, s') \<Longrightarrow> kstep (Spawn c) (sh_ker s) (sh_ker s')"
| files: "acts k c \<Longrightarrow> file_call k (g_tasks k ! c) t' m' \<Longrightarrow> kstep (Files c) k ((upd_task c (\<lambda>_. t') k)\<lparr>k_mem := m'\<rparr>)"

inductive_cases kstep_Exit: "kstep (Exit c) k k'"
inductive_cases kstep_Exec: "kstep (Exec c r) k k'"

text \<open>The kernel from its first task on: tasks are created, the scheduler is booted, then steps.\<close>

inductive reach :: "ker \<Rightarrow> bool" where
  start: "g_tasks k = [] \<Longrightarrow> g_cur_task k = None \<Longrightarrow> reach k"
| create: "reach k \<Longrightarrow> g_cur_task k = None \<Longrightarrow> task_create name entry arg k = Some (ot, k') \<Longrightarrow> reach k'"
| boot: "reach k \<Longrightarrow> i < length (g_tasks k) \<Longrightarrow> sched_boot (Some i) k = Some k' \<Longrightarrow> reach k'"
| step: "reach k \<Longrightarrow> kstep e k k' \<Longrightarrow> reach k'"

text \<open>The end of a vfork: the step by which a task with the given vfork parent exits or becomes another program.\<close>

definition releases :: "nat \<Rightarrow> ker \<Rightarrow> kevent \<Rightarrow> bool" where
  "releases p k e \<longleftrightarrow> (\<exists>i. (e = Exit i \<or> e = Exec i 0) \<and> vp k i \<noteq> 0 \<and> unat (vp k i) = p)"

inductive quiet :: "nat \<Rightarrow> ker \<Rightarrow> ker \<Rightarrow> bool" for p k where
  quiet_refl: "quiet p k k"
| quiet_step: "quiet p k k1 \<Longrightarrow> kstep e k1 k2 \<Longrightarrow> \<not> releases p k1 e \<Longrightarrow> quiet p k k2"

section \<open>What the steps keep\<close>

lemma file_call_frame:
  "file_call k t t' m' \<Longrightarrow> t_state t' = t_state t \<and> t_vfork_parent t' = t_vfork_parent t \<and> t_pid t' = t_pid t"
  by (erule file_call.cases)
     (auto simp: fs_open_def set_fd_def fs_close_def fs_read_def fs_lseek_def Let_def
       split: option.splits if_splits)

lemma file_call_wf: "file_call k t t' m' \<Longrightarrow> fds_wf t \<Longrightarrow> fds_wf t'"
  by (erule file_call.cases) (auto intro: fds_wf_open fds_wf_close fds_wf_read fds_wf_lseek)

text \<open>
  \<open>adds k k'\<close>: the operation leaves the tasks as they are, and at most adds an entry that is nobody's
  vfork child.
\<close>

definition adds :: "ker \<Rightarrow> ker \<Rightarrow> bool" where
  "adds k k' \<longleftrightarrow> keeps_tasks k k' \<and> (\<forall>j < length (g_tasks k). st k' j = st k j) \<and>
     (length (g_tasks k') = length (g_tasks k) \<or>
      (length (g_tasks k') = Suc (length (g_tasks k)) \<and> length (g_tasks k) < PROC_MAX_TASKS \<and>
       vp k' (length (g_tasks k)) = 0 \<and> t_pid (g_tasks k' ! length (g_tasks k)) = of_nat (length (g_tasks k)) \<and>
       fds_wf (g_tasks k' ! length (g_tasks k))))"

lemma adds_refl [simp]: "adds k k"
  by (simp add: adds_def)

lemma adds_alloc: "task_alloc name arg k = Some (ot, k') \<Longrightarrow> adds k k'"
  using task_alloc_frame [of name arg k ot k'] by (auto simp: adds_def)

text \<open>Changing the new entry only, or none, keeps it.\<close>

lemma adds_new:
  assumes "adds k k1" "length (g_tasks k2) = length (g_tasks k1)" "g_cur_task k2 = g_cur_task k1"
    and "\<And>j. j < length (g_tasks k1) \<Longrightarrow> vp k2 j = vp k1 j \<and> t_pid (g_tasks k2 ! j) = t_pid (g_tasks k1 ! j) \<and>
      t_fd (g_tasks k2 ! j) = t_fd (g_tasks k1 ! j)"
    and "\<And>j. j < length (g_tasks k) \<Longrightarrow> st k2 j = st k1 j"
  shows "adds k k2"
proof -
  have l: "length (g_tasks k) \<le> length (g_tasks k1)"
    using assms(1) by (simp add: adds_def keeps_tasks_def)
  have w: "j < length (g_tasks k1) \<Longrightarrow> fds_wf (g_tasks k2 ! j) = fds_wf (g_tasks k1 ! j)" for j
    using assms(4) by (intro fds_wf_cong) simp
  show ?thesis
    using assms l w by (auto simp: adds_def keeps_tasks_def)
qed

lemma adds_create: "task_create name entry arg k = Some (ot, k') \<Longrightarrow> adds k k'"
proof (erule task_create_alloc)
  fix k1 assume a: "task_alloc name arg k = Some (ot, k1)" "k' = task_set_entry ot entry 0 0 k1"
  show "adds k k'"
  proof (cases ot)
    case None
    then show ?thesis using a adds_alloc by (simp add: task_set_entry_def)
  next
    case (Some i)
    then have "i = length (g_tasks k)"
      using task_alloc_frame(3) [OF a(1)] by simp
    then show ?thesis
      unfolding a(2) Some
      by (intro adds_new [OF adds_alloc [OF a(1)]])
         (use task_alloc_frame(1) [OF a(1)] in \<open>simp_all add: set_entry_frame keeps_tasks_def\<close>)
  qed
qed

lemma adds_vm: "adds k k1 \<Longrightarrow> adds k (k1\<lparr>k_sys := x\<rparr>)"
  by (erule adds_new) simp_all

lemma adds_spawn_elf:
  assumes "task_alloc path 0 k = Some (Some i, k1)"
  shows "adds k (upd_task i (\<lambda>t. t\<lparr>t_state := TASK_ZOMBIE\<rparr>) (k1\<lparr>k_sys := x\<rparr>))"
    "adds k (task_set_entry (Some i) e n v (k1\<lparr>k_sys := x\<rparr>))"
proof -
  have a: "adds k (k1\<lparr>k_sys := x\<rparr>)"
    by (rule adds_vm [OF adds_alloc [OF assms]])
  have i: "i = length (g_tasks k)" "length (g_tasks k) \<le> length (g_tasks k1)"
    using task_alloc_frame [OF assms] by (auto simp: keeps_tasks_def)
  show "adds k (upd_task i (\<lambda>t. t\<lparr>t_state := TASK_ZOMBIE\<rparr>) (k1\<lparr>k_sys := x\<rparr>))"
    by (rule adds_new [OF a]) (simp_all add: upd_task_field i)
  show "adds k (task_set_entry (Some i) e n v (k1\<lparr>k_sys := x\<rparr>))"
    by (rule adds_new [OF a]) (use i(2) in \<open>simp_all add: set_entry_frame i(1)\<close>)
qed

lemma adds_cmd_spawn: "cmd_spawn path s = Some (r, s') \<Longrightarrow> adds (sh_ker s) (sh_ker s')"
  by (auto simp: cmd_spawn_def script_task_data_new_def Let_def split: option.splits if_splits
      dest: adds_create)

lemma adds_spawn: "spawn_task junk path args s = Some (r, s') \<Longrightarrow> adds (sh_ker s) (sh_ker s')"
  by (auto simp: spawn_task_def split: option.splits if_splits elf_result.splits prod.splits
      intro: adds_alloc adds_spawn_elf adds_cmd_spawn)

lemma proc_wf_adds: "proc_wf k \<Longrightarrow> adds k k' \<Longrightarrow> proc_wf k'"
  by (rule proc_wf_keeps [of k]) (auto simp: adds_def proc_wf_def less_Suc_eq)

lemma proc_wf_state: "proc_wf k \<Longrightarrow> proc_wf (upd_task c (\<lambda>t. t\<lparr>t_state := x\<rparr>) k)"
  by (rule proc_wf_keeps [of k]) (auto simp: keeps_tasks_def upd_task_field proc_wf_def)

lemma proc_wf_files:
  assumes "proc_wf k" "file_call k (g_tasks k ! c) t' m'" "c < length (g_tasks k)"
  shows "proc_wf ((upd_task c (\<lambda>_. t') k)\<lparr>k_mem := m'\<rparr>)"
proof -
  have t: "t_pid t' = of_nat c" "fds_wf t'" "t_vfork_parent t' = vp k c" "vp k c = 0 \<or> unat (vp k c) < c"
    using assms file_call_frame [OF assms(2)] file_call_wf [OF assms(2)] by (auto simp: proc_wf_def)
  have "t_pid (g_tasks (upd_task c (\<lambda>_. t') k) ! i) = of_nat i \<and> fds_wf (g_tasks (upd_task c (\<lambda>_. t') k) ! i) \<and>
      (vp (upd_task c (\<lambda>_. t') k) i = 0 \<or> unat (vp (upd_task c (\<lambda>_. t') k) i) < i)" if "i < length (g_tasks k)" for i
    using assms t that by (cases "i = c") (auto simp: proc_wf_def)
  then show ?thesis
    using assms(1) by (simp add: proc_wf_def)
qed

lemma wait_suspended:
  assumes "task_wait_pass c pid k = Suspended (Some k')"
  shows "sched_tick (upd_task c (\<lambda>t. t\<lparr>t_state := TASK_WAITING\<rparr>) k) = Some k'"
  using assms by (auto simp: task_wait_pass_def split: option.splits if_splits)

lemma proc_wf_step: "kstep e k k' \<Longrightarrow> proc_wf k \<Longrightarrow> proc_wf k'"
proof (induction rule: kstep.induct)
  case (wait k c pid k')
  then show ?case
    using proc_wf_tick [OF wait_suspended] proc_wf_state by blast
next
  case (resumed k c)
  then show ?case by (simp add: task_wait_resumed_def proc_wf_state)
next
  case (spawn s c junk path args r s')
  then show ?case using proc_wf_adds adds_spawn by blast
qed (auto simp: acts_def intro: proc_wf_tick proc_wf_vfork proc_wf_exec proc_wf_exit proc_wf_files dest: proc_wf_cur)

section \<open>A parent waiting for its vfork child\<close>

definition parked :: "nat \<Rightarrow> ker \<Rightarrow> bool" where
  "parked p k \<longleftrightarrow> p < length (g_tasks k) \<and> st k p = TASK_WAITING \<and> g_cur_task k \<noteq> Some p"

lemma parked_tick: "sched_tick k = Some k' \<Longrightarrow> proc_wf k \<Longrightarrow> p < length (g_tasks k) \<Longrightarrow> st k p = TASK_WAITING \<Longrightarrow> parked p k'"
  using sched_tick_cur [of k k'] sched_tick_frame [of k k']
  by (metis option.inject parked_def task_state.distinct(5))

lemma parked_keeps: "parked p k \<Longrightarrow> keeps_tasks k k' \<Longrightarrow> st k' p = st k p \<Longrightarrow> parked p k'"
  by (simp add: parked_def keeps_tasks_def)

lemma acts_parked: "acts k c \<Longrightarrow> parked p k \<Longrightarrow> p \<noteq> c"
  by (auto simp: acts_def parked_def)

text \<open>A failed exec leaves every other task's state alone.\<close>

lemma exec_keeps_parent:
  assumes "task_exec c path args k = Some (r, k')" "c < length (g_tasks k)"
  shows "r \<noteq> 0 \<Longrightarrow> j < length (g_tasks k) \<Longrightarrow> j \<noteq> c \<Longrightarrow> st k' j = st k j"
  using assms
  by (auto simp: task_exec_def Let_def upd_task_field split: option.splits prod.splits if_splits elf_result.splits)

lemma parked_step: "kstep e k k' \<Longrightarrow> proc_wf k \<Longrightarrow> parked p k \<Longrightarrow> \<not> releases p k e \<Longrightarrow> parked p k'"
proof (induction rule: kstep.induct)
  case (tick k k')
  then show ?case by (intro parked_tick [OF tick(1)]) (simp_all add: parked_def)
next
  case (vfork k c r k')
  then have "c < length (g_tasks k)" "p \<noteq> c" "p < length (g_tasks k)"
    by (auto simp: acts_def parked_def dest: proc_wf_cur)
  then show ?case
    using task_vfork_frame(1,2) [OF vfork(2)] by (intro parked_keeps [OF vfork.prems(2)]) simp_all
next
  case (exec k c path args r k')
  then have c: "c < length (g_tasks k)" "p \<noteq> c" "p < length (g_tasks k)"
    by (auto simp: acts_def parked_def dest: proc_wf_cur)
  have "r = 0 \<Longrightarrow> vp k c = 0 \<or> unat (vp k c) \<noteq> p"
    using exec.prems(3) by (auto simp: releases_def)
  then have "st k' p = st k p"
    using task_exec_frame(3) [OF exec(2) c(1) c(3) c(2)] exec_keeps_parent [OF exec(2) c(1) _ c(3) c(2)] by blast
  with task_exec_frame(1) [OF exec(2) c(1)] show ?case
    by (intro parked_keeps [OF exec.prems(2)])
next
  case (exit k c)
  then have c: "c < length (g_tasks k)" "p \<noteq> c" "p < length (g_tasks k)"
    by (auto simp: acts_def parked_def dest: proc_wf_cur)
  have "vp k c = 0 \<or> unat (vp k c) \<noteq> p"
    using exit.prems(3) by (auto simp: releases_def)
  then show ?case
    using c by (intro parked_keeps [OF exit.prems(2) task_exit_frame(1)] task_exit_frame(3)) simp_all
next
  case (wait k c pid k')
  let ?k1 = "upd_task c (\<lambda>t. t\<lparr>t_state := TASK_WAITING\<rparr>) k"
  have "p \<noteq> c" by (rule acts_parked [OF wait(1)]) fact
  then show ?case
    using wait.prems by (intro parked_tick [OF wait_suspended [OF wait(2)]] proc_wf_state) (simp_all add: parked_def)
next
  case (resumed k c)
  then show ?case
    using acts_parked [of k c p] by (simp add: task_wait_resumed_def parked_def)
next
  case (spawn s c junk path args r s')
  then show ?case
    using adds_spawn [OF spawn(2)] by (intro parked_keeps [OF spawn.prems(2)]) (simp_all add: adds_def parked_def)
next
  case (files k c t' m')
  then show ?case
    using acts_parked [of k c p] by (simp add: parked_def)
qed

lemma wake_parent_wakes:
  assumes "vp k c \<noteq> 0" "unat (vp k c) = p" "p < length (g_tasks k)" "st k p = TASK_WAITING"
  shows "st (wake_parent c k) p = TASK_RUNNING"
  using assms by (simp add: wake_parent_def Let_def task_find_def)

lemma exec_wakes:
  assumes "task_exec c path args k = Some (0, k')" "c < length (g_tasks k)" "p \<noteq> c"
    and "vp k c \<noteq> 0" "unat (vp k c) = p" "p < length (g_tasks k)" "st k p = TASK_WAITING"
  shows "st k' p = TASK_RUNNING"
  using assms
  by (auto simp: task_exec_def Let_def set_entry_frame upd_task_field intro!: wake_parent_wakes
      split: option.splits prod.splits if_splits elf_result.splits)

lemma exit_wakes:
  assumes "c < length (g_tasks k)" "p \<noteq> c" "vp k c \<noteq> 0" "unat (vp k c) = p"
    and "p < length (g_tasks k)" "st k p = TASK_WAITING"
  shows "st (task_exit c k) p = TASK_RUNNING"
  unfolding task_exit_def using assms by (intro wake_parent_wakes) simp_all

lemma released_step:
  assumes "kstep e k k'" "proc_wf k" "parked p k" "releases p k e"
  shows "st k' p = TASK_RUNNING"
proof -
  obtain i where i: "e = Exit i \<or> e = Exec i 0" "vp k i \<noteq> 0" "unat (vp k i) = p"
    using assms(4) by (auto simp: releases_def)
  have p: "p < length (g_tasks k)" "st k p = TASK_WAITING"
    using assms(3) by (simp_all add: parked_def)
  have c: "i < length (g_tasks k)" "p \<noteq> i" if "acts k i"
    using that assms(2,3) acts_parked by (auto simp: acts_def dest: proc_wf_cur)
  from i(1) show ?thesis
  proof
    assume "e = Exit i"
    with assms(1) have "acts k i" "k' = task_exit i k"
      by (auto elim: kstep_Exit)
    with c i p show ?thesis by (simp add: exit_wakes)
  next
    assume "e = Exec i 0"
    with assms(1) obtain path args where "acts k i" "task_exec i path args k = Some (0, k')"
      by (auto elim: kstep_Exec)
    with c i p show ?thesis by (blast intro: exec_wakes)
  qed
qed

lemma quiet_parked: "quiet p k k' \<Longrightarrow> proc_wf k \<Longrightarrow> parked p k \<Longrightarrow> proc_wf k' \<and> parked p k'"
  by (induction rule: quiet.induct) (auto intro: proc_wf_step parked_step)

lemma vfork_parks:
  assumes "proc_wf k" "g_cur_task k = Some c" "task_vfork c k = Some (r, k1)" "r \<noteq> - 1" "sched_tick k1 = Some k2"
  shows "proc_wf k2" "parked c k2"
proof -
  have c: "c < length (g_tasks k)"
    using assms(1,2) by (rule proc_wf_cur)
  have k1: "proc_wf k1"
    by (rule proc_wf_vfork [OF assms(1) c assms(3)])
  show "proc_wf k2"
    by (rule proc_wf_tick [OF assms(5) k1])
  show "parked c k2"
    by (rule parked_tick [OF assms(5) k1]) (use task_vfork_frame(3) [OF assms(3) c] assms(4) c in auto)
qed

section \<open>Properties\<close>

text \<open>
  C8. A vfork parent does not run while a child shares its address space: from the first timer tick
  after a successful \<open>task_vfork\<close>, and for as long as no task that has the caller as its vfork parent
  exits or becomes another program, whatever steps the kernel makes, the caller is neither current nor
  runnable; the next step makes it runnable exactly when it is such an exit or successful exec.
\<close>

theorem vfork_parent_parked:
  assumes "proc_wf k" "g_cur_task k = Some c" "task_vfork c k = Some (r, k1)" "r \<noteq> - 1" "sched_tick k1 = Some k2"
    and "quiet c k2 k'"
  shows "g_cur_task k' \<noteq> Some c \<and> st k' c = TASK_WAITING \<and>
    (\<forall>e k''. kstep e k' k'' \<longrightarrow> (st k'' c = TASK_RUNNING \<longleftrightarrow> releases c k' e))"
proof -
  have p: "proc_wf k'" "parked c k'"
    using quiet_parked [OF assms(6) vfork_parks [OF assms(1-5)]] by simp_all
  have "st k'' c = TASK_RUNNING \<longleftrightarrow> releases c k' e" if "kstep e k' k''" for e k''
    using released_step [OF that p] parked_step [OF that p] by (cases "releases c k' e") (simp_all add: parked_def)
  with p(2) show ?thesis
    by (simp add: parked_def)
qed

text \<open>
  C10. The table invariant holds in every state the kernel reaches from an empty task table, by
  creating tasks, booting the scheduler, and then any sequence of ticks and system calls: at most 32
  entries, each at the index of its pid with a well-formed descriptor table, every vfork parent an
  older task, and the current task an entry of the table.
\<close>

theorem reachable_proc_wf: "reach k \<Longrightarrow> proc_wf k"
proof (induction rule: reach.induct)
  case (start k)
  then show ?case by (simp add: proc_wf_def)
next
  case (create k name entry arg ot k')
  then show ?case using proc_wf_create by blast
next
  case (boot k i k')
  then show ?case by (auto simp: sched_boot_def proc_wf_def split: if_splits)
next
  case (step k e k')
  then show ?case using proc_wf_step by blast
qed

section \<open>Instances\<close>

definition boot_ker :: ker where
  "boot_ker = demo_ker\<lparr>g_tasks := [], g_cur_task := None\<rparr>"

lemma vfork_clone_frame: "fst (paging_vfork_clone s) = fst (vm_alloc (snd (cli_save s)))"
  by (simp add: paging_vfork_clone_def Let_def split: prod.split)

lemma demo_task_wf: "fds_wf demo_task"
  by (auto simp: demo_task_def fds_wf_def fs_task_init_def empty_fd_def nth_append)

lemma demo_ker_wf: "proc_wf demo_ker"
proof -
  have w: "fds_wf (demo_task\<lparr>t_pid := a\<rparr>)" "fds_wf (demo_task\<lparr>t_pid := a, t_state := b\<rparr>)" for a b
    using demo_task_wf by (simp_all add: fds_wf_def)
  have "t_pid demo_task = 1" "t_vfork_parent demo_task = 0"
    by (simp_all add: demo_task_def fs_task_init_def)
  then have e: "t_pid (g_tasks demo_ker ! i) = of_nat i \<and> fds_wf (g_tasks demo_ker ! i) \<and> vp demo_ker i = 0"
    if "i = 0 \<or> i = 1 \<or> i = 2 \<or> i = 3" for i
    using that w demo_task_wf by (elim disjE) (simp_all add: demo_ker_def)
  have "i = 0 \<or> i = 1 \<or> i = 2 \<or> i = 3" if "i < 4" for i :: nat
    using that by linarith
  with e show ?thesis
    unfolding proc_wf_def by (simp add: demo_ker_def)
qed

lemma demo_vfork: "\<exists>k1. task_vfork 1 demo_ker = Some (4, k1)"
proof -
  have "fst (paging_vfork_clone (s_vm (k_sys demo_ker))) \<noteq> 0"
    by (simp add: vfork_clone_frame demo_ker_def vm_alloc_def cli_save_def empty_vm_def pmm_alloc_def)
  moreover have "length (g_tasks demo_ker) = 4" "strncpy_buf (t_name (g_tasks demo_ker ! 1)) 31 \<noteq> None"
    by (simp_all add: demo_ker_def demo_task_def fs_task_init_def strncpy_buf_def bytes_of_def)
  ultimately show ?thesis
    unfolding task_vfork_def Let_def by (auto split: prod.split)
qed

lemma sched_tick_some:
  assumes "g_cur_task k = Some c" "c < length (g_tasks k)" "1 \<le> i" "i < length (g_tasks k)"
    and "runnable k (tick_slot (length (g_tasks k)) c i)"
  shows "\<exists>k'. sched_tick k = Some k'"
proof -
  let ?n = "length (g_tasks k)" and ?k1 = "upd_task c (\<lambda>t. t\<lparr>t_ticks := t_ticks t + 1\<rparr>) k"
  have "tick_slot ?n c i < ?n"
    using assms(2,4) by (auto simp: tick_slot_def)
  then have "runnable ?k1 (tick_slot ?n c i)"
    using assms(5) by (simp add: runnable_def upd_task_field)
  then have "List.find (runnable ?k1) (map (tick_slot ?n c) [1..<?n]) \<noteq> None"
    using assms(3,4) by (auto simp: find_None_iff)
  then show ?thesis
    using assms(1,4) by (auto simp: sched_tick_def Let_def split: option.split)
qed

theorem vfork_parent_parked_witness:
  "\<exists>k1 k2. task_vfork 1 demo_ker = Some (4, k1) \<and> sched_tick k1 = Some k2 \<and>
     g_cur_task k2 \<noteq> Some 1 \<and> st k2 1 = TASK_WAITING"
proof -
  obtain k1 where k1: "task_vfork 1 demo_ker = Some (4, k1)"
    using demo_vfork by blast
  have d: "g_cur_task demo_ker = Some 1" "length (g_tasks demo_ker) = 4" "st demo_ker 3 = TASK_RUNNING"
    by (simp_all add: demo_ker_def demo_task_def fs_task_init_def)
  then have f: "g_cur_task k1 = Some 1" "length (g_tasks k1) = 5" "st k1 3 = TASK_RUNNING"
    using task_vfork_frame [OF k1] by (auto simp: keeps_tasks_def)
  have t: "tick_slot 5 1 2 = 3"
    by (simp add: tick_slot_def)
  obtain k2 where k2: "sched_tick k1 = Some k2"
    using f sched_tick_some [of k1 1 2] t by (auto simp: runnable_def)
  have "(4 :: u32) \<noteq> - 1"
    by simp
  from vfork_parent_parked [OF demo_ker_wf d(1) k1 this k2 quiet_refl] k1 k2 show ?thesis
    by blast
qed

theorem reachable_proc_wf_witness:
  "\<exists>ot k. task_create (bytes_of ''idle'') 0x400000 0 boot_ker = Some (ot, k) \<and> proc_wf k"
proof -
  have "strncpy_buf (bytes_of ''idle'') 31 = Some (bytes_of ''idle'')" "g_tasks boot_ker = []"
    by (simp_all add: strncpy_buf_def bytes_of_def boot_ker_def)
  then have "task_alloc (bytes_of ''idle'') 0 boot_ker \<noteq> None"
    by (simp add: task_alloc_def Let_def split: prod.split)
  then have "task_create (bytes_of ''idle'') 0x400000 0 boot_ker \<noteq> None"
    by (simp add: task_create_def)
  then obtain ot k where k: "task_create (bytes_of ''idle'') 0x400000 0 boot_ker = Some (ot, k)"
    by fastforce
  have "reach boot_ker" "g_cur_task boot_ker = None"
    by (auto simp: boot_ker_def intro: reach.start)
  from reachable_proc_wf [OF reach.create [OF this k]] k show ?thesis
    by blast
qed

end
