(* ===== verification/Getty_Script.thy ===== *)
theory Getty_Script
  imports Getty_Syscall
begin

text \<open>
  The command interpreter of the boot scripts, bsd/kern/init_ram_getty/script.c and valid.c, and the
  boot module of init.c. The commands make their system calls with the system call instruction
  (\<open>int80\<close>), so what they do is what that instruction does. An argument is its address with its
  string. A script is read and cut up in place, in the memory of its file. Logging and clearing the
  display leave no trace in the stream of output.
\<close>

section \<open>Commands\<close>

abbreviation INIT_LINE_MAX :: nat where "INIT_LINE_MAX \<equiv> 256"
abbreviation INIT_TOKENS_MAX :: nat where "INIT_TOKENS_MAX \<equiv> 16"

definition cmd_table :: "(cstr \<times> nat \<times> nat) list" where
  "cmd_table = [(bytes_of ''echo'', 1, INIT_TOKENS_MAX - 1), (bytes_of ''clear'', 0, 0), (bytes_of ''version'', 0, 0),
     (bytes_of ''list'', 0, 1), (bytes_of ''read'', 1, 1), (bytes_of ''pid'', 0, 0), (bytes_of ''sleep'', 1, 1),
     (bytes_of ''spawn'', 1, 1), (bytes_of ''shell'', 0, 0), (bytes_of ''idle'', 0, 0), (bytes_of ''exit'', 0, 0)]"

text \<open>The number of a command, 0 for an unknown one.\<close>

definition valid_command :: "cstr \<Rightarrow> nat" where
  "valid_command name =
     (if name = [] then 0
      else case List.find (\<lambda>i. fst (cmd_table ! i) = name) [0..<length cmd_table] of None \<Rightarrow> 0 | Some i \<Rightarrow> i + 1)"

definition valid_args :: "cstr \<Rightarrow> nat \<Rightarrow> bool" where
  "valid_args name nargs =
     (let id = valid_command name
      in if id = 0 then False
         else fst (snd (cmd_table ! (id - 1))) \<le> nargs \<and> nargs \<le> snd (snd (cmd_table ! (id - 1))))"

section \<open>Lines and words\<close>

definition tok_blank :: "u8 \<Rightarrow> bool" where
  "tok_blank c \<longleftrightarrow> c = 0x20 \<or> c = 9"

text \<open>
  The words of a line with their offsets, at most 15 of them, and the line as it is left: the blank
  behind each word is overwritten with a terminator.
\<close>

function tok_loop :: "nat \<Rightarrow> nat \<Rightarrow> cstr \<Rightarrow> (nat \<times> cstr) list \<times> u8 list" where
  "tok_loop argc off xs =
     (let b = takeWhile tok_blank xs; q = dropWhile tok_blank xs;
          w = takeWhile (\<lambda>c. \<not> tok_blank c) q; r = dropWhile (\<lambda>c. \<not> tok_blank c) q;
          o1 = off + length b; new = (if argc < INIT_TOKENS_MAX - 1 then [(o1, w)] else [])
      in if q = [] then ([], b)
         else case r of [] \<Rightarrow> (new, b @ w)
              | _ # r' \<Rightarrow> (case tok_loop (argc + length new) (o1 + length w + 1) r' of
                  (ts, ys) \<Rightarrow> (new @ ts, b @ w @ [0] @ ys)))"
  by pat_completeness auto
termination
proof (relation "measure (\<lambda>(argc, off, xs). length xs)", goal_cases)
  case (2 argc off xs b q w r o1 new c r')
  have "length (c # r') \<le> length (dropWhile tok_blank xs)"
    using 2 length_dropWhile_le [of "\<lambda>c. \<not> tok_blank c" "dropWhile tok_blank xs"] by simp
  also have "\<dots> \<le> length xs"
    by (rule length_dropWhile_le)
  finally show ?case by simp
qed simp

declare tok_loop.simps [simp del]

definition script_tokenize :: "cstr \<Rightarrow> (nat \<times> cstr) list \<times> u8 list" where
  "script_tokenize line = tok_loop 0 0 line"

text \<open>A line from the keyboard; \<open>None\<close> when the newline never comes.\<close>

fun read_line_loop :: "cstr \<Rightarrow> u32 list \<Rightarrow> (cstr \<times> u32 list) option" where
  "read_line_loop buf [] = None"
| "read_line_loop buf (c # cs) =
     (if c = 10 then Some (buf, cs)
      else if c = 8 then read_line_loop (butlast buf) cs
      else if sint c < 32 \<or> 126 < sint c then read_line_loop buf cs
      else read_line_loop (if length buf < INIT_LINE_MAX - 1 then buf @ [ucast c] else buf) cs)"

definition read_line :: "shell \<Rightarrow> (cstr \<times> shell) option" where
  "read_line s = map_option (\<lambda>(l, cs). (l, s\<lparr>sh_input := cs\<rparr>)) (read_line_loop [] (sh_input s))"

section \<open>Running a command\<close>

text \<open>
  How a command ends: it returns a value, asks for the interactive shell, idles for good, or the
  task does not go on (it exited, is suspended, or runs another program).
\<close>

datatype outcome = Ret int | RunShell | Idle | Gone

type_synonym arg = "u64 \<times> cstr"

definition print :: "cstr \<Rightarrow> unit va_arg list \<Rightarrow> shell \<Rightarrow> shell option" where
  "print fmt args s = map_option (\<lambda>out. s\<lparr>sh_out := sh_out s @ out\<rparr>) (printf (\<lambda>_ _ _. []) fmt args)"

definition ret0 :: "shell option \<Rightarrow> (outcome \<times> shell) option" where
  "ret0 = map_option (Pair (Ret 0))"

definition after_call ::
  "(u32 option \<times> shell) option \<Rightarrow> (u32 \<Rightarrow> shell \<Rightarrow> (outcome \<times> shell) option) \<Rightarrow> (outcome \<times> shell) option" where
  "after_call c f = (case c of None \<Rightarrow> None | Some (None, s) \<Rightarrow> Some (Gone, s) | Some (Some r, s) \<Rightarrow> f r s)"

definition echo_bytes :: "cstr list \<Rightarrow> u8 list" where
  "echo_bytes as =
     (let b = fold (\<lambda>(i, a) b. let b1 = (if 0 < i \<and> length b < INIT_LINE_MAX - 1 then b @ [0x20] else b)
                 in b1 @ take (INIT_LINE_MAX - 1 - length b1) a) (enumerate (0 :: nat) as) []
      in if length b < INIT_LINE_MAX - 1 then b @ [10] else b)"

text \<open>The arguments of spawn in one line; \<open>None\<close> where the terminator falls behind the buffer.\<close>

definition spawn_line :: "cstr list \<Rightarrow> cstr option" where
  "spawn_line as =
     (let l = fold (\<lambda>a l. let l1 = (if 0 < length l then l @ [0x20] else l)
                in l1 @ take (INIT_LINE_MAX - 1 - length l1) a) as []
      in if length l < INIT_LINE_MAX then Some l else None)"

definition cmd_read :: "u64 \<Rightarrow> arg \<Rightarrow> shell \<Rightarrow> (outcome \<times> shell) option" where
  "cmd_read junk a s =
     after_call (int80 junk 6 (fst a) 0 0 s) (\<lambda>fd s1.
       if sint fd < 0 then ret0 (print (bytes_of ''init: '' @ [0x27] @ bytes_of ''%s'' @ [0x27] @ bytes_of '' not found'' @ [10])
            [VStr (Some (snd a))] s1)
       else after_call (int80 junk 4 (ucast fd) (sh_buf s) 512 s1) (\<lambda>n s2.
         after_call (int80 junk 7 (ucast fd) 0 0 s2) (\<lambda>_ s3.
           if 0 < sint n
           then with_path (sh_buf s) (\<lambda>str. ret0 (print (bytes_of ''%s'') [VStr (Some str)]
                  (put_mem (sh_buf s + ucast n) [0] s3))) (put_mem (sh_buf s + ucast n) [0] s3)
           else Some (Ret 0, s3))))"

definition script_exec :: "u64 \<Rightarrow> arg list \<Rightarrow> shell \<Rightarrow> (outcome \<times> shell) option" where
  "script_exec junk argv s =
     (let name = snd (argv ! 0); id = valid_command name; args = map snd (tl argv)
      in if id = 0 \<or> \<not> valid_args name (length argv - 1) then Some (Ret 0, s)
         else if id = 1
         then let b = echo_bytes args
              in after_call (int80 junk 2 1 (sh_buf s) (of_nat (length b)) (put_mem (sh_buf s) b s)) (\<lambda>_ s'. Some (Ret 0, s'))
         else if id = 2 then Some (Ret 0, s)
         else if id = 3 then ret0 (print (bytes_of ''XKERN initram getty v0.1'' @ [10]) [] s)
         else if id = 4
         then if args \<noteq> [] \<and> hd args = bytes_of ''/proc''
              then ret0 (print (bytes_of ''%s'') [VStr (Some (procfs_list (g_tasks (sh_ker s)) 128))] s)
              else Some (Ret 0, s)
         else if id = 5 then cmd_read junk (argv ! 1) s
         else if id = 6
         then after_call (int80 junk 1 0 0 0 s) (\<lambda>pid s'. case g_cur_task (sh_ker s') of None \<Rightarrow> None
                | Some c \<Rightarrow> ret0 (print (bytes_of ''pid %u (%s)'' @ [10]) [VInt pid, VStr (Some (t_name (cur_task c s')))] s'))
         else if id = 7 then after_call (int80 junk 3 (ucast (atoi (hd args))) 0 0 s) (\<lambda>_ s'. Some (Ret 0, s'))
         else if id = 8
         then (case spawn_line args of None \<Rightarrow> None
               | Some l \<Rightarrow> map_option (\<lambda>(_, s'). (Ret 0, s')) (spawn_task junk (hd args) (Some l) s))
         else if id = 9 then Some (RunShell, s)
         else if id = 10 then Some (Idle, s)
         else Some (Ret 1, s))"

text \<open>The interactive shell. Shells may be nested; \<open>exit\<close> ends the innermost, and \<open>d\<close> are open around it.\<close>

definition shell_greeting :: "shell \<Rightarrow> shell option" where
  "shell_greeting = print (bytes_of ''getty shell on initram, type '' @ [0x27] @ bytes_of ''exit'' @ [0x27] @ bytes_of '' to stop'' @ [10]) []"

definition args_at :: "u64 \<Rightarrow> (nat \<times> cstr) list \<Rightarrow> arg list" where
  "args_at p = map (\<lambda>(i, w). (p + of_nat i, w))"

definition shell_line :: "u64 \<Rightarrow> shell \<Rightarrow> (outcome \<times> shell) option" where
  "shell_line junk s =
     Option.bind (print (bytes_of ''$ '') [] s) (\<lambda>s1. Option.bind (read_line s1) (\<lambda>(l, s2).
       let (ts, ys) = script_tokenize l; s3 = put_mem (sh_line s) (ys @ [0]) s2
       in if ts = [] then Some (Ret 0, s3) else script_exec junk (args_at (sh_line s) ts) s3))"

partial_function (option) shell_loop :: "u64 \<Rightarrow> nat \<Rightarrow> shell \<Rightarrow> (outcome \<times> shell) option" where
  "shell_loop junk d s = Option.bind (shell_line junk s) (\<lambda>(o1, s1).
     if o1 = RunShell then Option.bind (shell_greeting s1) (shell_loop junk (d + 1))
     else if o1 = Idle \<or> o1 = Gone then Some (o1, s1)
     else if o1 = Ret 0 then shell_loop junk d s1
     else if d = 0 then Some (Ret 0, s1)
     else shell_loop junk (d - 1) s1)"

definition script_shell :: "u64 \<Rightarrow> shell \<Rightarrow> (outcome \<times> shell) option" where
  "script_shell junk s = Option.bind (shell_greeting s) (shell_loop junk 0)"

section \<open>Scripts\<close>

text \<open>The text up to the newline or terminator, and whether a newline ends it.\<close>

partial_function (option) scan_line :: "u64 \<Rightarrow> mem \<Rightarrow> (cstr \<times> bool) option" where
  "scan_line p m =
     (if m p = 0 then Some ([], False) else if m p = 10 then Some ([], True)
      else Option.bind (scan_line (p + 1) m) (\<lambda>(l, nl). Some (m p # l, nl)))"

definition script_line :: "u64 \<Rightarrow> u64 \<Rightarrow> shell \<Rightarrow> (u64 option \<times> arg list \<times> shell) option" where
  "script_line junk line s = map_option (\<lambda>(l, nl).
     let (ts, ys) = script_tokenize l
     in (if nl then Some (line + of_nat (length l) + 1) else None, args_at line ts,
         put_mem line (ys @ (if nl then [0] else [])) s)) (scan_line line (k_mem (sh_ker s)))"

definition run_command :: "u64 \<Rightarrow> arg list \<Rightarrow> shell \<Rightarrow> (outcome \<times> shell) option" where
  "run_command junk argv s =
     (if argv = [] then Some (Ret 0, s)
      else Option.bind (script_exec junk argv s) (\<lambda>(o1, s1).
        if o1 = RunShell then script_shell junk s1 else Some (o1, s1)))"

partial_function (option) script_loop :: "u64 \<Rightarrow> u64 \<Rightarrow> shell \<Rightarrow> (outcome \<times> shell) option" where
  "script_loop junk line s =
     (if line = 0 \<or> k_mem (sh_ker s) line = 0 then Some (Ret 0, s)
      else Option.bind (script_line junk line s) (\<lambda>(next, argv, s1).
        Option.bind (run_command junk argv s1) (\<lambda>(o1, s2).
          if o1 = Ret 0 then (if next = None then Some (Ret 0, s2) else script_loop junk (the next) s2)
          else if o1 = Idle \<or> o1 = Gone then Some (o1, s2)
          else Some (Ret 1, s2))))"

definition script_run :: "u64 \<Rightarrow> cstr \<Rightarrow> shell \<Rightarrow> (outcome \<times> shell) option" where
  "script_run junk path s =
     (case ramfs_lookup path (k_fs (sh_ker s)) of None \<Rightarrow> Some (Ret (- 1), s)
      | Some f \<Rightarrow> script_loop junk (f_data f) s)"

definition script_task_main :: "u64 \<Rightarrow> shell \<Rightarrow> (outcome \<times> shell) option" where
  "script_task_main junk s =
     Option.bind (g_cur_task (sh_ker s)) (\<lambda>c.
     Option.bind (List.find (\<lambda>i. data_addr s i = t_arg (cur_task c s)) [0..<length (sh_data s)]) (\<lambda>d.
     let say = (\<lambda>txt. print (bytes_of ''[%u] %s: '' @ bytes_of txt @ [10])
                  [VInt (t_pid (cur_task c s)), VStr (Some (t_name (cur_task c s)))])
     in Option.bind (say ''start'' s) (\<lambda>s1.
        Option.bind (script_run junk (sh_data s ! d) s1) (\<lambda>(o1, s2).
          if o1 = Idle \<or> o1 = Gone then Some (o1, s2)
          else Option.bind (say ''done, exiting'' s2) (\<lambda>s3.
            after_call (int80 junk 0 0 0 0 s3) (\<lambda>_ s4. Some (Ret 0, s4)))))))"

section \<open>The boot module\<close>

record initrd =
  g_initrd_addr :: u64
  g_initrd_size :: u32
  g_initrd_present :: bool

abbreviation MULTIBOOT_MODS_REQ :: u32 where "MULTIBOOT_MODS_REQ \<equiv> 8"

text \<open>The flags and the modules, each with its start and end, of the boot information.\<close>

definition initram_collect :: "(u32 \<times> (u64 \<times> u64) list) option \<Rightarrow> initrd \<Rightarrow> int \<times> initrd" where
  "initram_collect mbi g =
     (case mbi of None \<Rightarrow> (- 1, g)
      | Some (flags, mods) \<Rightarrow>
          if flags AND MULTIBOOT_MODS_REQ = 0 \<or> mods = [] then (- 1, g)
          else (0, g\<lparr>g_initrd_addr := fst (hd mods), g_initrd_size := ucast (snd (hd mods) - fst (hd mods)),
                     g_initrd_present := True\<rparr>))"

definition initram_reserve :: "initrd \<Rightarrow> vm_state \<Rightarrow> vm_state option" where
  "initram_reserve g s =
     (if \<not> g_initrd_present g then Some s
      else Option.bind (paging_map_region (g_initrd_addr g) (g_initrd_addr g) (ucast (g_initrd_size g)) 2 s) (\<lambda>s1.
        map_option (\<lambda>p. s1\<lparr>vm_pmm := p\<rparr>) (pmm_reserve (g_initrd_addr g) (ucast (g_initrd_size g)) (vm_pmm s1))))"

section \<open>The words of a line\<close>

text \<open>The reference: the pieces between blanks that are not empty.\<close>

primrec pieces :: "cstr \<Rightarrow> cstr list" where
  "pieces [] = [[]]"
| "pieces (x # xs) = (if tok_blank x then [] # pieces xs else (x # hd (pieces xs)) # tl (pieces xs))"

definition line_words :: "cstr \<Rightarrow> cstr list" where
  "line_words xs = filter (\<lambda>w. w \<noteq> []) (pieces xs)"

lemma pieces_nonempty [simp]: "pieces xs \<noteq> []"
  by (cases xs) simp_all

lemma words_blank: "list_all tok_blank b \<Longrightarrow> line_words (b @ xs) = line_words xs"
  by (induction b) (simp_all add: line_words_def)

lemma words_Nil [simp]: "line_words [] = []"
  by (simp add: line_words_def)

lemma pieces_word:
  "list_all (\<lambda>c. \<not> tok_blank c) w \<Longrightarrow> pieces w = [w]"
  "list_all (\<lambda>c. \<not> tok_blank c) w \<Longrightarrow> tok_blank c \<Longrightarrow> pieces (w @ c # r) = w # pieces r"
  by (induction w) simp_all

lemma words_word:
  assumes "list_all (\<lambda>c. \<not> tok_blank c) w" "w \<noteq> []"
  shows "line_words w = [w]" "tok_blank c \<Longrightarrow> line_words (w @ c # r) = w # line_words r"
  using assms by (simp_all add: line_words_def pieces_word)

text \<open>What holds of a cut line: \<open>off\<close> is the offset of the part scanned.\<close>

definition cut_ok :: "nat \<Rightarrow> (nat \<times> cstr) list \<Rightarrow> u8 list \<Rightarrow> bool" where
  "cut_ok off ts ys \<longleftrightarrow> (\<forall>(i, w) \<in> set ts. off \<le> i \<and> take (length w + 1) (drop (i - off) (ys @ [0])) = w @ [0])"

lemma cut_ok_shift:
  assumes "cut_ok (off + length zs) ts ys"
  shows "cut_ok off ts (zs @ ys)"
  unfolding cut_ok_def
proof (clarify)
  fix i w assume "(i, w) \<in> set ts"
  then have i: "off + length zs \<le> i" "take (length w + 1) (drop (i - (off + length zs)) (ys @ [0])) = w @ [0]"
    using assms by (auto simp: cut_ok_def)
  have "drop (i - off) ((zs @ ys) @ [0]) = drop (i - (off + length zs)) (ys @ [0])"
    using i(1) by (simp add: drop_append)
  with i show "off \<le> i \<and> take (length w + 1) (drop (i - off) ((zs @ ys) @ [0])) = w @ [0]"
    by simp
qed

lemma tok_loop_correct:
  "map snd (fst (tok_loop argc off xs)) = take (INIT_TOKENS_MAX - 1 - argc) (line_words xs) \<and>
   length (snd (tok_loop argc off xs)) = length xs \<and>
   cut_ok off (fst (tok_loop argc off xs)) (snd (tok_loop argc off xs))"
proof (induction argc off xs rule: tok_loop.induct)
  case (1 argc off xs)
  define b q where "b = takeWhile tok_blank xs" and "q = dropWhile tok_blank xs"
  define w r where "w = takeWhile (\<lambda>c. \<not> tok_blank c) q" and "r = dropWhile (\<lambda>c. \<not> tok_blank c) q"
  define new where "new = (if argc < INIT_TOKENS_MAX - 1 then [(off + length b, w)] else [])"
  note defs = b_def q_def w_def r_def new_def
  have xs: "xs = b @ q" "q = w @ r" "list_all tok_blank b" "list_all (\<lambda>c. \<not> tok_blank c) w"
    by (auto simp: defs list_all_iff dest: set_takeWhileD)
  have wne: "w \<noteq> []" if "q \<noteq> []"
    using that hd_dropWhile [of tok_blank xs] by (cases q) (auto simp: defs)
  have new: "cut_ok off new (b @ w @ 0 # ys)" "cut_ok off new (b @ w)" for ys
    by (auto simp: cut_ok_def new_def)
  have eq: "tok_loop argc off xs = (if q = [] then ([], b) else case r of [] \<Rightarrow> (new, b @ w)
      | _ # r' \<Rightarrow> (case tok_loop (argc + length new) (off + length b + length w + 1) r' of
          (ts, ys) \<Rightarrow> (new @ ts, b @ w @ [0] @ ys)))"
    unfolding tok_loop.simps [of argc off xs] Let_def defs by (rule refl)
  show ?case
  proof (cases "q = []")
    case True
    then have "tok_loop argc off xs = ([], b)"
      by (simp add: eq)
    then show ?thesis
      using True xs words_blank [of b "[]"] by (simp add: cut_ok_def)
  next
    case q: False
    show ?thesis
    proof (cases r)
      case Nil
      then have "tok_loop argc off xs = (new, b @ w)"
        using q by (simp add: eq)
      then show ?thesis
        using Nil xs wne [OF q] words_blank [of b w] words_word(1) [of w] new by (auto simp: new_def)
    next
      case (Cons c r')
      have c: "tok_blank c"
        using Cons unfolding r_def dropWhile_eq_Cons_conv by simp
      let ?t = "tok_loop (argc + length new) (off + length b + length w + 1) r'"
      have e: "tok_loop argc off xs = (new @ fst ?t, b @ w @ [0] @ snd ?t)"
        using q Cons by (simp add: eq split: prod.split)
      have IH: "map snd (fst ?t) = take (INIT_TOKENS_MAX - 1 - (argc + length new)) (line_words r')"
        "length (snd ?t) = length r'" "cut_ok (off + length b + length w + 1) (fst ?t) (snd ?t)"
        using 1 [OF b_def q_def w_def r_def refl new_def q Cons] by simp_all
      have "cut_ok off (fst ?t) ((b @ w @ [0]) @ snd ?t)"
        using IH(3) by (intro cut_ok_shift) (simp add: add.assoc)
      then have "cut_ok off (new @ fst ?t) (b @ w @ [0] @ snd ?t)"
        using new(1) [of "snd ?t"] by (auto simp: cut_ok_def)
      moreover have "line_words xs = w # line_words r'"
        using xs Cons c wne [OF q] by (simp add: words_blank words_word(2))
      ultimately show ?thesis
        using xs Cons IH(1,2) unfolding e by (auto simp: new_def take_Cons' numeral_eq_Suc)
    qed
  qed
qed

section \<open>Properties\<close>

text \<open>
  Cutting a command line into words: the arguments are the first fifteen non-empty pieces between
  blanks, in order; the line keeps its length, so nothing is written outside of it; and at the offset
  of each argument the line then holds exactly that word with a terminator behind it.
\<close>

theorem script_tokenize_correct:
  "map snd (fst (script_tokenize line)) = take 15 (line_words line) \<and>
   length (snd (script_tokenize line)) = length line \<and>
   (\<forall>(i, w) \<in> set (fst (script_tokenize line)).
      take (length w + 1) (drop i (snd (script_tokenize line) @ [0])) = w @ [0])"
  using tok_loop_correct [of 0 0 line] by (auto simp: script_tokenize_def cut_ok_def)

text \<open>
  Boot scripts cannot print or ask for the pid, because the system calls behind the commands are
  misrouted: \<open>echo\<close> with any word returns normally but leaves the console output as it was, and
  \<open>pid\<close> ends the task that runs the script.
\<close>

theorem script_commands_misrouted:
  assumes "g_cur_task (sh_ker s) = Some c" "t_pid (cur_task c s) \<noteq> XKERN_EXEC_MAGIC"
  shows "(\<exists>s'. script_exec junk [(a, bytes_of ''echo''), (b, w)] s = Some (Ret 0, s') \<and> sh_out s' = sh_out s) \<and>
    script_exec junk [(a, bytes_of ''pid'')] s = Some (Gone, upd_ker (task_exit c) s)"
proof -
  let ?s1 = "put_mem (sh_buf s) (echo_bytes [w]) s"
  have s1: "g_cur_task (sh_ker ?s1) = Some c" "t_pid (cur_task c ?s1) \<noteq> XKERN_EXEC_MAGIC" "sh_out ?s1 = sh_out s"
    using assms by (simp_all add: put_mem_def)
  have e: "int80 junk 2 1 x n ?s1 = Some (Some (t_pid (cur_task c ?s1)), ?s1)" for x n
    using s1 by (simp add: int80_def dispatch_task_calls)
  have p: "int80 junk 1 0 0 0 s = Some (None, upd_ker (task_exit c) s)"
    using assms by (simp add: int80_def dispatch_task_calls)
  have cmds: "valid_command (bytes_of ''echo'') = 1" "valid_args (bytes_of ''echo'') 1"
    "valid_command (bytes_of ''pid'') = 6" "valid_args (bytes_of ''pid'') 0"
    by (simp_all add: valid_args_def valid_command_def cmd_table_def bytes_of_def upt_rec)
  show ?thesis
    using s1(3) by (simp add: script_exec_def Let_def cmds e p after_call_def)
qed

section \<open>Instances\<close>

theorem script_tokenize_correct_witness:
  "map snd (fst (script_tokenize (bytes_of ''spawn  /bin/sh''))) = [bytes_of ''spawn'', bytes_of ''/bin/sh'']"
  using script_tokenize_correct [of "bytes_of ''spawn  /bin/sh''"]
  by (simp add: line_words_def tok_blank_def bytes_of_def)

theorem script_commands_misrouted_witness:
  "(\<exists>s'. script_exec 0 [(0x7000, bytes_of ''echo''), (0x7005, bytes_of ''hello'')] demo_shell = Some (Ret 0, s') \<and>
      sh_out s' = []) \<and>
   script_exec 0 [(0x7000, bytes_of ''pid'')] demo_shell = Some (Gone, upd_ker (task_exit 0) demo_shell)"
proof -
  have a: "g_cur_task (sh_ker demo_shell) = Some 0" "t_pid (cur_task 0 demo_shell) \<noteq> XKERN_EXEC_MAGIC" "sh_out demo_shell = []"
    by (simp_all add: demo_shell_def demo_task_def fs_task_init_def)
  show ?thesis
    using script_commands_misrouted [OF a(1,2)] a(3) by metis
qed

end
