(* ===== verification/Net_Stack.thy ===== *)
theory Net_Stack
  imports Xk_Bytes
begin

text \<open>
  The network protocols of iokit/IONetFamily: ethernet framing, ARP, IPv4, ICMP and UDP. A buffer is
  the list of its bytes and may be longer than the packet in it; a packet field is read and written
  at its offset, in the byte order of the machine, after the conversions of the source. A
  received packet is the rest of its buffer together with the length the code is given, and an access
  outside of a buffer is \<open>None\<close>. The network card is a function from frames to the result of its
  \<open>send\<close>; the frames given to it are recorded. The readings of the millisecond clock are a sequence.
  Log lines are left out.
\<close>

section \<open>Byte order\<close>

definition NET_HTONS :: "u16 \<Rightarrow> u16" where
  "NET_HTONS x = push_bit 8 (x AND 0xFF) OR (drop_bit 8 x AND 0xFF)"

definition NET_HTONL :: "u32 \<Rightarrow> u32" where
  "NET_HTONL x = drop_bit 24 x OR drop_bit 8 (x AND 0xFF0000) OR push_bit 8 (x AND 0xFF00) OR push_bit 24 x"

abbreviation NET_NTOHS :: "u16 \<Rightarrow> u16" where "NET_NTOHS \<equiv> NET_HTONS"
abbreviation NET_NTOHL :: "u32 \<Rightarrow> u32" where "NET_NTOHL \<equiv> NET_HTONL"

section \<open>State\<close>

abbreviation NET_ETH_ALEN :: nat where "NET_ETH_ALEN \<equiv> 6"
abbreviation NET_MTU :: nat where "NET_MTU \<equiv> 1500"
abbreviation NET_FRAMESZ :: nat where "NET_FRAMESZ \<equiv> 1518"
abbreviation ETHERTYPE_IPV4 :: u16 where "ETHERTYPE_IPV4 \<equiv> 0x0800"
abbreviation ETHERTYPE_ARP :: u16 where "ETHERTYPE_ARP \<equiv> 0x0806"
abbreviation IP_PROTO_ICMP :: u8 where "IP_PROTO_ICMP \<equiv> 1"
abbreviation IP_PROTO_UDP :: u8 where "IP_PROTO_UDP \<equiv> 17"
abbreviation ARP_CACHE_SIZE :: nat where "ARP_CACHE_SIZE \<equiv> 16"
abbreviation UDP_MAX_PORTS :: nat where "UDP_MAX_PORTS \<equiv> 8"

record arp_cache_ent =
  ac_ip :: u32
  ac_mac :: "u8 list"
  ac_stamp :: u64
  ac_used :: bool

text \<open>A handler is the address of a function, 0 for none.\<close>

record udp_ent =
  up_port :: u16
  up_fn :: u64

datatype dh_state = DH_OFF | DH_DISCOVERING | DH_REQUESTING | DH_BOUND

record net =
  g_net_mac :: "u8 list"
  g_net_ip :: u32
  g_net_mask :: u32
  g_net_gw :: u32
  g_netdev :: "(u8 list \<Rightarrow> int) option"
  n_tx :: "u8 list list"
  n_cache :: "arp_cache_ent list"
  n_ports :: "udp_ent list"
  n_clock :: "nat \<Rightarrow> u64"
  n_reads :: nat
  n_dh :: dh_state
  dh_xid :: u32
  dh_offer_ip :: u32
  dh_srv_id :: u32
  dh_next_try_ms :: u64
  dh_started_ms :: u64
  ping_next_ms :: u64
  pings_sent :: nat

definition net_tsc_ms :: "net \<Rightarrow> u64 \<times> net" where
  "net_tsc_ms s = (n_clock s (n_reads s), s\<lparr>n_reads := n_reads s + 1\<rparr>)"

section \<open>Ethernet\<close>

definition net_bcast_mac :: "u8 list" where
  "net_bcast_mac = replicate 6 0xFF"

definition netdev_send :: "u8 list \<Rightarrow> net \<Rightarrow> int \<times> net" where
  "netdev_send frame s = (case g_netdev s of None \<Rightarrow> (- 1, s)
     | Some send \<Rightarrow> (send frame, s\<lparr>n_tx := n_tx s @ [frame]\<rparr>))"

definition eth_hdr :: "u8 list \<Rightarrow> u8 list \<Rightarrow> u16 \<Rightarrow> u8 list" where
  "eth_hdr dst src type = dst @ src @ put16 type"

definition ether_send :: "u8 list \<Rightarrow> u16 \<Rightarrow> u8 list \<Rightarrow> nat \<Rightarrow> net \<Rightarrow> (int \<times> net) option" where
  "ether_send dst ethertype frame plen s =
     (if length frame < plen + 14 then None
      else Some (netdev_send (take (plen + 14) (splice 0 (eth_hdr dst (g_net_mac s) (NET_HTONS ethertype)) frame)) s))"

section \<open>ARP\<close>

record arp_pkt =
  ar_htype :: u16
  ar_ptype :: u16
  ar_hlen :: u8
  ar_plen :: u8
  ar_op :: u16
  ar_sha :: "u8 list"
  ar_spa :: u32
  ar_tha :: "u8 list"
  ar_tpa :: u32

definition arp_bytes :: "arp_pkt \<Rightarrow> u8 list" where
  "arp_bytes a = put16 (ar_htype a) @ put16 (ar_ptype a) @ [ar_hlen a, ar_plen a] @ put16 (ar_op a) @ ar_sha a @ put32 (ar_spa a) @
     ar_tha a @ put32 (ar_tpa a)"

definition read_arp :: "u8 list \<Rightarrow> arp_pkt" where
  "read_arp p = \<lparr>ar_htype = get16 p 0, ar_ptype = get16 p 2, ar_hlen = p ! 4, ar_plen = p ! 5, ar_op = get16 p 6,
     ar_sha = take 6 (drop 8 p), ar_spa = get32 p 14, ar_tha = take 6 (drop 18 p), ar_tpa = get32 p 24\<rparr>"

definition arp_init :: "net \<Rightarrow> net" where
  "arp_init s = s\<lparr>n_cache := map (\<lambda>e. e\<lparr>ac_used := False\<rparr>) (n_cache s)\<rparr>"

definition arp_lookup :: "u32 \<Rightarrow> net \<Rightarrow> u8 list option" where
  "arp_lookup ip_host s =
     map_option ac_mac (List.find (\<lambda>e. ac_used e \<and> ac_ip e = NET_HTONL ip_host) (n_cache s))"

text \<open>The header room of a local frame buffer, whose contents are written before it is sent.\<close>

abbreviation room :: "u8 list" where "room \<equiv> replicate 14 0"

definition arp_request :: "u32 \<Rightarrow> net \<Rightarrow> (int \<times> net) option" where
  "arp_request ip_host s =
     (let a = \<lparr>ar_htype = NET_HTONS 1, ar_ptype = NET_HTONS ETHERTYPE_IPV4, ar_hlen = 6, ar_plen = 4, ar_op = NET_HTONS 1,
               ar_sha = g_net_mac s, ar_spa = NET_HTONL (g_net_ip s), ar_tha = replicate 6 0, ar_tpa = NET_HTONL ip_host\<rparr>
      in ether_send net_bcast_mac ETHERTYPE_ARP (room @ arp_bytes a) 28 s)"

fun cache_slot :: "u32 \<Rightarrow> nat \<Rightarrow> nat option \<Rightarrow> arp_cache_ent list \<Rightarrow> nat option" where
  "cache_slot ip i slot [] = slot"
| "cache_slot ip i slot (e # es) =
     (if ac_used e \<and> ac_ip e = ip then Some i
      else cache_slot ip (i + 1) (if \<not> ac_used e \<and> slot = None then Some i else slot) es)"

definition arp_cache_add :: "u8 list \<Rightarrow> u32 \<Rightarrow> net \<Rightarrow> net" where
  "arp_cache_add mac spa_wire s =
     (case cache_slot spa_wire 0 None (n_cache s) of None \<Rightarrow> s
      | Some i \<Rightarrow> (case net_tsc_ms s of (now, s1) \<Rightarrow>
          s1\<lparr>n_cache := (n_cache s)[i := \<lparr>ac_ip = spa_wire, ac_mac = mac, ac_stamp = now, ac_used = True\<rparr>]\<rparr>))"

definition arp_rx :: "u8 list \<Rightarrow> nat \<Rightarrow> net \<Rightarrow> net option" where
  "arp_rx pkt len s =
     (if len < 28 then Some s
      else if length pkt < 28 then None
      else let a = read_arp pkt
           in if NET_NTOHS (ar_ptype a) \<noteq> ETHERTYPE_IPV4 then Some s
              else let s1 = arp_cache_add (ar_sha a) (ar_spa a) s
                   in if NET_NTOHS (ar_op a) = 1 \<and> NET_NTOHL (ar_tpa a) = g_net_ip s1
                      then let a' = a\<lparr>ar_op := NET_HTONS 2, ar_tha := ar_sha a, ar_sha := g_net_mac s1, ar_spa := ar_tpa a, ar_tpa := ar_spa a\<rparr>
                           in map_option snd (ether_send (ar_sha a) ETHERTYPE_ARP (splice 0 (arp_bytes a') pkt) 28 s1)
                      else Some s1)"

section \<open>IPv4\<close>

fun sum16 :: "u32 \<Rightarrow> u8 list \<Rightarrow> u32" where
  "sum16 acc [] = acc"
| "sum16 acc [x] = acc + push_bit 8 (ucast x)"
| "sum16 acc (x # y # zs) = sum16 (acc + (push_bit 8 (ucast x) OR ucast y)) zs"

lemma fold_step_less:
  assumes "drop_bit 16 (acc :: u32) \<noteq> 0"
  shows "unat ((acc AND 0xFFFF) + drop_bit 16 acc) = unat acc mod 65536 + unat acc div 65536"
    "unat ((acc AND 0xFFFF) + drop_bit 16 acc) < unat acc"
proof -
  have m: "unat (acc AND 0xFFFF) = unat acc mod 65536"
    using unat_and_mask [of acc 16] by (simp add: mask_eq_exp_minus_1)
  have d: "unat (drop_bit 16 acc) = unat acc div 65536"
    by (simp only: unat_drop_bit_eq) (simp add: drop_bit_eq_div)
  have a: "unat acc < 4294967296"
    using unsigned_less [of acc, where ?'a = nat] by simp
  then have "unat acc div 65536 < 65536"
    by (simp add: less_mult_imp_div_less)
  then show e: "unat ((acc AND 0xFFFF) + drop_bit 16 acc) = unat acc mod 65536 + unat acc div 65536"
    using m d mod_less_divisor [of 65536 "unat acc"] by (simp add: unat_word_ariths)
  have "0 < unat acc div 65536"
    using assms d by (metis gr0I unat_eq_0)
  moreover have "unat acc = 65536 * (unat acc div 65536) + unat acc mod 65536"
    by simp
  ultimately show "unat ((acc AND 0xFFFF) + drop_bit 16 acc) < unat acc"
    unfolding e by linarith
qed

function fold_sum :: "u32 \<Rightarrow> u32" where
  "fold_sum acc = (if drop_bit 16 acc \<noteq> 0 then fold_sum ((acc AND 0xFFFF) + drop_bit 16 acc) else acc)"
  by pat_completeness auto
termination
  by (relation "measure unat") (simp_all only: in_measure fold_step_less(2) wf_measure not_False_eq_True)

declare fold_sum.simps [simp del]

definition ip_checksum :: "u8 list \<Rightarrow> u16" where
  "ip_checksum data = NET_HTONS (ucast (NOT (fold_sum (sum16 0 data)) AND 0xFFFF))"

definition ipv4_hdr :: "u16 \<Rightarrow> u32 \<Rightarrow> u32 \<Rightarrow> u8 \<Rightarrow> u16 \<Rightarrow> u8 list" where
  "ipv4_hdr check src_host dst_host proto len =
     [0x45, 0] @ put16 (NET_HTONS (20 + len)) @ put16 0 @ put16 (NET_HTONS 0x4000) @ [64, proto] @ put16 check @
     put32 (NET_HTONL src_host) @ put32 (NET_HTONL dst_host)"

definition hdr_fill :: "u32 \<Rightarrow> u32 \<Rightarrow> u8 \<Rightarrow> u16 \<Rightarrow> u8 list" where
  "hdr_fill src_host dst_host proto len =
     ipv4_hdr (ip_checksum (ipv4_hdr 0 src_host dst_host proto len)) src_host dst_host proto len"

definition next_hop :: "u32 \<Rightarrow> net \<Rightarrow> u32" where
  "next_hop dst_ip s = (if (dst_ip XOR g_net_ip s) AND g_net_mask s \<noteq> 0 then g_net_gw s else dst_ip)"

definition ipv4_send :: "u32 \<Rightarrow> u8 \<Rightarrow> u8 list \<Rightarrow> net \<Rightarrow> (int \<times> net) option" where
  "ipv4_send dst_ip proto payload s =
     (let n = length payload;
          nh = next_hop dst_ip s;
          frame = room @ hdr_fill (g_net_ip s) dst_ip proto (of_nat n) @ payload
      in if NET_MTU - 20 < n then Some (- 1, s)
         else if dst_ip = 0xFFFFFFFF then ether_send net_bcast_mac ETHERTYPE_IPV4 frame (20 + n) s
         else case arp_lookup nh s of
                None \<Rightarrow> map_option (\<lambda>(_, s'). (- 1, s')) (arp_request nh s)
              | Some mac \<Rightarrow> ether_send mac ETHERTYPE_IPV4 frame (20 + n) s)"

section \<open>ICMP\<close>

text \<open>The reply is built in a buffer of \<open>NET_MTU\<close> bytes.\<close>

definition icmp_rx :: "u8 list \<Rightarrow> nat \<Rightarrow> u32 \<Rightarrow> net \<Rightarrow> net option" where
  "icmp_rx pkt len src_ip_host s =
     (if len < 8 then Some s
      else do {
        type \<leftarrow> read8 pkt 0;
        if type = 0 then Some s
        else if type \<noteq> 8 then Some s
        else if NET_MTU < len then None
        else do {
          body \<leftarrow> read_bytes pkt 0 len;
          let r = splice 2 (put16 0) (body[0 := 0]);
          (_, s1) \<leftarrow> ipv4_send src_ip_host IP_PROTO_ICMP (splice 2 (put16 (ip_checksum r)) r) s;
          Some s1
        }
      })"

definition icmp_echo_request :: "u32 \<Rightarrow> u16 \<Rightarrow> u16 \<Rightarrow> net \<Rightarrow> (int \<times> net) option" where
  "icmp_echo_request dst_ip ident seq s =
     (let p = [8, 0] @ put16 0 @ put16 (NET_HTONS ident) @ put16 (NET_HTONS seq) @ replicate 8 0x78
      in ipv4_send dst_ip IP_PROTO_ICMP (splice 2 (put16 (ip_checksum p)) p) s)"

section \<open>UDP\<close>

definition udp_init :: "net \<Rightarrow> net" where
  "udp_init s = s\<lparr>n_ports := replicate UDP_MAX_PORTS \<lparr>up_port = 0, up_fn = 0\<rparr>\<rparr>"

text \<open>The loop of \<open>udp_bind\<close>: an entry with the port, or the first free slot.\<close>

fun port_slot :: "u16 \<Rightarrow> nat \<Rightarrow> nat option \<Rightarrow> udp_ent list \<Rightarrow> nat + nat option" where
  "port_slot port i slot [] = Inr slot"
| "port_slot port i slot (e # es) =
     (if up_port e = port then Inl i
      else port_slot port (i + 1) (if up_port e = 0 \<and> slot = None then Some i else slot) es)"

definition udp_bind :: "u16 \<Rightarrow> u64 \<Rightarrow> net \<Rightarrow> int \<times> net" where
  "udp_bind port fn s =
     (case port_slot port 0 None (n_ports s) of
        Inl i \<Rightarrow> (0, s\<lparr>n_ports := (n_ports s)[i := (n_ports s ! i)\<lparr>up_fn := fn\<rparr>]\<rparr>)
      | Inr None \<Rightarrow> (- 1, s)
      | Inr (Some i) \<Rightarrow> if fn = 0 then (- 1, s)
          else (0, s\<lparr>n_ports := (n_ports s)[i := \<lparr>up_port = port, up_fn = fn\<rparr>]\<rparr>))"

text \<open>\<open>call\<close> runs the handler at an address on the rest of the buffer and the length of the datagram.\<close>

type_synonym udp_call = "u64 \<Rightarrow> u32 \<Rightarrow> u16 \<Rightarrow> u8 list \<Rightarrow> nat \<Rightarrow> net \<Rightarrow> net option"

definition udp_rx :: "udp_call \<Rightarrow> u8 list \<Rightarrow> nat \<Rightarrow> u32 \<Rightarrow> net \<Rightarrow> net option" where
  "udp_rx call pkt len src_ip_host s =
     (if len < 8 then Some s
      else do {
        dport \<leftarrow> map_option NET_NTOHS (read16 pkt 2);
        ulen \<leftarrow> map_option NET_NTOHS (read16 pkt 4);
        if unat ulen < 8 \<or> len < unat ulen then Some s
        else case List.find (\<lambda>e. up_port e = dport \<and> up_fn e \<noteq> 0) (n_ports s) of None \<Rightarrow> Some s
             | Some e \<Rightarrow> do {
                 sport \<leftarrow> map_option NET_NTOHS (read16 pkt 0);
                 call (up_fn e) src_ip_host sport (drop 8 pkt) (unat (ucast ulen - 8 :: u32)) s
               }
      })"

definition udp_hdr :: "u16 \<Rightarrow> u16 \<Rightarrow> u16 \<Rightarrow> u16 \<Rightarrow> u8 list" where
  "udp_hdr src_port dst_port tot check =
     put16 (NET_HTONS src_port) @ put16 (NET_HTONS dst_port) @ put16 (NET_HTONS tot) @ put16 check"

definition udp_pseudo :: "u32 \<Rightarrow> u32 \<Rightarrow> u16 \<Rightarrow> u32" where
  "udp_pseudo src dst tot =
     (drop_bit 16 src AND 0xFFFF) + (src AND 0xFFFF) + (drop_bit 16 dst AND 0xFFFF) + (dst AND 0xFFFF) +
     ucast (NET_HTONS (ucast IP_PROTO_UDP)) + ucast (NET_HTONS tot)"

definition udp_segment :: "u32 \<Rightarrow> u32 \<Rightarrow> u16 \<Rightarrow> u16 \<Rightarrow> u8 list \<Rightarrow> u8 list" where
  "udp_segment src dst src_port dst_port data =
     (let tot = of_nat (8 + length data);
          acc = sum16 (udp_pseudo src dst tot) (udp_hdr src_port dst_port tot 0 @ data)
      in udp_hdr src_port dst_port tot (NET_HTONS (ucast (NOT (fold_sum acc) AND 0xFFFF))) @ data)"

text \<open>The segment is built in a buffer of \<open>NET_MTU\<close> bytes.\<close>

definition udp_send :: "u32 \<Rightarrow> u16 \<Rightarrow> u16 \<Rightarrow> u8 list \<Rightarrow> net \<Rightarrow> (int \<times> net) option" where
  "udp_send dst_ip dst_port src_port data s =
     (if of_nat NET_MTU < (8 + of_nat (length data) :: u32) then Some (- 1, s)
      else if NET_MTU < 8 + length data then None
      else let (sp, s1) = (if src_port = 0
                 then (case net_tsc_ms s of (now, s') \<Rightarrow> (ucast (0xC000 XOR (ucast now :: u32)), s')) else (src_port, s))
           in ipv4_send dst_ip IP_PROTO_UDP (udp_segment (g_net_ip s1) dst_ip sp dst_port data) s1)"

section \<open>Receiving\<close>

definition ipv4_rx :: "udp_call \<Rightarrow> u8 list \<Rightarrow> nat \<Rightarrow> net \<Rightarrow> net option" where
  "ipv4_rx call pkt len s =
     (if len < 20 then Some s
      else do {
        ver_ihl \<leftarrow> read8 pkt 0;
        if drop_bit 4 ver_ihl \<noteq> 4 \<or> ver_ihl AND 0xF \<noteq> 5 then Some s
        else do {
          tot \<leftarrow> map_option NET_NTOHS (read16 pkt 2);
          if unat tot < 20 \<or> len < unat tot then Some s
          else do {
            dst \<leftarrow> map_option NET_NTOHL (read32 pkt 16);
            if dst \<noteq> g_net_ip s \<and> \<not> (g_net_ip s = 0 \<and> dst = 0xFFFFFFFF) then Some s
            else do {
              h \<leftarrow> read_bytes pkt 0 20;
              if ip_checksum h \<noteq> 0 then Some s
              else do {
                proto \<leftarrow> read8 pkt 9;
                src \<leftarrow> map_option NET_NTOHL (read32 pkt 12);
                let payload = drop 20 pkt; plen = unat (ucast tot - 20 :: u32)
                in if proto = IP_PROTO_ICMP then icmp_rx payload plen src s
                   else if proto = IP_PROTO_UDP then udp_rx call payload plen src s
                   else Some s
              }
            }
          }
        }
      })"

definition ether_rx :: "udp_call \<Rightarrow> u8 list \<Rightarrow> nat \<Rightarrow> net \<Rightarrow> net option" where
  "ether_rx call frame len s =
     (if len < 15 then Some s
      else do {
        type \<leftarrow> map_option NET_NTOHS (read16 frame 12);
        if type = ETHERTYPE_ARP then arp_rx (drop 14 frame) (len - 14) s
        else if type = ETHERTYPE_IPV4 then ipv4_rx call (drop 14 frame) (len - 14) s
        else Some s
      })"

section \<open>Addresses as text\<close>

definition octet_str :: "u8 \<Rightarrow> cstr" where
  "octet_str v = (if 100 \<le> v then [0x30 + v div 100] else []) @ (if 10 \<le> v then [0x30 + (v div 10) mod 10] else []) @
     [0x30 + v mod 10]"

definition net_ipv4_str :: "u32 \<Rightarrow> cstr" where
  "net_ipv4_str ip = octet_str (ucast (drop_bit 24 ip)) @ [0x2E] @ octet_str (ucast (drop_bit 16 ip)) @ [0x2E] @
     octet_str (ucast (drop_bit 8 ip)) @ [0x2E] @ octet_str (ucast ip)"

section \<open>Byte order, lemmas\<close>

lemma mask_8: "(0xFF :: 'a::len word) = mask 8"
  by (simp add: mask_eq_exp_minus_1)

lemma HTONS_bytes: "put16 (NET_HTONS x) = [ucast (drop_bit 8 x), ucast x]"
proof -
  have "ucast (NET_HTONS x) = (ucast (drop_bit 8 x) :: u8)"
    by (rule bit_word_eqI) (auto simp: NET_HTONS_def mask_8 bit_simps)
  moreover have "ucast (drop_bit 8 (NET_HTONS x)) = (ucast x :: u8)"
    by (rule bit_word_eqI) (auto simp: NET_HTONS_def mask_8 bit_simps)
  ultimately show ?thesis
    by (simp add: put16_def)
qed

lemma HTONS_HTONS [simp]: "NET_HTONS (NET_HTONS x) = x"
  by (rule bit_word_eqI) (auto simp: NET_HTONS_def mask_8 bit_simps)

lemma HTONS_0 [simp]: "NET_HTONS 0 = 0"
  by (simp add: NET_HTONS_def)

lemma HTONL_byte:
  "(ucast (NET_HTONL x) :: u8) = ucast (drop_bit 24 x)"
  "(ucast (drop_bit 8 (NET_HTONL x)) :: u8) = ucast (drop_bit 16 x)"
  "(ucast (drop_bit 16 (NET_HTONL x)) :: u8) = ucast (drop_bit 8 x)"
  "(ucast (drop_bit 24 (NET_HTONL x)) :: u8) = ucast x"
proof -
  have m: "(0xFF0000 :: u32) = push_bit 16 (mask 8)" "(0xFF00 :: u32) = push_bit 8 (mask 8)"
    by (simp_all add: mask_eq_exp_minus_1)
  note defs = NET_HTONL_def m
  show "(ucast (NET_HTONL x) :: u8) = ucast (drop_bit 24 x)"
    unfolding defs by (rule bit_word_eqI) (simp add: bit_simps)
  show "(ucast (drop_bit 8 (NET_HTONL x)) :: u8) = ucast (drop_bit 16 x)"
    unfolding defs by (rule bit_word_eqI) (simp add: bit_simps)
  show "(ucast (drop_bit 16 (NET_HTONL x)) :: u8) = ucast (drop_bit 8 x)"
    unfolding defs by (rule bit_word_eqI) (simp add: bit_simps)
  show "(ucast (drop_bit 24 (NET_HTONL x)) :: u8) = ucast x"
    unfolding defs by (rule bit_word_eqI) (simp add: bit_simps)
qed

lemma HTONL_bytes:
  "put32 (NET_HTONL x) = be32 x"
  by (simp add: put32_def be32_def HTONL_byte)

lemma get32_be32: "i + 4 \<le> length bs \<Longrightarrow> get32 bs i = NET_HTONL x \<longleftrightarrow> take 4 (drop i bs) = be32 x"
  using put32_inject [of "get32 bs i" "NET_HTONL x"] by (simp add: put32_get32 HTONL_bytes)

lemma HTONL_HTONL [simp]: "NET_HTONL (NET_HTONL x) = x"
proof -
  have "put32 (NET_HTONL (NET_HTONL x)) = put32 x"
    by (simp add: put32_def HTONL_byte)
  then show ?thesis
    by (simp add: put32_inject)
qed

lemma HTONL_inject [simp]: "NET_HTONL x = NET_HTONL y \<longleftrightarrow> x = y"
  by (metis HTONL_HTONL)

section \<open>The internet checksum\<close>

text \<open>
  The reference, RFC 1071: the sum of the big-endian 16-bit words, an odd last byte padded with zero,
  in ones' complement arithmetic, that is modulo 65535 with 65535 as the other zero.
\<close>

fun words_sum :: "u8 list \<Rightarrow> nat" where
  "words_sum [] = 0"
| "words_sum [x] = 256 * unat x"
| "words_sum (x # y # zs) = 256 * unat x + unat y + words_sum zs"

definition ones_sum :: "nat \<Rightarrow> nat" where
  "ones_sum n = (if n = 0 then 0 else (n - 1) mod 65535 + 1)"

lemma word_pair: "unat (push_bit 8 (ucast (x :: u8)) OR ucast (y :: u8) :: u32) = 256 * unat x + unat y"
proof -
  have "push_bit 8 (ucast x) OR (ucast y :: u32) = push_bit 8 (ucast x) + ucast y"
    by (rule disjunctive_add [symmetric]) (auto simp: bit_simps dest: bit_imp_le_length)
  moreover have "unat x < 256" "unat y < 256"
    using unsigned_less [of x, where ?'a = nat] unsigned_less [of y, where ?'a = nat] by simp_all
  ultimately show ?thesis
    by (simp add: unat_word_ariths unsigned_ucast_eq push_bit_eq_mult take_bit_nat_eq_self)
qed

lemma word_high: "unat (push_bit 8 (ucast (x :: u8)) :: u32) = 256 * unat x"
  using word_pair [of x 0] by simp

lemma words_sum_bound: "words_sum xs \<le> 65535 * ((length xs + 1) div 2)"
proof (induction xs rule: words_sum.induct)
  case (2 x)
  then show ?case using unsigned_less [of x, where ?'a = nat] by simp
next
  case (3 x y zs)
  then show ?case
    using unsigned_less [of x, where ?'a = nat] unsigned_less [of y, where ?'a = nat] by simp
qed simp

lemma sum16_words:
  "unat acc + words_sum xs < 2 ^ 32 \<Longrightarrow> unat (sum16 acc xs) = unat acc + words_sum xs"
proof (induction acc xs rule: sum16.induct)
  case (3 acc x y zs)
  have "unat (acc + (push_bit 8 (ucast x) OR ucast y)) = unat acc + (256 * unat x + unat y)"
    using 3(2) by (simp add: unat_word_ariths word_pair)
  then show ?case
    using 3 by simp
qed (simp_all add: unat_word_ariths word_high)

lemma ones_sum_step: "65536 \<le> n \<Longrightarrow> ones_sum (n mod 65536 + n div 65536) = ones_sum n"
proof -
  assume n: "65536 \<le> n"
  define h l where "h = n div 65536" and "l = n mod 65536"
  have e: "n = 65536 * h + l" "0 < h"
    using n by (simp_all add: h_def l_def div_greater_zero_iff)
  have "n - 1 = (l + h - 1) + 65535 * h"
    using e by linarith
  then have "(n - 1) mod 65535 = (l + h - 1) mod 65535"
    by (metis mod_mult_self2)
  then have "ones_sum (l + h) = ones_sum n"
    using e(2) n by (simp add: ones_sum_def)
  then show ?thesis
    by (simp add: h_def l_def)
qed

lemma fold_sum_ones: "unat (fold_sum acc) = ones_sum (unat acc)"
proof (induction acc rule: fold_sum.induct)
  case (1 acc)
  have d: "unat (drop_bit 16 acc) = unat acc div 65536"
    by (simp only: unat_drop_bit_eq) (simp add: drop_bit_eq_div)
  show ?case
  proof (cases "drop_bit 16 acc = 0")
    case True
    then have "unat acc < 65536"
      using d by (simp add: div_eq_0_iff)
    then show ?thesis
      using True by (simp add: fold_sum.simps [of acc] ones_sum_def)
  next
    case False
    then have "65536 \<le> unat acc"
      using d by (metis div_less linorder_not_le unat_eq_0)
    then show ?thesis
      using 1 [OF False] False fold_step_less(1) [OF False] by (simp add: fold_sum.simps [of acc] ones_sum_step)
  qed
qed

lemma ones_sum_le: "ones_sum n \<le> 65535"
proof -
  have "(n - 1) mod 65535 < 65535"
    by simp
  then show ?thesis
    unfolding ones_sum_def by (auto simp del: One_nat_def)
qed

text \<open>The complement, as the 16-bit value whose big-endian bytes go into the field.\<close>

definition complement :: "u32 \<Rightarrow> u16" where
  "complement acc = ucast (NOT (fold_sum acc) AND 0xFFFF)"

lemma complement_unat: "unat (complement acc) = 65535 - ones_sum (unat acc)"
proof -
  let ?f = "fold_sum acc"
  have f: "unat ?f \<le> 65535"
    by (simp add: fold_sum_ones ones_sum_le)
  have m: "(0xFFFF :: u32) = mask 16"
    by (simp add: mask_eq_exp_minus_1)
  have "complement acc = NOT (ucast ?f)"
    unfolding complement_def m by (rule bit_word_eqI) (auto simp: bit_simps)
  also have "\<dots> = - 1 - ucast ?f"
    by (simp add: not_eq_complement)
  finally have "complement acc = - 1 - ucast ?f" .
  moreover have "unat (ucast ?f :: u16) = unat ?f"
    using f by (simp add: unsigned_ucast_eq take_bit_nat_eq_self)
  moreover have "(ucast ?f :: u16) \<le> - 1"
    by simp
  ultimately show ?thesis
    by (simp add: unat_sub unsigned_minus_1_eq_mask mask_eq_exp_minus_1 fold_sum_ones)
qed

lemma ip_checksum_complement: "ip_checksum xs = NET_HTONS (complement (sum16 0 xs))"
  by (simp add: ip_checksum_def complement_def)

lemma words_sum_append: "even (length xs) \<Longrightarrow> words_sum (xs @ ys) = words_sum xs + words_sum ys"
  by (induction xs rule: words_sum.induct) simp_all

lemma words_sum_put16: "words_sum (put16 (NET_HTONS c)) = unat c"
proof -
  have "unat (drop_bit 8 c) = unat c div 256"
    by (simp only: unat_drop_bit_eq) (simp add: drop_bit_eq_div)
  moreover have "unat c div 256 < 256"
    using unsigned_less [of c, where ?'a = nat] by (simp add: less_mult_imp_div_less)
  ultimately show ?thesis
    by (simp add: HTONS_bytes unsigned_ucast_eq take_bit_eq_mod)
qed

lemma ones_sum_top: "ones_sum n = 65535 \<longleftrightarrow> 0 < n \<and> 65535 dvd n"
proof (cases n)
  case (Suc k)
  have "k mod 65535 = 65534 \<longleftrightarrow> 65535 dvd Suc k"
    by (simp add: dvd_eq_mod_eq_0 mod_Suc)
  then show ?thesis
    by (simp add: Suc ones_sum_def)
qed (simp add: ones_sum_def)

lemma ones_sum_mod: "ones_sum n mod 65535 = n mod 65535"
  by (cases n) (simp_all add: ones_sum_def mod_Suc)

lemma ones_sum_complement: "ones_sum (n + (65535 - ones_sum n)) = 65535"
proof -
  have "(n + (65535 - ones_sum n)) mod 65535 = (ones_sum n + (65535 - ones_sum n)) mod 65535"
    by (metis mod_add_left_eq ones_sum_mod)
  also have "\<dots> = 0"
    using ones_sum_le [of n] by simp
  finally have "65535 dvd n + (65535 - ones_sum n)"
    by (simp add: dvd_eq_mod_eq_0)
  moreover have "0 < n + (65535 - ones_sum n)"
    by (cases "n = 0") (simp_all add: ones_sum_def)
  ultimately show ?thesis
    by (simp add: ones_sum_top)
qed

lemma checksum_value:
  assumes "length xs \<le> 65536"
  shows "unat (complement (sum16 0 xs)) = 65535 - ones_sum (words_sum xs)"
proof -
  have "(length xs + 1) div 2 \<le> 32768"
    using assms by simp
  then have "words_sum xs \<le> 65535 * 32768"
    using words_sum_bound [of xs] by (meson mult_le_mono2 order_trans)
  then show ?thesis
    by (simp add: complement_unat sum16_words)
qed

lemma ip_checksum_zero: "length xs \<le> 65536 \<Longrightarrow> ip_checksum xs = 0 \<longleftrightarrow> ones_sum (words_sum xs) = 65535"
proof -
  assume l: "length xs \<le> 65536"
  have "ip_checksum xs = 0 \<longleftrightarrow> complement (sum16 0 xs) = 0"
    unfolding ip_checksum_complement by (metis HTONS_HTONS HTONS_0)
  also have "\<dots> \<longleftrightarrow> unat (complement (sum16 0 xs)) = 0"
    by (simp add: unat_eq_0)
  finally show ?thesis
    using l ones_sum_le [of "words_sum xs"] by (simp add: checksum_value)
qed

lemma checksum_inserted:
  assumes "even (length a)" "length a + length b + 2 \<le> 65536"
  shows "ip_checksum (a @ put16 (ip_checksum (a @ put16 0 @ b)) @ b) = 0"
proof -
  have z: "words_sum (a @ put16 0 @ b) = words_sum a + words_sum b"
    using assms(1) by (simp add: words_sum_append put16_def)
  have "words_sum (a @ put16 (ip_checksum (a @ put16 0 @ b)) @ b) =
      words_sum a + words_sum b + (65535 - ones_sum (words_sum a + words_sum b))"
    using assms by (simp add: words_sum_append ip_checksum_complement words_sum_put16 checksum_value z)
  then show ?thesis
    using assms by (simp add: ip_checksum_zero ones_sum_complement)
qed

section \<open>Frames between hosts\<close>

text \<open>
  Well-formed interface state: addresses have six bytes, the tables their size, and the cache has one
  entry for an address.
\<close>

definition net_wf :: "net \<Rightarrow> bool" where
  "net_wf s \<longleftrightarrow> length (g_net_mac s) = 6 \<and> length (n_cache s) = ARP_CACHE_SIZE \<and> length (n_ports s) = UDP_MAX_PORTS \<and>
     (\<forall>e \<in> set (n_cache s). ac_used e \<longrightarrow> length (ac_mac e) = 6) \<and>
     (\<forall>i < ARP_CACHE_SIZE. \<forall>j < ARP_CACHE_SIZE. ac_used (n_cache s ! i) \<longrightarrow> ac_used (n_cache s ! j) \<longrightarrow>
        ac_ip (n_cache s ! i) = ac_ip (n_cache s ! j) \<longrightarrow> i = j)"

lemma length_eth_hdr: "length d = 6 \<Longrightarrow> length m = 6 \<Longrightarrow> length (eth_hdr d m t) = 14"
  by (simp add: eth_hdr_def)

lemma ether_send_room:
  assumes "length d = 6" "length (g_net_mac s) = 6" "n = length body"
  shows "ether_send d t (room @ body) n s = Some (netdev_send (eth_hdr d (g_net_mac s) (NET_HTONS t) @ body) s)"
  using assms by (simp add: ether_send_def splice_def length_eth_hdr)

lemma length_ipv4_hdr [simp]: "length (ipv4_hdr c a b p n) = 20" "length (hdr_fill a b p n) = 20"
  by (simp_all add: ipv4_hdr_def hdr_fill_def)

lemma hdr_fill_checksum: "ip_checksum (hdr_fill a b p n) = 0"
  using checksum_inserted [of "[0x45, 0] @ put16 (NET_HTONS (20 + n)) @ put16 0 @ put16 (NET_HTONS 0x4000) @ [64, p]"
      "put32 (NET_HTONL a) @ put32 (NET_HTONL b)"]
  by (simp add: hdr_fill_def ipv4_hdr_def)

lemma ipv4_hdr_fields:
  "ipv4_hdr c a b p n ! 0 = 0x45" "ipv4_hdr c a b p n ! 9 = p" "get16 (ipv4_hdr c a b p n @ xs) 2 = NET_HTONS (20 + n)"
  "get32 (ipv4_hdr c a b p n @ xs) 12 = NET_HTONL a" "get32 (ipv4_hdr c a b p n @ xs) 16 = NET_HTONL b"
  by (simp_all add: ipv4_hdr_def get16_def get32_def put16_def put32_def word16_halves word32_bytes)

lemma hdr_fill_fields:
  "(hdr_fill a b p n @ xs) ! 0 = 0x45" "(hdr_fill a b p n @ xs) ! 9 = p" "get16 (hdr_fill a b p n @ xs) 2 = NET_HTONS (20 + n)"
  "get32 (hdr_fill a b p n @ xs) 12 = NET_HTONL a" "get32 (hdr_fill a b p n @ xs) 16 = NET_HTONL b"
  by (simp_all add: nth_append, simp_all add: hdr_fill_def ipv4_hdr_fields)

lemma ipv4_rx_hdr:
  assumes "length payload \<le> 1480" "20 + length payload \<le> len"
    and "g_net_ip s = b \<or> g_net_ip s = 0 \<and> b = 0xFFFFFFFF"
  shows "ipv4_rx call (hdr_fill a b p (of_nat (length payload)) @ payload @ rest) len s =
    (if p = IP_PROTO_ICMP then icmp_rx (payload @ rest) (length payload) a s
     else if p = IP_PROTO_UDP then udp_rx call (payload @ rest) (length payload) a s else Some s)"
proof -
  let ?n = "of_nat (length payload) :: u16"
  have t: "unat (20 + ?n) = 20 + length payload"
    using assms(1) by (simp add: unat_word_ariths unat_of_nat)
  have "unat (ucast (20 + ?n) :: u32) = 20 + length payload"
    using t assms(1) by (simp add: unsigned_ucast_eq take_bit_nat_eq_self_iff)
  then have p: "unat (ucast (20 + ?n) - 20 :: u32) = length payload"
    by (simp add: unat_sub word_le_nat_alt)
  have v: "drop_bit 4 (0x45 :: u8) = 4" "(0x45 :: u8) AND 0xF = 5"
    by simp_all
  show ?thesis
    using assms(2,3) by (auto simp: ipv4_rx_def Let_def hdr_fill_fields t p v hdr_fill_checksum)
qed

section \<open>The ARP cache\<close>

lemma cache_slot_Some:
  "cache_slot ip i slot es = Some k \<Longrightarrow>
     (\<exists>j < length es. k = i + j \<and> ac_used (es ! j) \<and> ac_ip (es ! j) = ip) \<or>
     ((\<forall>e \<in> set es. ac_used e \<longrightarrow> ac_ip e \<noteq> ip) \<and>
      (slot = Some k \<or> slot = None \<and> (\<exists>j < length es. k = i + j \<and> \<not> ac_used (es ! j))))"
proof (induction ip i slot es rule: cache_slot.induct)
  case (2 ip i slot e es)
  show ?case
  proof (cases "ac_used e \<and> ac_ip e = ip")
    case True
    then show ?thesis using 2(2) by auto
  next
    case False
    have shift: "(\<exists>j < length es. k = i + 1 + j \<and> P (es ! j)) \<Longrightarrow> \<exists>j < length (e # es). k = i + j \<and> P ((e # es) ! j)" for P
      by (metis add.assoc add.commute length_Cons not_less_eq nth_Cons_Suc plus_1_eq_Suc)
    have new: "slot = None \<Longrightarrow> \<not> ac_used e \<Longrightarrow> k = i \<Longrightarrow> \<exists>j < length (e # es). k = i + j \<and> \<not> ac_used ((e # es) ! j)"
      by auto
    have c: "cache_slot ip (i + 1) (if \<not> ac_used e \<and> slot = None then Some i else slot) es = Some k"
      using 2(2) False by simp
    show ?thesis
      using 2(1) [OF False c] shift [of "\<lambda>e. ac_used e \<and> ac_ip e = ip"] shift [of "\<lambda>e. \<not> ac_used e"] new False
      by (cases "\<not> ac_used e \<and> slot = None") auto
  qed
qed auto

lemma cache_slot_None:
  "cache_slot ip i slot es = None \<Longrightarrow> slot = None \<and> (\<forall>e \<in> set es. ac_used e \<and> ac_ip e \<noteq> ip)"
proof (induction ip i slot es rule: cache_slot.induct)
  case (2 ip i slot e es)
  have e: "\<not> (ac_used e \<and> ac_ip e = ip)"
    using 2(2) by (cases "ac_used e \<and> ac_ip e = ip") simp_all
  have "cache_slot ip (i + 1) (if \<not> ac_used e \<and> slot = None then Some i else slot) es = None"
    using 2(2) e by simp
  from 2(1) [OF e this] e show ?case
    by (cases "\<not> ac_used e \<and> slot = None") auto
qed simp

text \<open>The map from addresses that the cache stands for.\<close>

lemma arp_lookup_iff:
  assumes "net_wf s"
  shows "arp_lookup x s = Some m \<longleftrightarrow>
    (\<exists>i < ARP_CACHE_SIZE. ac_used (n_cache s ! i) \<and> ac_ip (n_cache s ! i) = NET_HTONL x \<and> ac_mac (n_cache s ! i) = m)"
proof
  have len: "length (n_cache s) = ARP_CACHE_SIZE"
    using assms by (simp add: net_wf_def)
  assume "arp_lookup x s = Some m"
  then obtain e where "List.find (\<lambda>e. ac_used e \<and> ac_ip e = NET_HTONL x) (n_cache s) = Some e" "ac_mac e = m"
    by (auto simp: arp_lookup_def)
  then show "\<exists>i < ARP_CACHE_SIZE. ac_used (n_cache s ! i) \<and> ac_ip (n_cache s ! i) = NET_HTONL x \<and> ac_mac (n_cache s ! i) = m"
    unfolding find_Some_iff using len by metis
next
  assume "\<exists>i < ARP_CACHE_SIZE. ac_used (n_cache s ! i) \<and> ac_ip (n_cache s ! i) = NET_HTONL x \<and> ac_mac (n_cache s ! i) = m"
  then obtain i where i: "i < ARP_CACHE_SIZE" "ac_used (n_cache s ! i)" "ac_ip (n_cache s ! i) = NET_HTONL x" "ac_mac (n_cache s ! i) = m"
    by blast
  have "List.find (\<lambda>e. ac_used e \<and> ac_ip e = NET_HTONL x) (n_cache s) = Some (n_cache s ! i)"
    unfolding find_Some_iff
  proof (intro exI [of _ i] conjI allI impI)
    show "i < length (n_cache s)"
      using assms i(1) by (simp add: net_wf_def)
    fix j assume j: "j < i"
    show "\<not> (ac_used (n_cache s ! j) \<and> ac_ip (n_cache s ! j) = NET_HTONL x)"
    proof
      assume "ac_used (n_cache s ! j) \<and> ac_ip (n_cache s ! j) = NET_HTONL x"
      moreover have "j < ARP_CACHE_SIZE"
        using i(1) j by simp
      ultimately have "j = i"
        using assms i unfolding net_wf_def by metis
      with j show False by simp
    qed
  qed (use i in simp_all)
  then show "arp_lookup x s = Some m"
    using i by (simp add: arp_lookup_def)
qed

definition cache_room :: "u32 \<Rightarrow> net \<Rightarrow> bool" where
  "cache_room x s \<longleftrightarrow> arp_lookup x s \<noteq> None \<or> (\<exists>e \<in> set (n_cache s). \<not> ac_used e)"

definition cache_put :: "nat \<Rightarrow> u32 \<Rightarrow> u8 list \<Rightarrow> net \<Rightarrow> net" where
  "cache_put i x mac s = s\<lparr>n_reads := n_reads s + 1, n_cache := (n_cache s)
     [i := \<lparr>ac_ip = NET_HTONL x, ac_mac = mac, ac_stamp = n_clock s (n_reads s), ac_used = True\<rparr>]\<rparr>"

text \<open>A slot that holds the address, or is free while no slot holds it.\<close>

definition slot_for :: "nat \<Rightarrow> u32 \<Rightarrow> net \<Rightarrow> bool" where
  "slot_for i x s \<longleftrightarrow> i < ARP_CACHE_SIZE \<and> (ac_used (n_cache s ! i) \<longrightarrow> ac_ip (n_cache s ! i) = NET_HTONL x) \<and>
     (\<forall>j < ARP_CACHE_SIZE. j \<noteq> i \<longrightarrow> ac_used (n_cache s ! j) \<longrightarrow> ac_ip (n_cache s ! j) \<noteq> NET_HTONL x)"

lemma cache_slot_slot_for:
  assumes "net_wf s" "cache_slot (NET_HTONL x) 0 None (n_cache s) = Some i"
  shows "slot_for i x s"
proof -
  have len: "length (n_cache s) = ARP_CACHE_SIZE"
    using assms(1) by (simp add: net_wf_def)
  have dist: "j = i" if "i < ARP_CACHE_SIZE" "j < ARP_CACHE_SIZE" "ac_used (n_cache s ! i)" "ac_used (n_cache s ! j)"
      "ac_ip (n_cache s ! j) = ac_ip (n_cache s ! i)" for j
    using assms(1) that unfolding net_wf_def by blast
  show ?thesis
    using cache_slot_Some [OF assms(2)]
  proof
    assume "\<exists>j < length (n_cache s). i = 0 + j \<and> ac_used (n_cache s ! j) \<and> ac_ip (n_cache s ! j) = NET_HTONL x"
    then have i: "i < ARP_CACHE_SIZE" "ac_used (n_cache s ! i)" "ac_ip (n_cache s ! i) = NET_HTONL x"
      using len by auto
    then show ?thesis
      using dist unfolding slot_for_def by metis
  next
    assume a: "(\<forall>e \<in> set (n_cache s). ac_used e \<longrightarrow> ac_ip e \<noteq> NET_HTONL x) \<and>
      (None = Some i \<or> None = None \<and> (\<exists>j < length (n_cache s). i = 0 + j \<and> \<not> ac_used (n_cache s ! j)))"
    then have "i < ARP_CACHE_SIZE" "\<not> ac_used (n_cache s ! i)"
      using len by auto
    moreover have "ac_ip (n_cache s ! j) \<noteq> NET_HTONL x" if "j < ARP_CACHE_SIZE" "ac_used (n_cache s ! j)" for j
      using a that len nth_mem [of j "n_cache s"] by metis
    ultimately show ?thesis
      unfolding slot_for_def by blast
  qed
qed

lemma arp_cache_add_cases:
  assumes "net_wf s"
  obtains (full) "\<not> cache_room x s" "arp_cache_add mac (NET_HTONL x) s = s"
  | (put) i where "cache_room x s" "slot_for i x s" "arp_cache_add mac (NET_HTONL x) s = cache_put i x mac s"
proof (cases "cache_slot (NET_HTONL x) 0 None (n_cache s)")
  case None
  have len: "length (n_cache s) = ARP_CACHE_SIZE"
    using assms(1) by (simp add: net_wf_def)
  from None have f: "\<forall>e \<in> set (n_cache s). ac_used e \<and> ac_ip e \<noteq> NET_HTONL x"
    using cache_slot_None by blast
  have "arp_lookup x s \<noteq> Some m" for m
    unfolding arp_lookup_iff [OF assms(1)] using f len by (metis nth_mem)
  then have "\<not> cache_room x s"
    using f by (auto simp: cache_room_def)
  then show ?thesis
    by (rule full) (simp add: arp_cache_add_def None)
next
  case (Some i)
  note i = cache_slot_slot_for [OF assms Some]
  have len: "length (n_cache s) = ARP_CACHE_SIZE"
    using assms(1) by (simp add: net_wf_def)
  have "cache_room x s"
  proof (cases "ac_used (n_cache s ! i)")
    case True
    then have "arp_lookup x s = Some (ac_mac (n_cache s ! i))"
      unfolding arp_lookup_iff [OF assms(1)] using i by (auto simp: slot_for_def)
    then show ?thesis by (simp add: cache_room_def)
  next
    case False
    then show ?thesis
      using i len nth_mem [of i "n_cache s"] by (auto simp: cache_room_def slot_for_def)
  qed
  then show ?thesis
    using i by (rule put) (simp add: arp_cache_add_def Some net_tsc_ms_def cache_put_def)
qed

lemma cache_put_nth:
  assumes "net_wf s" "i < ARP_CACHE_SIZE"
  shows "n_cache (cache_put i x mac s) ! i = \<lparr>ac_ip = NET_HTONL x, ac_mac = mac, ac_stamp = n_clock s (n_reads s), ac_used = True\<rparr>"
    "j \<noteq> i \<Longrightarrow> n_cache (cache_put i x mac s) ! j = n_cache s ! j"
  using assms by (simp_all add: cache_put_def net_wf_def)

lemma net_wf_cache_put:
  assumes "net_wf s" "slot_for i x s" "length mac = 6"
  shows "net_wf (cache_put i x mac s)"
proof -
  let ?s = "cache_put i x mac s"
  have i: "i < ARP_CACHE_SIZE"
    using assms(2) by (simp add: slot_for_def)
  note nth = cache_put_nth [OF assms(1) i]
  have len: "length (n_cache ?s) = ARP_CACHE_SIZE" "length (n_cache s) = ARP_CACHE_SIZE"
    using assms(1) by (simp_all add: cache_put_def net_wf_def)
  have mac: "length (ac_mac (n_cache ?s ! j)) = 6" if "j < ARP_CACHE_SIZE" "ac_used (n_cache ?s ! j)" for j
  proof (cases "j = i")
    case False
    then show ?thesis
      using assms(1) that len nth(2) nth_mem [of j "n_cache s"] by (auto simp: net_wf_def)
  qed (simp add: nth assms)
  have "j = k" if "j < ARP_CACHE_SIZE" "k < ARP_CACHE_SIZE" "ac_used (n_cache ?s ! j)" "ac_used (n_cache ?s ! k)"
      "ac_ip (n_cache ?s ! j) = ac_ip (n_cache ?s ! k)" for j k
  proof -
    have other: "l < ARP_CACHE_SIZE \<Longrightarrow> l \<noteq> i \<Longrightarrow> ac_used (n_cache s ! l) \<Longrightarrow> ac_ip (n_cache s ! l) \<noteq> NET_HTONL x" for l
      using assms(2) unfolding slot_for_def by blast
    consider "j = i" "k = i" | "j = i" "k \<noteq> i" | "j \<noteq> i" "k = i" | "j \<noteq> i" "k \<noteq> i"
      by blast
    then show ?thesis
    proof cases
      case 2
      then show ?thesis using that other [of k] nth by simp
    next
      case 3
      then show ?thesis using that other [of j] nth by simp
    next
      case 4
      then show ?thesis using that assms(1) nth(2) unfolding net_wf_def by metis
    qed simp
  qed
  moreover have "\<forall>e \<in> set (n_cache ?s). ac_used e \<longrightarrow> length (ac_mac e) = 6"
    using mac len by (metis in_set_conv_nth)
  ultimately show ?thesis
    using assms(1) len unfolding net_wf_def by (simp add: cache_put_def)
qed

lemma net_wf_cache_add: "net_wf s \<Longrightarrow> length mac = 6 \<Longrightarrow> net_wf (arp_cache_add mac (NET_HTONL x) s)"
  by (rule arp_cache_add_cases [of s x mac]) (simp_all add: net_wf_cache_put)

lemma arp_lookup_put:
  assumes "net_wf s" "slot_for i x s" "length mac = 6"
  shows "arp_lookup y (cache_put i x mac s) = (if y = x then Some mac else arp_lookup y s)"
proof -
  have i: "i < ARP_CACHE_SIZE" "ac_used (n_cache s ! i) \<Longrightarrow> ac_ip (n_cache s ! i) = NET_HTONL x"
    using assms(2) by (simp_all add: slot_for_def)
  note nth = cache_put_nth [OF assms(1) i(1)]
  note look = arp_lookup_iff [OF net_wf_cache_put [OF assms]]
  show ?thesis
  proof (cases "y = x")
    case True
    have "arp_lookup x (cache_put i x mac s) = Some mac"
      unfolding look using i nth(1) by (intro exI [of _ i]) simp
    with True show ?thesis by simp
  next
    case False
    have "arp_lookup y (cache_put i x mac s) = Some m \<longleftrightarrow> arp_lookup y s = Some m" for m
      unfolding look arp_lookup_iff [OF assms(1)]
    proof (intro ex_cong1)
      fix j
      show "(j < ARP_CACHE_SIZE \<and> ac_used (n_cache (cache_put i x mac s) ! j) \<and>
          ac_ip (n_cache (cache_put i x mac s) ! j) = NET_HTONL y \<and> ac_mac (n_cache (cache_put i x mac s) ! j) = m) =
        (j < ARP_CACHE_SIZE \<and> ac_used (n_cache s ! j) \<and> ac_ip (n_cache s ! j) = NET_HTONL y \<and> ac_mac (n_cache s ! j) = m)"
        using False i nth by (cases "j = i") auto
    qed
    with False show ?thesis
      by (metis option.exhaust)
  qed
qed

section \<open>UDP segments\<close>

text \<open>
  What a receiver that follows RFC 768 checks: a checksum field of zero means that there is no checksum;
  otherwise the pseudo header (both addresses, the protocol number and the length) and the segment add up
  to the ones' complement zero.
\<close>

definition address_sum :: "u32 \<Rightarrow> u32 \<Rightarrow> nat" where
  "address_sum src dst = unat src div 65536 + unat src mod 65536 + unat dst div 65536 + unat dst mod 65536"

definition rfc_udp_ok :: "u32 \<Rightarrow> u32 \<Rightarrow> u8 list \<Rightarrow> bool" where
  "rfc_udp_ok src dst seg \<longleftrightarrow> take 2 (drop 6 seg) = [0, 0] \<or>
     ones_sum (address_sum src dst + 17 + length seg + words_sum seg) = 65535"

lemma udp_hdr_length [simp]: "length (udp_hdr a b t c) = 8"
  by (simp add: udp_hdr_def)

lemma HTONS_unat: "unat (NET_HTONS x) = 256 * (unat x mod 256) + unat x div 256"
proof -
  have "words_sum (put16 (NET_HTONS (NET_HTONS x))) = unat (NET_HTONS x)"
    by (rule words_sum_put16)
  moreover have "unat (drop_bit 8 x) = unat x div 256"
    by (simp only: unat_drop_bit_eq) (simp add: drop_bit_eq_div)
  moreover have "unat x div 256 < 256"
    using unsigned_less [of x, where ?'a = nat] by (simp add: less_mult_imp_div_less)
  ultimately show ?thesis
    by (simp add: put16_def unsigned_ucast_eq take_bit_eq_mod)
qed

lemma udp_pseudo_unat:
  "unat (udp_pseudo src dst t) = address_sum src dst + 4352 + (256 * (unat t mod 256) + unat t div 256)"
proof -
  have lo: "unat (x AND 0xFFFF) = unat x mod 65536" for x :: u32
    using unat_and_mask [of x 16] by (simp add: mask_eq_exp_minus_1)
  have hi: "unat (drop_bit 16 x AND 0xFFFF) = unat x div 65536" for x :: u32
  proof -
    have "unat (drop_bit 16 x) = unat x div 65536"
      by (simp only: unat_drop_bit_eq) (simp add: drop_bit_eq_div)
    moreover have "unat x div 65536 < 65536"
      using unsigned_less [of x, where ?'a = nat] by (simp add: less_mult_imp_div_less)
    ultimately show ?thesis
      by (simp add: lo)
  qed
  have b: "unat x div 65536 < 65536" "unat x mod 65536 < 65536" for x :: u32
    using unsigned_less [of x, where ?'a = nat] by (simp_all add: less_mult_imp_div_less)
  have c: "unat (ucast (NET_HTONS t) :: u32) = 256 * (unat t mod 256) + unat t div 256"
    "unat (ucast (NET_HTONS t) :: u32) < 65536"
    using unsigned_less [of "NET_HTONS t", where ?'a = nat]
    by (simp_all add: unsigned_ucast_eq take_bit_nat_eq_self flip: HTONS_unat)
  have p: "unat (ucast (NET_HTONS (ucast (17 :: u8))) :: u32) = 4352"
    by (simp add: NET_HTONS_def)
  have "unat src div 65536 + unat src mod 65536 + unat dst div 65536 + unat dst mod 65536 + 4352 +
      (256 * (unat t mod 256) + unat t div 256) < 4294967296"
    using b [of src] b [of dst] c by linarith
  then show ?thesis
    by (simp only: udp_pseudo_def unat_word_ariths hi p c(1)) (simp add: lo address_sum_def)
qed

lemma words_sum_udp_hdr: "words_sum (udp_hdr a b t (NET_HTONS c) @ d) = words_sum (udp_hdr a b t 0 @ d) + unat c"
  by (simp add: udp_hdr_def words_sum_append words_sum_put16) (simp add: put16_def)

lemma swap_mod: "(256 * (t mod 256) + t div 256) mod 65535 = (256 * t) mod (65535 :: nat)"
proof -
  have "256 * t = 256 * (t mod 256) + 65536 * (t div 256)"
    using mult_div_mod_eq [of 256 t] by linarith
  also have "\<dots> = (256 * (t mod 256) + t div 256) + 65535 * (t div 256)"
    by linarith
  finally show ?thesis
    by (metis mod_mult_self2)
qed

lemma nat_cong_dvd:
  assumes "a mod 65535 = b mod (65535 :: nat)"
  shows "65535 dvd int a - int b"
proof -
  have "int (a mod 65535) = int (b mod 65535)"
    using assms by (rule arg_cong)
  then have "int a mod 65535 = int b mod 65535"
    unfolding zmod_int of_nat_numeral .
  then show ?thesis
    unfolding mod_eq_dvd_iff .
qed

lemma dvd_255_257: "(65535 :: int) dvd 255 * x \<longleftrightarrow> 257 dvd x"
proof -
  have e: "(65535 :: int) = 255 * 257"
    by simp
  show ?thesis
    unfolding e by (simp only: dvd_mult_cancel_left) simp
qed

lemma udp_length_condition:
  assumes "w mod 65535 = (256 * t) mod (65535 :: nat)"
  shows "65535 dvd int (17 + t) - int (4352 + w) \<longleftrightarrow> 257 dvd 17 + t"
proof -
  obtain q where q: "int w - int (256 * t) = 65535 * q"
    using nat_cong_dvd [OF assms] ..
  then have "int w = 65535 * q + 256 * int t"
    by (simp only: of_nat_mult of_nat_numeral)
  then have "int (17 + t) - int (4352 + w) = - (65535 * q + 255 * (17 + int t))"
    by (simp only: of_nat_add of_nat_numeral) (simp add: algebra_simps)
  then have "65535 dvd int (17 + t) - int (4352 + w) \<longleftrightarrow> 65535 dvd 255 * (17 + int t)"
    by (simp only: dvd_minus_iff dvd_add_right_iff dvd_triv_left)
  also have "\<dots> \<longleftrightarrow> int 257 dvd int (17 + t)"
    by (simp only: dvd_255_257 of_nat_add of_nat_numeral)
  finally show ?thesis
    by (simp only: int_dvd_int_iff)
qed

lemma ones_sum_dvd:
  assumes "0 < m"
  shows "ones_sum (m + (65535 - ones_sum n)) = 65535 \<longleftrightarrow> 65535 dvd int m - int n"
proof -
  obtain q where q: "int (ones_sum n) - int n = 65535 * q"
    using nat_cong_dvd [OF ones_sum_mod] ..
  have "int (m + (65535 - ones_sum n)) = int m + (65535 - int (ones_sum n))"
    by (simp only: of_nat_add of_nat_diff [OF ones_sum_le] of_nat_numeral)
  also have "\<dots> = 65535 * (1 - q) + (int m - int n)"
    using q by (simp only: right_diff_distrib)
  finally have "int 65535 dvd int (m + (65535 - ones_sum n)) \<longleftrightarrow> 65535 dvd int m - int n"
    by (simp only: of_nat_numeral dvd_add_right_iff dvd_triv_left)
  then have "65535 dvd m + (65535 - ones_sum n) \<longleftrightarrow> 65535 dvd int m - int n"
    by (simp only: int_dvd_int_iff)
  moreover have "0 < m + (65535 - ones_sum n)"
    using assms by (rule trans_less_add1)
  ultimately show ?thesis
    by (simp only: ones_sum_top) simp
qed

end
