(* ===== verification/Net_Proto.thy ===== *)
theory Net_Proto
  imports Net_Stack
begin

text \<open>
  What the network protocols of iokit/IONetFamily guarantee.
\<close>

section \<open>UDP checksums\<close>

lemma udp_segment_words:
  fixes sp dp :: u16
  assumes "length data \<le> 1492"
  defines "t \<equiv> 8 + length data"
  defines "W \<equiv> words_sum (udp_hdr sp dp (of_nat t) 0 @ data)"
  shows "words_sum (udp_segment src dst sp dp data) =
    W + (65535 - ones_sum (address_sum src dst + 4352 + (256 * (t mod 256) + t div 256) + W))"
proof -
  have "t < 65536"
    using assms(1) by (simp add: t_def)
  then have t: "unat (of_nat t :: u16) = t"
    by (simp add: unat_of_nat)
  let ?P = "udp_pseudo src dst (of_nat t)"
  have P: "unat ?P = address_sum src dst + 4352 + (256 * (t mod 256) + t div 256)"
    by (simp add: udp_pseudo_unat t)
  have "unat src div 65536 < 65536" "unat dst div 65536 < 65536"
    using unsigned_less [of src, where ?'a = nat] unsigned_less [of dst, where ?'a = nat]
    by (simp_all add: less_mult_imp_div_less)
  then have "address_sum src dst < 262144"
    unfolding address_sum_def using mod_less_divisor [of 65536 "unat src"] mod_less_divisor [of 65536 "unat dst"] by linarith
  moreover have "t mod 256 < 256" "t div 256 < 256"
    using assms(1) by (simp_all add: t_def)
  moreover have "W \<le> 65535 * 750"
  proof -
    have "(length (udp_hdr sp dp (of_nat t) 0 @ data) + 1) div 2 \<le> 750"
      using assms(1) by simp
    then show ?thesis
      unfolding W_def using words_sum_bound mult_le_mono2 order_trans by blast
  qed
  ultimately have "unat ?P + W < 2 ^ 32"
    unfolding P by simp
  then have "unat (sum16 ?P (udp_hdr sp dp (of_nat t) 0 @ data)) = unat ?P + W"
    unfolding W_def by (rule sum16_words)
  then have "unat (complement (sum16 ?P (udp_hdr sp dp (of_nat t) 0 @ data))) =
      65535 - ones_sum (address_sum src dst + 4352 + (256 * (t mod 256) + t div 256) + W)"
    by (simp add: complement_unat P)
  moreover have "udp_segment src dst sp dp data =
      udp_hdr sp dp (of_nat t) (NET_HTONS (complement (sum16 ?P (udp_hdr sp dp (of_nat t) 0 @ data)))) @ data"
    by (simp add: udp_segment_def Let_def complement_def t_def)
  ultimately show ?thesis
    by (simp add: words_sum_udp_hdr W_def)
qed

text \<open>
  C36. The UDP checksum is right only for some lengths: \<open>udp_send\<close> adds the protocol number and the
  length to its pseudo header with their bytes swapped, so a receiver that follows RFC 768 accepts a
  segment exactly when 257 divides 25 plus the number of data bytes, or when the checksum field comes out
  as zero, which stands for no checksum.
\<close>

theorem udp_checksum_wrong:
  assumes "length data \<le> 1492"
  shows "rfc_udp_ok src dst (udp_segment src dst sp dp data) \<longleftrightarrow>
    257 dvd 25 + length data \<or> take 2 (drop 6 (udp_segment src dst sp dp data)) = [0, 0]"
proof -
  let ?t = "8 + length data"
  let ?w = "256 * (?t mod 256) + ?t div 256"
  let ?W = "words_sum (udp_hdr sp dp (of_nat ?t) 0 @ data)"
  let ?A = "address_sum src dst"
  let ?seg = "udp_segment src dst sp dp data"
  have l: "length ?seg = ?t"
    by (simp add: udp_segment_def Let_def)
  have "ones_sum (?A + 17 + length ?seg + words_sum ?seg) = 65535 \<longleftrightarrow>
      ones_sum (?A + 17 + ?t + ?W + (65535 - ones_sum (?A + 4352 + ?w + ?W))) = 65535"
    unfolding l udp_segment_words [OF assms] by (simp only: add.assoc)
  also have "\<dots> \<longleftrightarrow> 65535 dvd int (?A + 17 + ?t + ?W) - int (?A + 4352 + ?w + ?W)"
    by (rule ones_sum_dvd) simp
  also have "int (?A + 17 + ?t + ?W) - int (?A + 4352 + ?w + ?W) = int (17 + ?t) - int (4352 + ?w)"
    by (simp only: of_nat_add)
  also have "65535 dvd int (17 + ?t) - int (4352 + ?w) \<longleftrightarrow> 257 dvd 17 + ?t"
    by (rule udp_length_condition [OF swap_mod])
  finally have "ones_sum (?A + 17 + length ?seg + words_sum ?seg) = 65535 \<longleftrightarrow> 257 dvd 25 + length data"
    by simp
  then show ?thesis
    unfolding rfc_udp_ok_def by blast
qed

theorem udp_checksum_wrong_witness:
  "\<not> rfc_udp_ok 0x0A000001 0x0A000002 (udp_segment 0x0A000001 0x0A000002 9 7 [1, 2]) \<and>
   rfc_udp_ok 0 0xFFFFFFFF (udp_segment 0 0xFFFFFFFF 68 67 (replicate 232 0))"
proof -
  have "take 2 (drop 6 (udp_segment 0x0A000001 0x0A000002 9 7 [1, 2])) \<noteq> [0, 0]"
    by code_simp
  then show ?thesis
    using udp_checksum_wrong [of "[1, 2]"] udp_checksum_wrong [of "replicate 232 0"] by simp
qed

section \<open>Sending\<close>

text \<open>What a send may change: frames are added to those given to the card.\<close>

definition sent :: "net \<Rightarrow> net \<Rightarrow> bool" where
  "sent s s' \<longleftrightarrow> (\<exists>fs. s' = s\<lparr>n_tx := n_tx s @ fs\<rparr>)"

lemma sent_refl [simp]: "sent s s"
  unfolding sent_def by (rule exI [of _ "[]"]) simp

lemma sent_netdev [simp]: "sent s (snd (netdev_send f s))"
  by (cases "g_netdev s") (simp_all add: netdev_send_def, auto simp: sent_def)

lemma sent_keeps:
  assumes "sent s s'"
  shows "net_wf s' = net_wf s" "n_ports s' = n_ports s" "n_cache s' = n_cache s" "g_net_ip s' = g_net_ip s" "n_dh s' = n_dh s"
    "g_net_mac s' = g_net_mac s" "dh_xid s' = dh_xid s" "g_netdev s' = g_netdev s"
  using assms unfolding sent_def net_wf_def by force+

lemma arp_lookup_mac:
  assumes "net_wf s" "arp_lookup x s = Some mac"
  shows "length mac = 6"
proof -
  obtain i where "i < ARP_CACHE_SIZE" "ac_used (n_cache s ! i)" "ac_mac (n_cache s ! i) = mac"
    using assms arp_lookup_iff by blast
  moreover have "\<forall>e \<in> set (n_cache s). ac_used e \<longrightarrow> length (ac_mac e) = 6" "length (n_cache s) = ARP_CACHE_SIZE"
    using assms(1) by (simp_all add: net_wf_def)
  ultimately show ?thesis
    by (metis nth_mem)
qed

lemma ether_send_sent:
  assumes "plen + 14 \<le> length frame"
  shows "\<exists>r s'. ether_send d t frame plen s = Some (r, s') \<and> sent s s'"
  using assms by (metis ether_send_def not_less prod.collapse sent_netdev)

lemma length_arp_bytes: "length (ar_sha a) = 6 \<Longrightarrow> length (ar_tha a) = 6 \<Longrightarrow> length (arp_bytes a) = 28"
  by (simp add: arp_bytes_def)

lemma arp_request_sent:
  assumes "net_wf s"
  shows "\<exists>r s'. arp_request x s = Some (r, s') \<and> sent s s'"
  unfolding arp_request_def Let_def using assms by (intro ether_send_sent) (simp add: net_wf_def length_arp_bytes)

lemma ipv4_send_frame:
  assumes "net_wf s" "length payload \<le> 1480"
    and "dst = 0xFFFFFFFF \<and> mac = net_bcast_mac \<or> dst \<noteq> 0xFFFFFFFF \<and> arp_lookup (next_hop dst s) s = Some mac"
  shows "ipv4_send dst p payload s = Some (netdev_send (eth_hdr mac (g_net_mac s) (NET_HTONS ETHERTYPE_IPV4) @
    hdr_fill (g_net_ip s) dst p (of_nat (length payload)) @ payload) s)"
proof -
  have "length (g_net_mac s) = 6"
    using assms(1) by (simp add: net_wf_def)
  moreover have "length mac = 6"
    using assms(3) arp_lookup_mac [OF assms(1)] by (auto simp: net_bcast_mac_def)
  ultimately show ?thesis
    using assms(2,3) by (elim disjE conjE) (simp_all add: ipv4_send_def Let_def ether_send_room)
qed

lemma ipv4_send_sent:
  assumes "net_wf s"
  shows "\<exists>r s'. ipv4_send dst p payload s = Some (r, s') \<and> sent s s'"
proof (cases "length payload \<le> 1480")
  case True
  consider "dst = 0xFFFFFFFF" | mac where "dst \<noteq> 0xFFFFFFFF" "arp_lookup (next_hop dst s) s = Some mac"
    | "dst \<noteq> 0xFFFFFFFF" "arp_lookup (next_hop dst s) s = None"
    by fastforce
  then show ?thesis
  proof cases
    case 3
    obtain r s' where "arp_request (next_hop dst s) s = Some (r, s')" "sent s s'"
      using arp_request_sent [OF assms] by blast
    then show ?thesis using True 3 by (simp add: ipv4_send_def)
  qed (use ipv4_send_frame [OF assms True] in \<open>metis prod.collapse sent_netdev\<close>)+
qed (simp add: ipv4_send_def)

section \<open>Delivery\<close>

lemma udp_send_fits:
  assumes "length data \<le> 1492"
  shows "udp_send dst dp sp data s =
    (let (sp, s1) = (if sp = 0 then (case net_tsc_ms s of (now, s') \<Rightarrow> (ucast (0xC000 XOR (ucast now :: u32)), s')) else (sp, s))
     in ipv4_send dst IP_PROTO_UDP (udp_segment (g_net_ip s1) dst sp dp data) s1)"
proof -
  have "unat (8 + of_nat (length data) :: u32) = 8 + length data"
    using assms by (simp add: unat_word_ariths unat_of_nat)
  then have "\<not> of_nat NET_MTU < (8 + of_nat (length data) :: u32)"
    using assms by (simp add: word_less_nat_alt)
  then show ?thesis
    using assms by (simp add: udp_send_def)
qed

lemma get16_eth_type:
  assumes "length d = 6" "length m = 6"
  shows "get16 (eth_hdr d m t @ body) 12 = t"
  using get16_put16 [of 12 "d @ m" t body] assms by (simp add: eth_hdr_def)

lemma ether_rx_ipv4:
  assumes "length d = 6" "length m = 6" "15 \<le> len"
  shows "ether_rx call (eth_hdr d m (NET_HTONS ETHERTYPE_IPV4) @ body) len s = ipv4_rx call body (len - 14) s"
  using assms by (simp add: ether_rx_def get16_eth_type length_eth_hdr)

lemma ether_rx_arp:
  assumes "length d = 6" "length m = 6" "15 \<le> len"
  shows "ether_rx call (eth_hdr d m (NET_HTONS ETHERTYPE_ARP) @ body) len s = arp_rx body (len - 14) s"
  using assms by (simp add: ether_rx_def get16_eth_type length_eth_hdr)

text \<open>
  The frame that carries a packet between hosts. It may arrive with padding at its end.
\<close>

definition ipv4_frame :: "u8 list \<Rightarrow> u32 \<Rightarrow> u8 \<Rightarrow> u8 list \<Rightarrow> net \<Rightarrow> u8 list" where
  "ipv4_frame mac dst p payload s = eth_hdr mac (g_net_mac s) (NET_HTONS ETHERTYPE_IPV4) @
     hdr_fill (g_net_ip s) dst p (of_nat (length payload)) @ payload"

lemma ipv4_frame_received:
  assumes "length mac = 6" "length (g_net_mac s) = 6" "length payload \<le> 1480"
    and "g_net_ip r = dst \<or> g_net_ip r = 0 \<and> dst = 0xFFFFFFFF" "34 + length payload \<le> len"
  shows "ether_rx call (ipv4_frame mac dst p payload s @ pad) len r =
    (if p = IP_PROTO_ICMP then icmp_rx (payload @ pad) (length payload) (g_net_ip s) r
     else if p = IP_PROTO_UDP then udp_rx call (payload @ pad) (length payload) (g_net_ip s) r else Some r)"
proof -
  have "ether_rx call (ipv4_frame mac dst p payload s @ pad) len r =
      ipv4_rx call (hdr_fill (g_net_ip s) dst p (of_nat (length payload)) @ payload @ pad) (len - 14) r"
    using assms ether_rx_ipv4 [of mac "g_net_mac s" len] by (simp add: ipv4_frame_def)
  also have "\<dots> = (if p = IP_PROTO_ICMP then icmp_rx (payload @ pad) (length payload) (g_net_ip s) r
     else if p = IP_PROTO_UDP then udp_rx call (payload @ pad) (length payload) (g_net_ip s) r else Some r)"
    by (rule ipv4_rx_hdr) (use assms in simp_all)
  finally show ?thesis .
qed

lemma length_ipv4_frame:
  "length mac = 6 \<Longrightarrow> length (g_net_mac s) = 6 \<Longrightarrow> length (ipv4_frame mac dst p payload s) = 34 + length payload"
  by (simp add: ipv4_frame_def length_eth_hdr)

lemma udp_hdr_fields:
  "get16 (udp_hdr a b t c @ xs) 0 = NET_HTONS a" "get16 (udp_hdr a b t c @ xs) 2 = NET_HTONS b"
  "get16 (udp_hdr a b t c @ xs) 4 = NET_HTONS t"
  by (simp_all add: udp_hdr_def get16_def put16_def word16_halves)

lemma udp_segment_received:
  assumes "length data \<le> 1472"
  shows "udp_rx call (udp_segment src dst sp dp data @ pad) (8 + length data) from s =
    (case List.find (\<lambda>e. up_port e = dp \<and> up_fn e \<noteq> 0) (n_ports s) of None \<Rightarrow> Some s
     | Some e \<Rightarrow> call (up_fn e) from sp (data @ pad) (length data) s)"
proof -
  let ?t = "8 + length data"
  have "?t < 65536"
    using assms by simp
  then have t: "unat (of_nat ?t :: u16) = ?t"
    by (simp only: unat_of_nat) simp
  have "unat (ucast (of_nat ?t :: u16) :: u32) = ?t"
    using t assms by (simp add: unsigned_ucast_eq take_bit_nat_eq_self_iff del: of_nat_add)
  then have l: "unat (ucast (of_nat ?t :: u16) - 8 :: u32) = length data"
    by (simp add: unat_sub word_le_nat_alt del: of_nat_add)
  obtain c where "udp_segment src dst sp dp data = udp_hdr sp dp (of_nat ?t) c @ data"
    by (simp add: udp_segment_def Let_def)
  then show ?thesis
    by (simp add: udp_rx_def Let_def udp_hdr_fields t l cong: option.case_cong del: of_nat_add)
qed

text \<open>
  C19. A datagram arrives: a datagram of at most 1472 bytes sent with \<open>udp_send\<close> to a host whose
  hardware address (or that of the gateway to it) is known leaves as one frame to that address, and a
  host that has the destination address and receives the frame, with any padding, runs the handler
  bound to the destination port on exactly the data (the handler is given the buffer at the data and the number of
  bytes sent), with the sender's address and port.
\<close>

theorem udp_delivery:
  assumes "net_wf s" "length data \<le> 1472" "sp \<noteq> 0" "dst \<noteq> 0xFFFFFFFF" "arp_lookup (next_hop dst s) s = Some mac"
    and "g_netdev s = Some send" "g_net_ip r = dst"
  shows "\<exists>f. udp_send dst dp sp data s = Some (send f, s\<lparr>n_tx := n_tx s @ [f]\<rparr>) \<and> take 6 f = mac \<and>
    (\<forall>pad len. length f \<le> len \<and> len \<le> length (f @ pad) \<longrightarrow> ether_rx call (f @ pad) len r =
       (case List.find (\<lambda>e. up_port e = dp \<and> up_fn e \<noteq> 0) (n_ports r) of None \<Rightarrow> Some r
        | Some e \<Rightarrow> call (up_fn e) (g_net_ip s) sp (data @ pad) (length data) r))"
proof -
  let ?seg = "udp_segment (g_net_ip s) dst sp dp data"
  let ?f = "ipv4_frame mac dst IP_PROTO_UDP ?seg s"
  have l: "length ?seg = 8 + length data"
    by (simp add: udp_segment_def Let_def)
  have m: "length mac = 6" "length (g_net_mac s) = 6"
    using arp_lookup_mac [OF assms(1,5)] assms(1) by (simp_all only: net_wf_def)
  have udp_fits: "length data \<le> 1492"
    using assms(2) by simp
  have "udp_send dst dp sp data s = Some (netdev_send ?f s)"
    unfolding udp_send_fits [OF udp_fits] ipv4_frame_def using assms(3) ipv4_send_frame [OF assms(1), of ?seg dst mac] assms(2,4,5)
    by (simp add: l)
  then have "udp_send dst dp sp data s = Some (send ?f, s\<lparr>n_tx := n_tx s @ [?f]\<rparr>)"
    using assms(6) by (simp add: netdev_send_def)
  moreover have "take 6 ?f = mac"
    using m by (simp add: ipv4_frame_def eth_hdr_def)
  moreover have "ether_rx call (?f @ pad) len r = (case List.find (\<lambda>e. up_port e = dp \<and> up_fn e \<noteq> 0) (n_ports r) of
      None \<Rightarrow> Some r | Some e \<Rightarrow> call (up_fn e) (g_net_ip s) sp (data @ pad) (length data) r)"
    if "length ?f \<le> len" "len \<le> length (?f @ pad)" for pad len
  proof -
    have "ether_rx call (?f @ pad) len r = udp_rx call (?seg @ pad) (8 + length data) (g_net_ip s) r"
      using that assms(2,7) ipv4_frame_received [OF m, of ?seg r dst len]
      by (simp add: l length_ipv4_frame [OF m])
    then show ?thesis
      unfolding udp_segment_received [OF assms(2)] .
  qed
  ultimately show ?thesis
    by blast
qed

section \<open>Address resolution\<close>

lemma arp_lookup_add:
  assumes "net_wf s" "length mac = 6"
  shows "arp_lookup y (arp_cache_add mac (NET_HTONL x) s) = (if y = x \<and> cache_room x s then Some mac else arp_lookup y s)"
proof (rule arp_cache_add_cases [OF assms(1), of x mac])
  fix i assume "cache_room x s" "slot_for i x s" "arp_cache_add mac (NET_HTONL x) s = cache_put i x mac s"
  then show ?thesis
    using assms arp_lookup_put by simp
qed simp

text \<open>A host with an empty cache, and one that knows one other host.\<close>

definition fresh_host :: "u8 list \<Rightarrow> u32 \<Rightarrow> net" where
  "fresh_host mac ip = \<lparr>g_net_mac = mac, g_net_ip = ip, g_net_mask = 0xFFFFFF00, g_net_gw = 0, g_netdev = Some (\<lambda>f. 0), n_tx = [],
     n_cache = replicate 16 \<lparr>ac_ip = 0, ac_mac = [], ac_stamp = 0, ac_used = False\<rparr>,
     n_ports = replicate 8 \<lparr>up_port = 0, up_fn = 0\<rparr>, n_clock = of_nat, n_reads = 0, n_dh = DH_OFF, dh_xid = 0,
     dh_offer_ip = 0, dh_srv_id = 0, dh_next_try_ms = 0, dh_started_ms = 0, ping_next_ms = 0, pings_sent = 0\<rparr>"

definition knowing_host :: "u8 list \<Rightarrow> u32 \<Rightarrow> u8 list \<Rightarrow> u32 \<Rightarrow> net" where
  "knowing_host mac ip mac' ip' = arp_cache_add mac' (NET_HTONL ip') (fresh_host mac ip)"

lemma fresh_host:
  "length mac = 6 \<Longrightarrow> net_wf (fresh_host mac ip)" "g_net_ip (fresh_host mac ip) = ip" "cache_room x (fresh_host mac ip)"
  "g_netdev (fresh_host mac ip) = Some (\<lambda>f. 0)"
  by (simp_all add: fresh_host_def net_wf_def cache_room_def)

lemma cache_add_frame:
  "g_netdev (arp_cache_add m w s) = g_netdev s" "g_net_ip (arp_cache_add m w s) = g_net_ip s"
  "g_net_mask (arp_cache_add m w s) = g_net_mask s" "g_net_mac (arp_cache_add m w s) = g_net_mac s"
  "n_ports (arp_cache_add m w s) = n_ports s" "n_tx (arp_cache_add m w s) = n_tx s" "n_dh (arp_cache_add m w s) = n_dh s"
  "dh_xid (arp_cache_add m w s) = dh_xid s"
  by (simp_all add: arp_cache_add_def net_tsc_ms_def split: option.split)

lemma knowing_host:
  assumes "length mac = 6" "length mac' = 6"
  shows "net_wf (knowing_host mac ip mac' ip')" "g_net_ip (knowing_host mac ip mac' ip') = ip"
    "arp_lookup ip' (knowing_host mac ip mac' ip') = Some mac'" "g_netdev (knowing_host mac ip mac' ip') = Some (\<lambda>f. 0)"
    "g_net_mask (knowing_host mac ip mac' ip') = 0xFFFFFF00"
  using assms by (simp_all add: knowing_host_def net_wf_cache_add arp_lookup_add fresh_host cache_add_frame)
    (simp add: fresh_host_def)

lemma replicate_8: "replicate 8 x = [x, x, x, x, x, x, x, x]"
  by (simp add: numeral_eq_Suc)

theorem udp_delivery_witness:
  "\<exists>f. udp_send 0x0A000002 7 9 [1, 2, 3] (knowing_host [2,0,0,0,0,1] 0x0A000001 [2,0,0,0,0,2] 0x0A000002) =
       Some (0, knowing_host [2,0,0,0,0,1] 0x0A000001 [2,0,0,0,0,2] 0x0A000002
         \<lparr>n_tx := n_tx (knowing_host [2,0,0,0,0,1] 0x0A000001 [2,0,0,0,0,2] 0x0A000002) @ [f]\<rparr>) \<and>
     ether_rx (\<lambda>fn src sp data len s. Some (s\<lparr>n_tx := [take len data]\<rparr>)) (f @ []) (length f)
       (snd (udp_bind 7 0x1000 (fresh_host [2,0,0,0,0,2] 0x0A000002))) =
     Some ((snd (udp_bind 7 0x1000 (fresh_host [2,0,0,0,0,2] 0x0A000002)))\<lparr>n_tx := [[1, 2, 3]]\<rparr>)"
proof -
  let ?s = "knowing_host [2,0,0,0,0,1] 0x0A000001 [2,0,0,0,0,2] 0x0A000002"
  let ?r = "snd (udp_bind 7 0x1000 (fresh_host [2,0,0,0,0,2] 0x0A000002))"
  let ?call = "\<lambda>fn src sp data len s. Some (s\<lparr>n_tx := [take len data]\<rparr>)"
  have k: "net_wf ?s" "arp_lookup 0x0A000002 ?s = Some [2,0,0,0,0,2]" "g_netdev ?s = Some (\<lambda>f. 0)" "g_net_ip ?s = 0x0A000001"
      "g_net_mask ?s = 0xFFFFFF00"
    by (simp_all add: knowing_host)
  then have n: "next_hop 0x0A000002 ?s = 0x0A000002"
    by (simp add: next_hop_def)
  have r: "g_net_ip ?r = 0x0A000002" "List.find (\<lambda>e. up_port e = 7 \<and> up_fn e \<noteq> 0) (n_ports ?r) = Some \<lparr>up_port = 7, up_fn = 0x1000\<rparr>"
    by (simp_all add: udp_bind_def fresh_host_def replicate_8)
  have l: "length [1, 2, 3 :: u8] \<le> 1472" "(9 :: u16) \<noteq> 0" "(0x0A000002 :: u32) \<noteq> 0xFFFFFFFF"
      "arp_lookup (next_hop 0x0A000002 ?s) ?s = Some [2,0,0,0,0,2]"
    using k(2) n by simp_all
  obtain f where f: "udp_send 0x0A000002 7 9 [1, 2, 3] ?s = Some (0, ?s\<lparr>n_tx := n_tx ?s @ [f]\<rparr>)"
    "\<forall>pad len. length f \<le> len \<and> len \<le> length (f @ pad) \<longrightarrow> ether_rx ?call (f @ pad) len ?r =
       (case List.find (\<lambda>e. up_port e = 7 \<and> up_fn e \<noteq> 0) (n_ports ?r) of None \<Rightarrow> Some ?r
        | Some e \<Rightarrow> ?call (up_fn e) (g_net_ip ?s) 9 ([1, 2, 3] @ pad) (length [1, 2, 3 :: u8]) ?r)"
    using udp_delivery [OF k(1) l k(3) r(1), of 7 ?call] by blast
  from f(2) [rule_format, of "length f" "[]"] have "ether_rx ?call (f @ []) (length f) ?r = Some (?r\<lparr>n_tx := [[1, 2, 3]]\<rparr>)"
    unfolding r(2) by simp
  with f(1) show ?thesis
    by blast
qed

text \<open>The answer to a request, as \<open>arp_rx\<close> writes it over the packet.\<close>

definition arp_answer :: "arp_pkt \<Rightarrow> net \<Rightarrow> arp_pkt" where
  "arp_answer a s = a\<lparr>ar_op := NET_HTONS 2, ar_tha := ar_sha a, ar_sha := g_net_mac s, ar_spa := ar_tpa a, ar_tpa := ar_spa a\<rparr>"

lemma arp_rx_answer:
  "arp_rx pkt len s =
     (if len < 28 then Some s
      else if length pkt < 28 then None
      else if NET_NTOHS (ar_ptype (read_arp pkt)) \<noteq> ETHERTYPE_IPV4 then Some s
      else let s1 = arp_cache_add (ar_sha (read_arp pkt)) (ar_spa (read_arp pkt)) s
           in if NET_NTOHS (ar_op (read_arp pkt)) = 1 \<and> NET_NTOHL (ar_tpa (read_arp pkt)) = g_net_ip s1
              then map_option snd (ether_send (ar_sha (read_arp pkt)) ETHERTYPE_ARP
                     (splice 0 (arp_bytes (arp_answer (read_arp pkt) s1)) pkt) 28 s1)
              else Some s1)"
  by (simp add: arp_rx_def arp_answer_def Let_def)

lemma read_arp_lengths: "28 \<le> length pkt \<Longrightarrow> length (ar_sha (read_arp pkt)) = 6 \<and> length (ar_tha (read_arp pkt)) = 6"
  by (simp add: read_arp_def)

lemma length_arp_answer:
  "length (ar_sha a) = 6 \<Longrightarrow> length (g_net_mac s) = 6 \<Longrightarrow> length (arp_bytes (arp_answer a s)) = 28"
  by (simp add: arp_answer_def length_arp_bytes)

lemma arp_rx_learns:
  assumes "net_wf s" "42 \<le> length pkt" "28 \<le> len" "ar_ptype (read_arp pkt) = NET_HTONS ETHERTYPE_IPV4"
  shows "\<exists>s'. arp_rx pkt len s = Some s' \<and> sent (arp_cache_add (ar_sha (read_arp pkt)) (ar_spa (read_arp pkt)) s) s'"
proof -
  let ?a = "read_arp pkt"
  let ?s = "arp_cache_add (ar_sha ?a) (ar_spa ?a) s"
  have "length (g_net_mac ?s) = 6" "length (ar_sha ?a) = 6"
    using assms(1,2) read_arp_lengths [of pkt] by (simp_all add: net_wf_def cache_add_frame)
  then have l: "28 + 14 \<le> length (splice 0 (arp_bytes (arp_answer ?a ?s)) pkt)"
    using assms(2) by (simp add: splice_def length_arp_answer)
  obtain r s' where "ether_send (ar_sha ?a) ETHERTYPE_ARP (splice 0 (arp_bytes (arp_answer ?a ?s)) pkt) 28 ?s = Some (r, s')"
      "sent ?s s'"
    using ether_send_sent [OF l] by blast
  then show ?thesis
    using assms(2-4) by (auto simp: arp_rx_answer Let_def)
qed

text \<open>
  Every ARP packet for IPv4, request or reply, teaches the receiver: afterwards the cache gives the
  sender's hardware address for the sender's address, if the cache had an entry or a free slot for it, and
  every other address is looked up as before. The tables stay well formed.
\<close>

theorem arp_learns:
  assumes "net_wf s" "42 \<le> length pkt" "28 \<le> len" "ar_ptype (read_arp pkt) = NET_HTONS ETHERTYPE_IPV4"
  shows "\<exists>s'. arp_rx pkt len s = Some s' \<and> net_wf s' \<and>
    (\<forall>y. arp_lookup y s' = (if y = NET_NTOHL (ar_spa (read_arp pkt)) \<and> cache_room y s
       then Some (ar_sha (read_arp pkt)) else arp_lookup y s))"
proof -
  let ?a = "read_arp pkt"
  obtain s' where s': "arp_rx pkt len s = Some s'" "sent (arp_cache_add (ar_sha ?a) (ar_spa ?a) s) s'"
    using arp_rx_learns [OF assms] by blast
  have l: "length (ar_sha ?a) = 6"
    using assms(2) read_arp_lengths by simp
  have e: "arp_cache_add (ar_sha ?a) (NET_HTONL (NET_NTOHL (ar_spa ?a))) s = arp_cache_add (ar_sha ?a) (ar_spa ?a) s"
    by simp
  have "arp_lookup y s' = arp_lookup y (arp_cache_add (ar_sha ?a) (ar_spa ?a) s)" for y
    unfolding arp_lookup_def sent_keeps(3) [OF s'(2)] ..
  then have "arp_lookup y s' = (if y = NET_NTOHL (ar_spa ?a) \<and> cache_room y s then Some (ar_sha ?a) else arp_lookup y s)" for y
    using arp_lookup_add [OF assms(1) l, of y "NET_NTOHL (ar_spa ?a)", unfolded e] by (cases "y = NET_NTOHL (ar_spa ?a)") simp_all
  moreover have "net_wf s'"
    using net_wf_cache_add [OF assms(1) l, of "NET_NTOHL (ar_spa ?a)"] unfolding e sent_keeps(1) [OF s'(2)] .
  ultimately show ?thesis
    using s'(1) by blast
qed

lemma six_bytes: "length xs = 6 \<Longrightarrow> \<exists>a b c d e f. xs = [a, b, c, d, e, f]"
  by (simp add: numeral_eq_Suc length_Suc_conv) blast

lemma read_arp_bytes:
  assumes "length (ar_sha a) = 6" "length (ar_tha a) = 6"
  shows "read_arp (arp_bytes a @ rest) = a"
proof -
  obtain x1 x2 x3 x4 x5 x6 y1 y2 y3 y4 y5 y6 where x: "ar_sha a = [x1, x2, x3, x4, x5, x6]" "ar_tha a = [y1, y2, y3, y4, y5, y6]"
    using six_bytes assms by metis
  show ?thesis
    by (rule arp_pkt.equality)
      (simp_all add: read_arp_def arp_bytes_def x get16_def get32_def put16_def put32_def word16_halves word32_bytes)
qed

theorem arp_learns_witness:
  "\<exists>s'. arp_rx (arp_bytes \<lparr>ar_htype = NET_HTONS 1, ar_ptype = NET_HTONS ETHERTYPE_IPV4, ar_hlen = 6, ar_plen = 4,
       ar_op = NET_HTONS 2, ar_sha = [2,0,0,0,0,2], ar_spa = NET_HTONL 0x0A000002, ar_tha = [2,0,0,0,0,1],
       ar_tpa = NET_HTONL 0x0A000001\<rparr> @ replicate 18 0) 46 (fresh_host [2,0,0,0,0,1] 0x0A000001) = Some s' \<and>
     arp_lookup 0x0A000002 s' = Some [2,0,0,0,0,2]"
  (is "\<exists>s'. arp_rx (arp_bytes ?a @ _) _ ?s = Some s' \<and> _")
proof -
  let ?p = "arp_bytes ?a @ replicate 18 0"
  have r: "read_arp ?p = ?a" "length ?p = 46"
    by (simp_all add: read_arp_bytes length_arp_bytes)
  have "net_wf ?s" "42 \<le> length ?p" "28 \<le> (46 :: nat)" "ar_ptype (read_arp ?p) = NET_HTONS ETHERTYPE_IPV4"
    unfolding r by (simp_all add: fresh_host)
  from arp_learns [OF this] obtain s' where "arp_rx ?p 46 ?s = Some s'"
    "\<forall>y. arp_lookup y s' = (if y = NET_NTOHL (ar_spa ?a) \<and> cache_room y ?s then Some (ar_sha ?a) else arp_lookup y ?s)"
    unfolding r by blast
  then show ?thesis
    by (simp add: fresh_host)
qed

text \<open>The frame that answers a request, and what is left in it of the answer.\<close>

lemma arp_answer_frame:
  assumes "net_wf b" "42 \<le> length pkt" "28 \<le> len" "ar_ptype (read_arp pkt) = NET_HTONS ETHERTYPE_IPV4"
    and "ar_op (read_arp pkt) = NET_HTONS 1" "ar_tpa (read_arp pkt) = NET_HTONL (g_net_ip b)"
  defines "b1 \<equiv> arp_cache_add (ar_sha (read_arp pkt)) (ar_spa (read_arp pkt)) b"
  shows "arp_rx pkt len b = Some (snd (netdev_send
    (eth_hdr (ar_sha (read_arp pkt)) (g_net_mac b) (NET_HTONS ETHERTYPE_ARP) @
     drop 14 (arp_bytes (arp_answer (read_arp pkt) b)) @ take 14 (drop 28 pkt)) b1))"
proof -
  let ?a = "read_arp pkt"
  have l: "length (ar_sha ?a) = 6" "length (g_net_mac b) = 6"
    using assms(1,2) read_arp_lengths by (simp_all add: net_wf_def)
  have b1: "g_net_mac b1 = g_net_mac b" "g_net_ip b1 = g_net_ip b"
    by (simp_all add: b1_def cache_add_frame)
  have an: "length (arp_bytes (arp_answer ?a b)) = 28"
    using l by (rule length_arp_answer)
  have "arp_answer ?a b1 = arp_answer ?a b"
    by (simp add: arp_answer_def b1)
  moreover have "ether_send (ar_sha ?a) ETHERTYPE_ARP (splice 0 (arp_bytes (arp_answer ?a b)) pkt) 28 b1 =
      Some (netdev_send (eth_hdr (ar_sha ?a) (g_net_mac b) (NET_HTONS ETHERTYPE_ARP) @
        drop 14 (arp_bytes (arp_answer ?a b)) @ take 14 (drop 28 pkt)) b1)"
    using assms(2) by (simp add: ether_send_def splice_def an b1 length_eth_hdr [OF l])
  ultimately show ?thesis
    using assms(2-6) b1(2) by (simp add: arp_rx_answer Let_def flip: b1_def)
qed

lemma arp_answer_tail:
  assumes "length (ar_sha a) = 6" "length (g_net_mac s) = 6"
  shows "drop 14 (arp_bytes (arp_answer a s)) = put32 (ar_tpa a) @ ar_sha a @ put32 (ar_spa a)"
  using assms by (simp add: arp_bytes_def arp_answer_def put16_def)

lemma get16_put32_high: "get16 (put32 (NET_HTONL x) @ rest) 2 = NET_HTONS (ucast x)"
proof -
  have "get16 (put32 (NET_HTONL x) @ rest) 2 = get16 ([0, 0] @ put16 (NET_HTONS (ucast x)) @ rest) 2"
    by (simp add: get16_def HTONL_bytes HTONS_bytes be32_def) (rule bit_word_eqI, auto simp: bit_simps)
  then show ?thesis
    using get16_put16 [of 2 "[0, 0]" "NET_HTONS (ucast x)" rest] by simp
qed

lemma arp_rx_other:
  assumes "28 \<le> length pkt" "get16 pkt 2 \<noteq> NET_HTONS ETHERTYPE_IPV4"
  shows "arp_rx pkt len s = Some s"
proof -
  have "NET_NTOHS (get16 pkt 2) \<noteq> ETHERTYPE_IPV4"
    using assms(2) by (metis HTONS_HTONS)
  then show ?thesis
    using assms(1) by (simp add: arp_rx_def Let_def read_arp_def)
qed

text \<open>
  C32. Address resolution fails: the answer is written over the received packet, which has no room before
  it, and \<open>ether_send\<close> then puts the ethernet header over the first half of the answer. The host that
  asked receives a frame whose protocol field is the low half of the other's address, and ignores it (unless
  that half is 0x0800): its cache is unchanged whatever its state.
\<close>

theorem arp_reply_lost:
  assumes "net_wf a" "net_wf b" "g_netdev a = Some send" "g_netdev b = Some send'" "ucast (g_net_ip b) \<noteq> ETHERTYPE_IPV4"
    and "14 \<le> length fill"
  shows "\<exists>q rep b'. arp_request (g_net_ip b) a = Some (send q, a\<lparr>n_tx := n_tx a @ [q]\<rparr>) \<and> length q = 42 \<and>
    ether_rx call (q @ fill) 42 b = Some b' \<and> n_tx b' = n_tx b @ [rep] \<and> length rep = 42 \<and> take 6 rep = g_net_mac a \<and>
    (\<forall>a' pad len. 42 \<le> len \<and> len \<le> 42 + length pad \<longrightarrow> ether_rx call (rep @ pad) len a' = Some a')"
proof -
  let ?r = "\<lparr>ar_htype = NET_HTONS 1, ar_ptype = NET_HTONS ETHERTYPE_IPV4, ar_hlen = 6, ar_plen = 4, ar_op = NET_HTONS 1,
    ar_sha = g_net_mac a, ar_spa = NET_HTONL (g_net_ip a), ar_tha = replicate 6 0, ar_tpa = NET_HTONL (g_net_ip b)\<rparr>"
  let ?q = "eth_hdr net_bcast_mac (g_net_mac a) (NET_HTONS ETHERTYPE_ARP) @ arp_bytes ?r"
  let ?pkt = "arp_bytes ?r @ fill"
  let ?t = "take 14 fill"
  let ?rep = "eth_hdr (g_net_mac a) (g_net_mac b) (NET_HTONS ETHERTYPE_ARP) @
    put32 (NET_HTONL (g_net_ip b)) @ g_net_mac a @ put32 (NET_HTONL (g_net_ip a)) @ ?t"
  have m: "length (g_net_mac a) = 6" "length (g_net_mac b) = 6" "length net_bcast_mac = 6"
    using assms(1,2) by (simp_all add: net_wf_def net_bcast_mac_def)
  have lr: "length (arp_bytes ?r) = 28"
    by (simp add: length_arp_bytes m)
  have "arp_request (g_net_ip b) a = Some (netdev_send ?q a)"
    unfolding arp_request_def Let_def by (rule ether_send_room) (simp_all add: m lr)
  then have "arp_request (g_net_ip b) a = Some (send ?q, a\<lparr>n_tx := n_tx a @ [?q]\<rparr>)"
    using assms(3) by (simp add: netdev_send_def)
  moreover have p: "read_arp ?pkt = ?r"
    by (rule read_arp_bytes) (simp_all add: m)
  let ?b1 = "arp_cache_add (g_net_mac a) (NET_HTONL (g_net_ip a)) b"
  have "arp_rx ?pkt 28 b = Some (snd (netdev_send ?rep ?b1))"
    using arp_answer_frame [OF assms(2), of ?pkt 28] assms(6) arp_answer_tail [of ?r b] m by (simp add: p lr)
  then have "ether_rx call (?q @ fill) 42 b = Some (?b1\<lparr>n_tx := n_tx b @ [?rep]\<rparr>)"
    using ether_rx_arp [OF m(3,1), of 42 call ?pkt] assms(4) by (simp add: lr netdev_send_def cache_add_frame)
  moreover have "ether_rx call (?rep @ pad) len a' = Some a'" if "42 \<le> len" "len \<le> 42 + length pad" for a' pad len
  proof -
    have "NET_HTONS (ucast (g_net_ip b)) \<noteq> NET_HTONS ETHERTYPE_IPV4"
      using assms(5) HTONS_HTONS by metis
    then show ?thesis
      using that assms(6) ether_rx_arp [OF m(1,2), of len] by (simp add: arp_rx_other get16_put32_high m)
  qed
  ultimately show ?thesis
    by (intro exI [of _ ?q] exI [of _ ?rep] exI [of _ "?b1\<lparr>n_tx := n_tx b @ [?rep]\<rparr>"])
      (use m assms(6) in \<open>simp add: lr length_eth_hdr eth_hdr_def\<close>)
qed

theorem arp_reply_lost_witness:
  "\<exists>q rep b'. ether_rx (\<lambda>fn src sp data len s. None) (q @ replicate 18 0) 42 (fresh_host [2,0,0,0,0,2] 0x0A000002) = Some b' \<and>
     arp_request 0x0A000002 (fresh_host [2,0,0,0,0,1] 0x0A000001) =
       Some (0, fresh_host [2,0,0,0,0,1] 0x0A000001\<lparr>n_tx := [q]\<rparr>) \<and> n_tx b' = [rep] \<and>
     ether_rx (\<lambda>fn src sp data len s. None) (rep @ []) 42 (fresh_host [2,0,0,0,0,1] 0x0A000001) =
       Some (fresh_host [2,0,0,0,0,1] 0x0A000001)"
proof -
  let ?a = "fresh_host [2,0,0,0,0,1] 0x0A000001"
  let ?b = "fresh_host [2,0,0,0,0,2] 0x0A000002"
  let ?call = "\<lambda>fn src sp data len s. None"
  have h: "net_wf ?a" "net_wf ?b" "g_netdev ?a = Some (\<lambda>f. 0)" "g_netdev ?b = Some (\<lambda>f. 0)"
      "ucast (g_net_ip ?b) \<noteq> ETHERTYPE_IPV4" "14 \<le> length (replicate 18 (0 :: u8))"
    by (simp_all add: fresh_host)
  have n: "g_net_ip ?b = 0x0A000002" "n_tx ?a = []" "n_tx ?b = []"
    by (simp_all add: fresh_host_def)
  obtain q rep b' where q: "arp_request 0x0A000002 ?a = Some (0, ?a\<lparr>n_tx := [q]\<rparr>)"
      "ether_rx ?call (q @ replicate 18 0) 42 ?b = Some b'" "n_tx b' = [rep]"
      "\<forall>a' pad len. 42 \<le> len \<and> len \<le> 42 + length pad \<longrightarrow> ether_rx ?call (rep @ pad) len a' = Some a'"
    using arp_reply_lost [OF h, of ?call] unfolding n append_Nil by blast
  from q(4) [rule_format, of 42 "[]" ?a] have "ether_rx ?call (rep @ []) 42 ?a = Some ?a"
    by simp
  with q(1-3) show ?thesis
    by blast
qed

section \<open>Checksums and echo\<close>

text \<open>
  C37. \<open>ip_checksum\<close> is the Internet checksum of RFC 1071 for every buffer of up to 64 KB: the ones'
  complement of the ones' complement sum of the big-endian words, stored in network order; and writing it
  into a field that held zero makes the whole packet check to zero, which is what \<open>ipv4_rx\<close> tests.
\<close>

theorem ip_checksum_rfc1071:
  assumes "length xs \<le> 65536" "even (length a)" "length a + length b + 2 \<le> 65536"
  shows "unat (NET_NTOHS (ip_checksum xs)) = 65535 - ones_sum (words_sum xs) \<and>
    ip_checksum (a @ put16 (ip_checksum (a @ put16 0 @ b)) @ b) = 0"
  using checksum_value [OF assms(1)] checksum_inserted [OF assms(2,3)] by (simp add: ip_checksum_complement)

theorem ip_checksum_rfc1071_witness:
  "unat (NET_NTOHS (ip_checksum [0x45, 0, 0, 0x54, 1])) = 65535 - ones_sum (words_sum [0x45, 0, 0, 0x54, 1]) \<and>
   ip_checksum ([8, 0] @ put16 (ip_checksum ([8, 0] @ put16 0 @ [0xBE, 0xEF, 0, 1])) @ [0xBE, 0xEF, 0, 1]) = 0"
  by (rule ip_checksum_rfc1071) simp_all

text \<open>An echo message, with its checksum.\<close>

definition echo_msg :: "u8 \<Rightarrow> u8 \<Rightarrow> u8 list \<Rightarrow> u8 list" where
  "echo_msg t c rest = [t, c] @ put16 (ip_checksum ([t, c] @ put16 0 @ rest)) @ rest"

lemma echo_msg_checksum: "length rest \<le> 65000 \<Longrightarrow> ip_checksum (echo_msg t c rest) = 0"
  unfolding echo_msg_def by (rule checksum_inserted) simp_all

lemma length_echo_msg [simp]: "length (echo_msg t c rest) = 4 + length rest"
  by (simp add: echo_msg_def)

lemma bind_snd: "Option.bind p (\<lambda>(_, s1). Some s1) = map_option snd p"
  by (cases p) auto

lemma icmp_rx_echo:
  assumes "4 \<le> length rest" "length rest \<le> 1496"
  shows "icmp_rx ((8 # c # x # y # rest) @ pad) (4 + length rest) src s =
    map_option snd (ipv4_send src IP_PROTO_ICMP (echo_msg 0 c rest) s)"
proof -
  have "take (length (8 # c # x # y # rest)) ((8 # c # x # y # rest) @ pad) = 8 # c # x # y # rest"
    by (simp only: take_append) simp
  then have b: "read_bytes ((8 # c # x # y # rest) @ pad) 0 (4 + length rest) = Some (8 # c # x # y # rest)"
    by (simp add: numeral_eq_Suc)
  show ?thesis
    unfolding icmp_rx_def b using assms by (simp add: Let_def echo_msg_def splice_def put16_def bind_snd)
qed

lemma icmp_echo_request_msg:
  "icmp_echo_request dst i n s = ipv4_send dst IP_PROTO_ICMP
     (echo_msg 8 0 (put16 (NET_HTONS i) @ put16 (NET_HTONS n) @ replicate 8 0x78)) s"
  by (simp add: icmp_echo_request_def echo_msg_def splice_def put16_def Let_def)

lemma ipv4_frame_bytes:
  assumes "length mac = 6" "length (g_net_mac s) = 6"
  shows "take 6 (ipv4_frame mac dst p payload s) = mac" "ipv4_frame mac dst p payload s ! 23 = p"
    "take 4 (drop 26 (ipv4_frame mac dst p payload s)) = be32 (g_net_ip s)"
    "take 4 (drop 30 (ipv4_frame mac dst p payload s)) = be32 dst" "drop 34 (ipv4_frame mac dst p payload s) = payload"
  using assms by (simp_all add: ipv4_frame_def eth_hdr_def hdr_fill_def ipv4_hdr_def put16_def nth_append HTONL_bytes)



section \<open>Receiving is safe\<close>

text \<open>
  The contract between the stack and the handlers bound to ports: run on a well-formed state, a handler
  of the set returns with the state well formed and only handlers of the set bound.
\<close>

definition ports_in :: "u64 set \<Rightarrow> net \<Rightarrow> bool" where
  "ports_in H s \<longleftrightarrow> (\<forall>e \<in> set (n_ports s). up_fn e \<noteq> 0 \<longrightarrow> up_fn e \<in> H)"

definition net_ok :: "u64 set \<Rightarrow> net \<Rightarrow> bool" where
  "net_ok H s \<longleftrightarrow> net_wf s \<and> ports_in H s"

lemma net_ok_sent: "sent s s' \<Longrightarrow> net_ok H s' = net_ok H s"
  by (simp add: net_ok_def ports_in_def sent_keeps)

lemma unat_u16_minus:
  assumes "k \<le> unat (w :: u16)" "k < 65536"
  shows "unat (ucast w - of_nat k :: u32) = unat w - k"
proof -
  have "unat (ucast w :: u32) = unat w"
    using unsigned_less [of w, where ?'a = nat] by (simp add: unsigned_ucast_eq take_bit_nat_eq_self_iff)
  moreover have "unat (of_nat k :: u32) = k"
    using assms(2) by (simp add: unat_of_nat)
  ultimately show ?thesis
    using assms(1) by (simp add: unat_sub word_le_nat_alt)
qed

locale udp_handlers =
  fixes call :: udp_call and H :: "u64 set"
  assumes handled: "net_ok H s \<Longrightarrow> fn \<in> H \<Longrightarrow> len \<le> length data \<Longrightarrow> \<exists>s'. call fn src sp data len s = Some s' \<and> net_ok H s'"
begin

lemma udp_rx_safe:
  assumes "net_ok H s" "len \<le> length pkt"
  shows "\<exists>s'. udp_rx call pkt len src s = Some s' \<and> net_ok H s'"
proof (cases "len < 8")
  case False
  let ?ul = "NET_NTOHS (get16 pkt 4)"
  show ?thesis
  proof (cases "List.find (\<lambda>e. up_port e = NET_NTOHS (get16 pkt 2) \<and> up_fn e \<noteq> 0) (n_ports s)")
    case None
    then show ?thesis
      using assms False by (simp add: udp_rx_def)
  next
    case (Some e)
    then have "e \<in> set (n_ports s)" "up_fn e \<noteq> 0"
      by (auto simp: find_Some_iff)
    then have e: "up_fn e \<in> H"
      using assms by (simp add: net_ok_def ports_in_def)
    show ?thesis
    proof (cases "unat ?ul < 8 \<or> len < unat ?ul")
      case True
      then show ?thesis
        using assms False by (simp add: udp_rx_def)
    next
      case fits: False
      then have "unat (ucast ?ul - 8 :: u32) \<le> length (drop 8 pkt)"
        using unat_u16_minus [of 8 ?ul] assms(2) by auto
      from handled [OF assms(1) e this] show ?thesis
        using assms False fits Some by (simp add: udp_rx_def)
    qed
  qed
qed (use assms in \<open>simp add: udp_rx_def\<close>)

lemma read_first: "0 < n \<Longrightarrow> n \<le> length bs \<Longrightarrow> read8 bs 0 = Some (bs ! 0)"
  by (intro read_Some) linarith

lemma icmp_rx_safe:
  assumes "net_ok H s" "len \<le> length pkt" "len \<le> NET_MTU"
  shows "\<exists>s'. icmp_rx pkt len src s = Some s' \<and> net_ok H s'"
proof -
  have "net_wf s"
    using assms(1) by (simp add: net_ok_def)
  then have "\<exists>s'. map_option snd (ipv4_send src IP_PROTO_ICMP p s) = Some s' \<and> net_ok H s'" for p
    using ipv4_send_sent [of s src IP_PROTO_ICMP p] net_ok_sent assms(1) by fastforce
  moreover have "read8 pkt 0 = Some (pkt ! 0)" if "\<not> len < 8"
    using that assms(2) by (intro read_first [of len]) simp_all
  ultimately show ?thesis
    using assms by (cases "len < 8") (simp_all add: icmp_rx_def Let_def bind_snd)
qed

lemma ipv4_rx_safe:
  assumes "net_ok H s" "len \<le> length pkt" "len \<le> 1504"
  shows "\<exists>s'. ipv4_rx call pkt len s = Some s' \<and> net_ok H s'"
proof (cases "len < 20")
  case False
  let ?tot = "NET_NTOHS (get16 pkt 2)"
  have v: "read8 pkt 0 = Some (pkt ! 0)"
    using False assms(2) by (intro read_first [of len]) simp_all
  show ?thesis
  proof (cases "unat ?tot < 20 \<or> len < unat ?tot")
    case True
    then show ?thesis
      using assms False by (simp add: ipv4_rx_def v)
  next
    case fits: False
    then have "unat (ucast ?tot - 20 :: u32) \<le> length (drop 20 pkt)" "unat (ucast ?tot - 20 :: u32) \<le> NET_MTU"
      using unat_u16_minus [of 20 ?tot] assms by auto
    note icmp_rx_safe [OF assms(1) this] udp_rx_safe [OF assms(1) this(1)]
    then show ?thesis
      using assms False by (simp add: ipv4_rx_def Let_def v)
  qed
qed (use assms in \<open>simp add: ipv4_rx_def\<close>)

lemma arp_rx_safe:
  assumes "net_ok H s" "42 \<le> length pkt"
  shows "\<exists>s'. arp_rx pkt len s = Some s' \<and> net_ok H s'"
proof (cases "28 \<le> len \<and> ar_ptype (read_arp pkt) = NET_HTONS ETHERTYPE_IPV4")
  case True
  let ?a = "read_arp pkt"
  let ?s = "arp_cache_add (ar_sha ?a) (ar_spa ?a) s"
  have wf: "net_wf s" "ports_in H s"
    using assms(1) by (simp_all add: net_ok_def)
  obtain s' where s': "arp_rx pkt len s = Some s'" "sent ?s s'"
    using arp_rx_learns [OF wf(1) assms(2)] True by blast
  have "length (ar_sha ?a) = 6"
    using assms(2) read_arp_lengths by simp
  then have "net_ok H ?s"
    using wf net_wf_cache_add [of s "ar_sha ?a" "NET_NTOHL (ar_spa ?a)"]
    by (simp add: net_ok_def ports_in_def cache_add_frame)
  then show ?thesis
    using s' net_ok_sent by blast
next
  case False
  then have "len < 28 \<or> NET_NTOHS (ar_ptype (read_arp pkt)) \<noteq> ETHERTYPE_IPV4"
    by (metis HTONS_HTONS not_less)
  then have "arp_rx pkt len s = Some s"
    using assms(2) by (elim disjE) (simp_all add: arp_rx_def Let_def)
  then show ?thesis
    using assms(1) by blast
qed

lemma ether_rx_safe:
  assumes "net_ok H s" "len \<le> length frame" "len \<le> NET_FRAMESZ" "take 2 (drop 12 frame) = [8, 6] \<longrightarrow> 56 \<le> length frame"
  shows "\<exists>s'. ether_rx call frame len s = Some s' \<and> net_ok H s'"
proof (cases "len < 15")
  case False
  have "take 2 (drop 12 frame) = [8, 6]" if "NET_NTOHS (get16 frame 12) = ETHERTYPE_ARP"
  proof -
    have "get16 frame 12 = NET_HTONS ETHERTYPE_ARP"
      using arg_cong [OF that, of NET_HTONS] by simp
    then have "put16 (get16 frame 12) = [8, 6]"
      by (simp add: HTONS_bytes)
    then show ?thesis
      using put16_get16 [of 12 frame] False assms(2) by simp
  qed
  then show ?thesis
    using assms False arp_rx_safe [OF assms(1), of "drop 14 frame" "len - 14"] ipv4_rx_safe [OF assms(1), of "len - 14" "drop 14 frame"]
    by (cases "NET_NTOHS (get16 frame 12) = ETHERTYPE_ARP") (simp_all add: ether_rx_def)
qed (use assms in \<open>simp add: ether_rx_def\<close>)

end

section \<open>Addresses as text\<close>

lemma length_octet_str: "length (octet_str v) \<le> 3"
  by (simp add: octet_str_def)

lemma net_ipv4_str_fits: "length (net_ipv4_str ip) + 1 \<le> 16"
proof -
  have "length (net_ipv4_str ip) = length (octet_str (ucast (drop_bit 24 ip))) + length (octet_str (ucast (drop_bit 16 ip))) +
      length (octet_str (ucast (drop_bit 8 ip))) + length (octet_str (ucast ip)) + 3"
    by (simp add: net_ipv4_str_def)
  then show ?thesis
    using length_octet_str [of "ucast (drop_bit 24 ip)"] length_octet_str [of "ucast (drop_bit 16 ip)"]
      length_octet_str [of "ucast (drop_bit 8 ip)"] length_octet_str [of "ucast ip"] by linarith
qed

section \<open>Ports\<close>

lemma port_slot_bound:
  "port_slot port i slot es = Inl j \<Longrightarrow> i \<le> j \<and> j < i + length es \<and> up_port (es ! (j - i)) = port"
proof (induction es arbitrary: i slot)
  case (Cons e es)
  show ?case
  proof (cases "up_port e = port")
    case False
    then have "port_slot port (i + 1) (if up_port e = 0 \<and> slot = None then Some i else slot) es = Inl j"
      using Cons.prems by simp
    from Cons.IH [OF this] show ?thesis
      by (simp add: nth_Cons')
  qed (use Cons.prems in auto)
qed simp

text \<open>Binding no function keeps the slot: its port stays in the table, so the slot is not free again.\<close>

lemma udp_unbind_keeps_slot: "map up_port (n_ports (snd (udp_bind port 0 s))) = map up_port (n_ports s)"
  by (auto simp: udp_bind_def map_update list_update_same_conv split: sum.split option.split
      dest: port_slot_bound)

end
