(* ===== verification/Net_Dhcp.thy ===== *)
theory Net_Dhcp
  imports Net_Proto
begin

text \<open>
  The DHCP client of iokit/IONetFamily (dhcp.c) and the entry points of the family (ionet.c), with the
  receive loop of the card driver (e1000_poll). A message is the list of its bytes.
\<close>

section \<open>Messages\<close>

abbreviation DHCPDISCOVER :: u8 where "DHCPDISCOVER \<equiv> 1"
abbreviation DHCPOFFER :: u8 where "DHCPOFFER \<equiv> 2"
abbreviation DHCPREQUEST :: u8 where "DHCPREQUEST \<equiv> 3"
abbreviation DHCPACK :: u8 where "DHCPACK \<equiv> 5"

abbreviation OPT_SUBNET :: u8 where "OPT_SUBNET \<equiv> 1"
abbreviation OPT_ROUTER :: u8 where "OPT_ROUTER \<equiv> 3"
abbreviation OPT_REQ_IP :: u8 where "OPT_REQ_IP \<equiv> 50"
abbreviation OPT_MSGTYPE :: u8 where "OPT_MSGTYPE \<equiv> 53"
abbreviation OPT_SRV_ID :: u8 where "OPT_SRV_ID \<equiv> 54"
abbreviation OPT_END :: u8 where "OPT_END \<equiv> 255"

abbreviation DH_HDRSZ :: nat where "DH_HDRSZ \<equiv> 240"
abbreviation DHCP_COOKIE :: u32 where "DHCP_COOKIE \<equiv> 0x63825363"

definition opt_put :: "u8 \<Rightarrow> u8 list \<Rightarrow> u8 list" where
  "opt_put code val = [code, of_nat (length val)] @ val"

definition dhcp_hdr :: "net \<Rightarrow> u8 list" where
  "dhcp_hdr s = [1, 1, 6, 0] @ put32 (NET_HTONL (dh_xid s)) @ put16 0 @ put16 (NET_HTONS 0x8000) @ replicate 16 0 @
     g_net_mac s @ replicate 202 0 @ put32 (NET_HTONL DHCP_COOKIE)"

definition dhcp_options :: "u8 \<Rightarrow> u32 \<Rightarrow> u32 \<Rightarrow> u8 list" where
  "dhcp_options msgtype req_ip_host srv_host =
     opt_put OPT_MSGTYPE [msgtype] @
     (if req_ip_host \<noteq> 0 then opt_put OPT_REQ_IP (put32 (NET_HTONL req_ip_host)) else []) @
     (if srv_host \<noteq> 0 then opt_put OPT_SRV_ID (put32 (NET_HTONL srv_host)) else []) @ [OPT_END]"

definition dhcp_send :: "u8 \<Rightarrow> u32 \<Rightarrow> u32 \<Rightarrow> net \<Rightarrow> (int \<times> net) option" where
  "dhcp_send msgtype req_ip_host srv_host s =
     udp_send 0xFFFFFFFF 67 68 (dhcp_hdr s @ dhcp_options msgtype req_ip_host srv_host) s"

text \<open>The results of \<open>opt_parse\<close>.\<close>

record dh_opts =
  o_msgtype :: u8
  o_subnet :: u32
  o_router :: u32
  o_srv :: u32

abbreviation no_opts :: dh_opts where
  "no_opts \<equiv> \<lparr>o_msgtype = 0, o_subnet = 0, o_router = 0, o_srv = 0\<rparr>"

text \<open>
  One option of \<open>opt_parse\<close>: its code, its length and the position of its value. A read behind the buffer has the
  result \<open>None\<close>.
\<close>

definition opt_apply :: "u8 \<Rightarrow> u8 \<Rightarrow> u8 list \<Rightarrow> nat \<Rightarrow> dh_opts \<Rightarrow> dh_opts option" where
  "opt_apply code l data v r =
     (if code = OPT_MSGTYPE then if 1 \<le> l then map_option (\<lambda>x. r\<lparr>o_msgtype := x\<rparr>) (read8 data v) else Some r
      else if code = OPT_SUBNET then if l = 4 then map_option (\<lambda>x. r\<lparr>o_subnet := NET_NTOHL x\<rparr>) (read32 data v) else Some r
      else if code = OPT_ROUTER then if l = 4 then map_option (\<lambda>x. r\<lparr>o_router := NET_NTOHL x\<rparr>) (read32 data v) else Some r
      else if code = OPT_SRV_ID then if l = 4 then map_option (\<lambda>x. r\<lparr>o_srv := NET_NTOHL x\<rparr>) (read32 data v) else Some r
      else Some r)"

text \<open>
  The loop of \<open>opt_parse\<close>. The length comes from a 16-bit field (\<open>udp_rx\<close>), so the 32-bit sums of the source do
  not wrap.
\<close>

function opt_parse :: "u8 list \<Rightarrow> nat \<Rightarrow> nat \<Rightarrow> dh_opts \<Rightarrow> dh_opts option" where
  "opt_parse data len i r =
     (if len \<le> i then Some r
      else case read8 data i of None \<Rightarrow> None
      | Some code \<Rightarrow>
          if code = 0 then opt_parse data len (i + 1) r
          else if code = OPT_END then Some r
          else if len \<le> i + 1 then Some r
          else (case read8 data (i + 1) of None \<Rightarrow> None
          | Some l \<Rightarrow>
              if len < i + 2 + unat l then Some r
              else (case opt_apply code l data (i + 2) r of None \<Rightarrow> None
                   | Some r' \<Rightarrow> opt_parse data len (i + (2 + unat l)) r')))"
  by pat_completeness auto
termination
  by (relation "measure (\<lambda>(data, len, i, r). len - i)") auto

declare opt_parse.simps [simp del]

section \<open>The client\<close>

text \<open>The address of \<open>dhcp_rx\<close>, the one handler of the kernel.\<close>

definition DHCP_RX :: u64 where
  "DHCP_RX = 1"

definition dhcp_init :: "net \<Rightarrow> net" where
  "dhcp_init s = snd (udp_bind 68 DHCP_RX s)"

definition dhcp_start :: "net \<Rightarrow> net" where
  "dhcp_start s =
     (if n_dh s \<noteq> DH_OFF then s
      else case net_tsc_ms (s\<lparr>n_dh := DH_DISCOVERING\<rparr>) of (t1, s1) \<Rightarrow>
           (case net_tsc_ms (s1\<lparr>dh_xid := ucast t1\<rparr>) of (t2, s2) \<Rightarrow> s2\<lparr>dh_next_try_ms := t2, dh_started_ms := t2\<rparr>))"

definition dhcp_done :: "net \<Rightarrow> bool" where
  "dhcp_done s \<longleftrightarrow> n_dh s = DH_BOUND"

definition dhcp_rx :: "u8 list \<Rightarrow> nat \<Rightarrow> net \<Rightarrow> net option" where
  "dhcp_rx data len s =
     (if len < DH_HDRSZ + 3 then Some s
      else do {
        cookie \<leftarrow> read32 data 236;
        if cookie \<noteq> NET_HTONL DHCP_COOKIE then Some s
        else do {
          xid \<leftarrow> read32 data 4;
          if xid \<noteq> NET_HTONL (dh_xid s) then Some s
          else do {
            yiaddr \<leftarrow> map_option NET_NTOHL (read32 data 16);
            r \<leftarrow> opt_parse data len DH_HDRSZ no_opts;
            if n_dh s = DH_DISCOVERING \<and> o_msgtype r = DHCPOFFER
            then map_option (\<lambda>(_, s1). case net_tsc_ms (s1\<lparr>n_dh := DH_REQUESTING\<rparr>) of (now, s2) \<Rightarrow> s2\<lparr>dh_next_try_ms := now + 4000\<rparr>)
                   (dhcp_send DHCPREQUEST yiaddr (o_srv r) (s\<lparr>dh_offer_ip := yiaddr, dh_srv_id := o_srv r\<rparr>))
            else if n_dh s = DH_REQUESTING \<and> o_msgtype r = DHCPACK
            then Some (s\<lparr>g_net_ip := if yiaddr \<noteq> 0 then yiaddr else dh_offer_ip s, g_net_mask := o_subnet r,
                        g_net_gw := o_router r, n_dh := DH_BOUND\<rparr>)
            else Some s
          }
        }
      })"

definition dhcp_poll :: "net \<Rightarrow> net option" where
  "dhcp_poll s = (case net_tsc_ms s of (now, s1) \<Rightarrow>
     if n_dh s1 = DH_OFF \<or> n_dh s1 = DH_BOUND then Some s1
     else if now < dh_next_try_ms s1 then Some s1
     else if n_dh s1 = DH_DISCOVERING
     then map_option (\<lambda>(_, s2). s2\<lparr>dh_next_try_ms := now + 4000\<rparr>) (dhcp_send DHCPDISCOVER 0 0 s1)
     else map_option (\<lambda>(_, s2). s2\<lparr>dh_next_try_ms := now + 4000\<rparr>) (dhcp_send DHCPREQUEST (dh_offer_ip s1) (dh_srv_id s1) s1))"

text \<open>Calling the handler that is bound to a port.\<close>

definition dhcp_call :: udp_call where
  "dhcp_call fn src sp data len s = (if fn = DHCP_RX then dhcp_rx data len s else None)"

section \<open>The family\<close>

text \<open>
  The receive loop of \<open>e1000_poll\<close>, over the completed descriptors: the length the card wrote, the
  receive buffer, and what the local frame held before the copy. The copy does not leave either buffer.
\<close>

fun e1000_poll :: "(u16 \<times> u8 list \<times> u8 list) list \<Rightarrow> net \<Rightarrow> net option" where
  "e1000_poll [] s = Some s"
| "e1000_poll ((len, buf, frame) # ds) s =
     Option.bind
       (if len \<noteq> 0 \<and> unat len \<le> NET_FRAMESZ
        then do {
          bytes \<leftarrow> read_bytes buf 0 (unat len);
          if length frame < unat len then None
          else ether_rx dhcp_call (bytes @ drop (unat len) frame) (unat len) s
        }
        else Some s)
       (e1000_poll ds)"

text \<open>What \<open>e1000_init\<close> finds: no card, or a hardware address and the send function of the driver.\<close>

definition ionet_init :: "(u8 list \<times> (u8 list \<Rightarrow> int)) option \<Rightarrow> net \<Rightarrow> net" where
  "ionet_init nic s =
     (let s1 = udp_init (arp_init s)
      in case nic of None \<Rightarrow> s1
         | Some (mac, send) \<Rightarrow> dhcp_start (dhcp_init (s1\<lparr>g_net_mac := mac, g_netdev := Some send\<rparr>)))"

definition ionet_exit :: "net \<Rightarrow> net" where
  "ionet_exit s = s\<lparr>g_netdev := None\<rparr>"

definition ionet_ping :: "net \<Rightarrow> net option" where
  "ionet_ping s =
     (if g_net_gw s \<noteq> 0 \<and> pings_sent s < 3
      then case net_tsc_ms s of (now, s1) \<Rightarrow>
             if ping_next_ms s1 \<le> now
             then map_option (\<lambda>(_, s2). case net_tsc_ms s2 of (now2, s3) \<Rightarrow> s3\<lparr>ping_next_ms := now2 + 10000\<rparr>)
                    (icmp_echo_request (g_net_gw s1) 0xBEEF (of_nat (pings_sent s1 + 1)) (s1\<lparr>pings_sent := pings_sent s1 + 1\<rparr>))
             else Some s1
      else Some s)"

definition ionet_poll :: "(u16 \<times> u8 list \<times> u8 list) list \<Rightarrow> net \<Rightarrow> net option" where
  "ionet_poll ds s =
     (if g_netdev s = None then Some s
      else Option.bind (e1000_poll ds s) (\<lambda>s1. if \<not> dhcp_done s1 then dhcp_poll s1 else ionet_ping s1))"

definition net_boot :: "(nat \<Rightarrow> u64) \<Rightarrow> net" where
  "net_boot clock = \<lparr>g_net_mac = [0x52, 0x54, 0, 0x12, 0x34, 0x56], g_net_ip = 0, g_net_mask = 0xFFFFFF00, g_net_gw = 0,
     g_netdev = None, n_tx = [], n_cache = replicate 16 \<lparr>ac_ip = 0, ac_mac = replicate 6 0, ac_stamp = 0, ac_used = False\<rparr>,
     n_ports = replicate 8 \<lparr>up_port = 0, up_fn = 0\<rparr>, n_clock = clock, n_reads = 0, n_dh = DH_OFF, dh_xid = 0,
     dh_offer_ip = 0, dh_srv_id = 0, dh_next_try_ms = 0, dh_started_ms = 0, ping_next_ms = 0, pings_sent = 0\<rparr>"

section \<open>Options\<close>

text \<open>
  A list of options as a server writes it: pads and codes with values. The value of a code is the last one
  of the list.
\<close>

definition enc_opt :: "(u8 \<times> u8 list) option \<Rightarrow> u8 list" where
  "enc_opt p = (case p of None \<Rightarrow> [0] | Some (c, v) \<Rightarrow> [c, of_nat (length v)] @ v)"

definition opt_ok :: "(u8 \<times> u8 list) option \<Rightarrow> bool" where
  "opt_ok p = (case p of None \<Rightarrow> True | Some (c, v) \<Rightarrow> c \<noteq> 0 \<and> c \<noteq> 255 \<and> length v \<le> 255)"

definition last_opt :: "u8 \<Rightarrow> (u8 \<times> u8 list) option list \<Rightarrow> u8 list option" where
  "last_opt c os = map_of (rev (List.map_filter id os)) c"

text \<open>What the parser makes of one option.\<close>

definition opt_val :: "u8 \<Rightarrow> u8 list \<Rightarrow> dh_opts \<Rightarrow> dh_opts" where
  "opt_val code v r =
     (if code = OPT_MSGTYPE then if 1 \<le> length v then r\<lparr>o_msgtype := v ! 0\<rparr> else r
      else if code = OPT_SUBNET then if length v = 4 then r\<lparr>o_subnet := NET_NTOHL (get32 v 0)\<rparr> else r
      else if code = OPT_ROUTER then if length v = 4 then r\<lparr>o_router := NET_NTOHL (get32 v 0)\<rparr> else r
      else if code = OPT_SRV_ID then if length v = 4 then r\<lparr>o_srv := NET_NTOHL (get32 v 0)\<rparr> else r
      else r)"

definition apply_opt :: "(u8 \<times> u8 list) option \<Rightarrow> dh_opts \<Rightarrow> dh_opts" where
  "apply_opt p r = (case p of None \<Rightarrow> r | Some (c, v) \<Rightarrow> opt_val c v r)"

lemma enc_opt_simps [simp]: "enc_opt None = [0]" "enc_opt (Some (c, v)) = c # of_nat (length v) # v"
  by (simp_all add: enc_opt_def)

lemma apply_opt_simps [simp]: "apply_opt None r = r" "apply_opt (Some (c, v)) r = opt_val c v r"
  by (simp_all add: apply_opt_def)

lemma last_opt_snoc:
  "last_opt c (os @ [p]) = (case p of Some (c', v) \<Rightarrow> if c' = c then Some v else last_opt c os | None \<Rightarrow> last_opt c os)"
  by (simp add: last_opt_def map_filter_def split: option.split)

text \<open>The parser ends with the last values.\<close>

lemma be32_value: "NET_NTOHL (get32 (be32 x) 0) = x"
  using get32_be32 [of 0 "be32 x" x] by simp

lemma fold_last:
  "last_opt 53 os = Some [m] \<Longrightarrow> o_msgtype (fold apply_opt os r) = m"
  "last_opt 1 os = Some (be32 x) \<Longrightarrow> o_subnet (fold apply_opt os r) = x"
  "last_opt 3 os = Some (be32 x) \<Longrightarrow> o_router (fold apply_opt os r) = x"
  "last_opt 54 os = Some (be32 x) \<Longrightarrow> o_srv (fold apply_opt os r) = x"
  by (induction os rule: rev_induct;
      auto simp: last_opt_snoc opt_val_def be32_value apply_opt_def last_opt_def map_filter_def split: option.splits if_splits prod.splits)+

lemma opt_apply_val:
  assumes "v + unat l \<le> length data"
  shows "opt_apply code l data v r = Some (opt_val code (take (unat l) (drop v data)) r)"
proof -
  have 1: "read8 data v = Some (take (unat l) (drop v data) ! 0)" if "1 \<le> l"
  proof -
    have "0 < unat l"
      using that by (simp add: word_le_nat_alt)
    then show ?thesis
      using assms by simp
  qed
  have 4: "read32 data v = Some (get32 (take 4 (drop v data)) 0)" if "l = 4"
    using assms that by (simp add: get32_def)
  have l: "1 \<le> l \<longleftrightarrow> 1 \<le> unat l" "l = 4 \<longleftrightarrow> unat l = 4"
    by (simp_all add: word_le_nat_alt word_unat_eq_iff)
  have "min (length data - v) (unat l) = unat l"
    using assms by simp
  then show ?thesis
    using 1 4 unfolding opt_apply_def opt_val_def length_take length_drop l by simp
qed

lemma opt_parse_total: "len \<le> length data \<Longrightarrow> \<exists>r'. opt_parse data len i r = Some r'"
proof (induction data len i r rule: opt_parse.induct)
  case (1 data len i r)
  show ?case
  proof (cases "len \<le> i \<or> data ! i = 0 \<or> data ! i = OPT_END \<or> len \<le> i + 1 \<or> len < i + 2 + unat (data ! (i + 1))")
    case True
    then show ?thesis
      using 1 by (subst opt_parse.simps) (simp split: option.split, force)
  next
    case False
    then have "read8 data i = Some (data ! i)" "read8 data (i + 1) = Some (data ! (i + 1))"
      using 1(3) by simp_all
    moreover have "opt_apply (data ! i) (data ! (i + 1)) data (i + 2) r =
        Some (opt_val (data ! i) (take (unat (data ! (i + 1))) (drop (i + 2) data)) r)"
      using False 1(3) by (intro opt_apply_val) simp
    ultimately show ?thesis
      using False 1(2,3) by (subst opt_parse.simps) simp
  qed
qed

lemma opt_parse_pad:
  "length pre < len \<Longrightarrow> opt_parse (pre @ 0 # rest) len (length pre) r = opt_parse ((pre @ [0]) @ rest) len (length (pre @ [0])) r"
  by (subst opt_parse.simps) simp

lemma opt_parse_end: "opt_parse (pre @ OPT_END # junk) len (length pre) r = Some r"
  by (subst opt_parse.simps) simp

lemma opt_parse_put:
  assumes "c \<noteq> 0" "c \<noteq> OPT_END" "length v \<le> 255" "length pre + 2 + length v \<le> len"
  shows "opt_parse (pre @ (c # of_nat (length v) # v) @ rest) len (length pre) r =
    opt_parse ((pre @ c # of_nat (length v) # v) @ rest) len (length (pre @ c # of_nat (length v) # v)) (opt_val c v r)"
proof -
  let ?d = "pre @ (c # of_nat (length v) # v) @ rest"
  have l: "unat (of_nat (length v) :: u8) = length v"
    using assms(3) by (simp add: unat_of_nat)
  have "read8 ?d (length pre) = Some c" "read8 ?d (length pre + 1) = Some (of_nat (length v))"
    by (simp_all add: nth_append)
  moreover have "opt_apply c (of_nat (length v)) ?d (length pre + 2) r = Some (opt_val c v r)"
    by (subst opt_apply_val) (simp_all add: l)
  ultimately show ?thesis
    using assms l by (subst opt_parse.simps) simp
qed

lemma opt_parse_encoded:
  assumes "list_all opt_ok os" "length pre + length (concat (map enc_opt os)) \<le> len"
  shows "opt_parse (pre @ concat (map enc_opt os) @ OPT_END # junk) len (length pre) r = Some (fold apply_opt os r)"
  using assms
proof (induction os arbitrary: pre r)
  case (Cons p os)
  then have IH: "opt_parse (pre' @ concat (map enc_opt os) @ OPT_END # junk) len (length pre') r' = Some (fold apply_opt os r')"
    if "length pre' + length (concat (map enc_opt os)) \<le> len" for pre' r'
    using that by simp
  show ?case
  proof (cases p)
    case None
    then show ?thesis
      using IH [of "pre @ [0]"] opt_parse_pad [of pre len] Cons.prems(2) by simp
  next
    case (Some cv)
    obtain c v where cv: "cv = (c, v)"
      by (cases cv)
    then have "c \<noteq> 0" "c \<noteq> OPT_END" "length v \<le> 255" "length pre + 2 + length v \<le> len"
      using Cons.prems Some by (simp_all add: opt_ok_def)
    then show ?thesis
      using IH [of "pre @ c # of_nat (length v) # v"] Cons.prems(2)
        opt_parse_put [of c v pre len "concat (map enc_opt os) @ OPT_END # junk"] Some cv
      by simp
  qed
qed (simp add: opt_parse_end)

section \<open>Safety\<close>

lemma net_ok_update [simp]:
  "net_ok H (s\<lparr>n_dh := a\<rparr>) = net_ok H s" "net_ok H (s\<lparr>dh_xid := b\<rparr>) = net_ok H s" "net_ok H (s\<lparr>dh_next_try_ms := c\<rparr>) = net_ok H s"
  "net_ok H (s\<lparr>dh_started_ms := c\<rparr>) = net_ok H s" "net_ok H (s\<lparr>dh_offer_ip := b\<rparr>) = net_ok H s" "net_ok H (s\<lparr>dh_srv_id := b\<rparr>) = net_ok H s"
  "net_ok H (s\<lparr>g_net_ip := b\<rparr>) = net_ok H s" "net_ok H (s\<lparr>g_net_mask := b\<rparr>) = net_ok H s" "net_ok H (s\<lparr>g_net_gw := b\<rparr>) = net_ok H s"
  "net_ok H (s\<lparr>n_reads := n\<rparr>) = net_ok H s" "net_ok H (s\<lparr>pings_sent := n\<rparr>) = net_ok H s" "net_ok H (s\<lparr>ping_next_ms := c\<rparr>) = net_ok H s"
  "net_ok H (s\<lparr>g_netdev := d\<rparr>) = net_ok H s"
  unfolding net_ok_def net_wf_def ports_in_def by simp_all

lemma length_dhcp_msg:
  assumes "net_wf s"
  shows "length (dhcp_hdr s @ dhcp_options mt ip srv) \<le> 256"
  using assms by (simp add: dhcp_hdr_def dhcp_options_def opt_put_def net_wf_def)

lemma dhcp_send_ipv4:
  assumes "net_wf s"
  shows "dhcp_send mt ip srv s =
    ipv4_send 0xFFFFFFFF IP_PROTO_UDP (udp_segment (g_net_ip s) 0xFFFFFFFF 68 67 (dhcp_hdr s @ dhcp_options mt ip srv)) s"
  unfolding dhcp_send_def using length_dhcp_msg [OF assms, of mt ip srv] by (subst udp_send_fits) simp_all

lemma dhcp_send_sent:
  assumes "net_ok H s"
  shows "\<exists>r s'. dhcp_send mt a b s = Some (r, s') \<and> sent s s'"
proof -
  have "net_wf s"
    using assms by (simp add: net_ok_def)
  then show ?thesis
    unfolding dhcp_send_ipv4 [OF \<open>net_wf s\<close>] by (rule ipv4_send_sent)
qed

lemma dhcp_rx_ok:
  assumes "net_ok H s" "len \<le> length data"
  shows "\<exists>s'. dhcp_rx data len s = Some s' \<and> net_ok H s'"
proof (cases "len < DH_HDRSZ + 3")
  case False
  let ?y = "NET_NTOHL (get32 data 16)"
  obtain r where r: "opt_parse data len DH_HDRSZ no_opts = Some r"
    using opt_parse_total [OF assms(2)] by blast
  let ?s = "s\<lparr>dh_offer_ip := ?y, dh_srv_id := o_srv r\<rparr>"
  have "net_ok H ?s"
    using assms by simp
  then obtain x s' where "dhcp_send DHCPREQUEST ?y (o_srv r) ?s = Some (x, s')" "net_ok H s'"
    using dhcp_send_sent net_ok_sent by blast
  then show ?thesis
    using assms False r by (simp add: dhcp_rx_def net_tsc_ms_def)
qed (use assms in \<open>simp add: dhcp_rx_def\<close>)

interpretation dhcp: udp_handlers dhcp_call "{DHCP_RX}"
  by unfold_locales (simp add: dhcp_call_def dhcp_rx_ok)

lemma dhcp_poll_ok:
  assumes "net_ok H s"
  shows "\<exists>s'. dhcp_poll s = Some s' \<and> net_ok H s'"
proof -
  let ?s = "s\<lparr>n_reads := n_reads s + 1\<rparr>"
  have ok: "net_ok H ?s"
    using assms by simp
  have "\<exists>s'. map_option (\<lambda>(_, s2). s2\<lparr>dh_next_try_ms := t\<rparr>) (dhcp_send mt a b ?s) = Some s' \<and> net_ok H s'" for mt a b t
  proof -
    obtain r s' where "dhcp_send mt a b ?s = Some (r, s')" "net_ok H s'"
      using dhcp_send_sent [OF ok] net_ok_sent ok by blast
    then show ?thesis by simp
  qed
  then show ?thesis
    using ok by (simp add: dhcp_poll_def net_tsc_ms_def)
qed

lemma ionet_ping_ok:
  assumes "net_ok H s"
  shows "\<exists>s'. ionet_ping s = Some s' \<and> net_ok H s'"
proof -
  let ?s = "s\<lparr>n_reads := n_reads s + 1, pings_sent := pings_sent s + 1\<rparr>"
  have ok: "net_ok H ?s"
    using assms by simp
  then have "net_wf ?s"
    by (simp only: net_ok_def)
  then obtain r s' where "icmp_echo_request (g_net_gw s) 0xBEEF (of_nat (pings_sent s + 1)) ?s = Some (r, s')" "sent ?s s'"
    unfolding icmp_echo_request_msg using ipv4_send_sent by blast
  then have "icmp_echo_request (g_net_gw s) 0xBEEF (of_nat (pings_sent s + 1)) ?s = Some (r, s')" "net_ok H s'"
    using net_ok_sent ok by blast+
  then show ?thesis
    using assms by (simp add: ionet_ping_def net_tsc_ms_def)
qed

text \<open>The descriptors hold buffers that are large enough, and the local frame has its size.\<close>

definition descs_ok :: "(u16 \<times> u8 list \<times> u8 list) list \<Rightarrow> bool" where
  "descs_ok = list_all (\<lambda>(len, buf, frame). NET_FRAMESZ \<le> length buf \<and> length frame = NET_FRAMESZ)"

lemma e1000_poll_ok:
  assumes "descs_ok ds" "net_ok {DHCP_RX} s"
  shows "\<exists>s'. e1000_poll ds s = Some s' \<and> net_ok {DHCP_RX} s'"
  using assms
proof (induction ds arbitrary: s)
  case (Cons d ds)
  obtain len buf frame where d: "d = (len, buf, frame)"
    by (cases d) auto
  let ?n = "unat len"
  have l: "NET_FRAMESZ \<le> length buf" "length frame = NET_FRAMESZ" "descs_ok ds"
    using Cons.prems(1) by (simp_all add: d descs_ok_def)
  have "\<exists>s'. ether_rx dhcp_call (take ?n buf @ drop ?n frame) ?n s = Some s' \<and> net_ok {DHCP_RX} s'" if "?n \<le> NET_FRAMESZ"
    using dhcp.ether_rx_safe [OF Cons.prems(2), of ?n "take ?n buf @ drop ?n frame"] l that by simp
  then show ?case
    using Cons.IH [OF l(3)] Cons.prems(2) l by (auto simp: d)
qed simp

lemma ionet_poll_ok:
  assumes "descs_ok ds" "net_ok {DHCP_RX} s"
  shows "\<exists>s'. ionet_poll ds s = Some s' \<and> net_ok {DHCP_RX} s'"
proof -
  obtain s1 where "e1000_poll ds s = Some s1" "net_ok {DHCP_RX} s1"
    using e1000_poll_ok assms by blast
  then show ?thesis
    using dhcp_poll_ok ionet_ping_ok assms(2) by (simp add: ionet_poll_def)
qed

section \<open>A lease\<close>

text \<open>A message of the server: the transaction and the address in the header, and a list of options.\<close>

definition dhcp_msg :: "u32 \<Rightarrow> u32 \<Rightarrow> (u8 \<times> u8 list) option list \<Rightarrow> u8 list \<Rightarrow> bool" where
  "dhcp_msg xid ip os data \<longleftrightarrow> list_all opt_ok os \<and> DH_HDRSZ + 3 \<le> length data \<and>
     take 4 (drop 4 data) = be32 xid \<and> take 4 (drop 16 data) = be32 ip \<and> take 4 (drop 236 data) = [0x63, 0x82, 0x53, 0x63] \<and>
     (\<exists>junk. drop DH_HDRSZ data = concat (map enc_opt os) @ 255 # junk)"

abbreviation parsed :: "(u8 \<times> u8 list) option list \<Rightarrow> dh_opts" where
  "parsed os \<equiv> fold apply_opt os no_opts"

lemma dhcp_msg_parsed:
  assumes "dhcp_msg xid ip os data"
  shows "opt_parse (data @ pad) (length data) DH_HDRSZ no_opts = Some (parsed os)"
proof -
  obtain junk where j: "drop DH_HDRSZ data = concat (map enc_opt os) @ OPT_END # junk" and l: "DH_HDRSZ + 3 \<le> length data"
      and ok: "list_all opt_ok os"
    using assms by (auto simp: dhcp_msg_def)
  have d: "data = take DH_HDRSZ data @ concat (map enc_opt os) @ OPT_END # junk"
    using append_take_drop_id [of DH_HDRSZ data] unfolding j by (rule sym)
  have t: "length (take DH_HDRSZ data) = DH_HDRSZ"
    using l by simp
  have "length (take DH_HDRSZ data) + length (concat (map enc_opt os)) \<le> length data"
    using arg_cong [OF d, of length] by simp
  from opt_parse_encoded [OF ok this, of "junk @ pad" no_opts] show ?thesis
    unfolding t by (subst d) simp
qed

text \<open>A field in network order is read as the number.\<close>

lemma read32_be32:
  assumes "take 4 (drop i data) = be32 x"
  shows "read32 (data @ pad) i = Some (NET_HTONL x)"
proof -
  have l: "i + 4 \<le> length data"
    using arg_cong [OF assms, of length] by simp
  then have "put32 (get32 data i) = put32 (NET_HTONL x)"
    using assms by (simp add: put32_get32 HTONL_bytes)
  moreover have "get32 (data @ pad) i = get32 data i"
    using l by (simp add: get32_def nth_append)
  ultimately show ?thesis
    using l by (simp add: put32_inject)
qed

lemma dhcp_rx_msg:
  assumes "dhcp_msg (dh_xid s) ip os data"
  shows "dhcp_rx (data @ pad) (length data) s =
    (if n_dh s = DH_DISCOVERING \<and> o_msgtype (parsed os) = DHCPOFFER
     then map_option (\<lambda>(_, s1). case net_tsc_ms (s1\<lparr>n_dh := DH_REQUESTING\<rparr>) of (now, s2) \<Rightarrow> s2\<lparr>dh_next_try_ms := now + 4000\<rparr>)
            (dhcp_send DHCPREQUEST ip (o_srv (parsed os)) (s\<lparr>dh_offer_ip := ip, dh_srv_id := o_srv (parsed os)\<rparr>))
     else if n_dh s = DH_REQUESTING \<and> o_msgtype (parsed os) = DHCPACK
     then Some (s\<lparr>g_net_ip := if ip \<noteq> 0 then ip else dh_offer_ip s, g_net_mask := o_subnet (parsed os),
                 g_net_gw := o_router (parsed os), n_dh := DH_BOUND\<rparr>)
     else Some s)"
proof -
  have m: "DH_HDRSZ + 3 \<le> length data" "take 4 (drop 4 data) = be32 (dh_xid s)" "take 4 (drop 16 data) = be32 ip"
    using assms by (simp_all add: dhcp_msg_def)
  have "take 4 (drop 236 data) = be32 DHCP_COOKIE"
    using assms by (simp add: dhcp_msg_def be32_def)
  note reads = read32_be32 [OF this, of pad] read32_be32 [OF m(2), of pad] read32_be32 [OF m(3), of pad]
  show ?thesis
    using m(1) unfolding dhcp_rx_def reads dhcp_msg_parsed [OF assms] by simp
qed

text \<open>The frame a message of the client goes out in.\<close>

definition dhcp_frame :: "u8 \<Rightarrow> u32 \<Rightarrow> u32 \<Rightarrow> net \<Rightarrow> u8 list" where
  "dhcp_frame mt ip srv s = ipv4_frame net_bcast_mac 0xFFFFFFFF IP_PROTO_UDP
     (udp_segment (g_net_ip s) 0xFFFFFFFF 68 67 (dhcp_hdr s @ dhcp_options mt ip srv)) s"

lemma length_udp_segment [simp]: "length (udp_segment a b sp dp d) = 8 + length d"
  by (simp add: udp_segment_def Let_def)

lemma dhcp_send_frame:
  assumes "net_wf s"
  shows "dhcp_send mt ip srv s = Some (netdev_send (dhcp_frame mt ip srv s) s)"
  unfolding dhcp_send_ipv4 [OF assms] dhcp_frame_def ipv4_frame_def
  using length_dhcp_msg [OF assms, of mt ip srv] by (intro ipv4_send_frame [OF assms]) simp_all

lemma udp_segment_bytes:
  "take 4 (udp_segment a b sp dp d) = put16 (NET_HTONS sp) @ put16 (NET_HTONS dp)" "drop 8 (udp_segment a b sp dp d) = d"
  by (simp_all add: udp_segment_def Let_def udp_hdr_def)

lemma dhcp_hdr_bytes:
  assumes "length (g_net_mac s) = 6"
  shows "dhcp_hdr s ! 0 = 1" "take 4 (drop 4 (dhcp_hdr s)) = be32 (dh_xid s)" "take 6 (drop 28 (dhcp_hdr s)) = g_net_mac s"
    "take 4 (drop 236 (dhcp_hdr s)) = [0x63, 0x82, 0x53, 0x63]" "length (dhcp_hdr s) = 240"
  using assms by (simp_all add: dhcp_hdr_def HTONL_bytes put16_def be32_def)

text \<open>A request as it stands on the wire.\<close>

definition request_frame :: "u8 list \<Rightarrow> u32 \<Rightarrow> u32 \<Rightarrow> u32 \<Rightarrow> u8 list \<Rightarrow> bool" where
  "request_frame mac xid ip srv f \<longleftrightarrow>
     take 6 f = replicate 6 0xFF \<and> take 2 (drop 12 f) = [8, 0] \<and> f ! 23 = 17 \<and> take 4 (drop 30 f) = replicate 4 0xFF \<and>
     take 4 (drop 34 f) = [0, 68, 0, 67] \<and> f ! 42 = 1 \<and> take 4 (drop 46 f) = be32 xid \<and> take 6 (drop 70 f) = mac \<and>
     take 4 (drop 278 f) = [0x63, 0x82, 0x53, 0x63] \<and>
     drop 282 f = [53, 1, 3, 50, 4] @ be32 ip @ [54, 4] @ be32 srv @ [255]"

lemma dhcp_frame_request:
  assumes "net_wf s" "ip \<noteq> 0" "srv \<noteq> 0"
  shows "request_frame (g_net_mac s) (dh_xid s) ip srv (dhcp_frame DHCPREQUEST ip srv s)"
proof -
  let ?d = "dhcp_hdr s @ dhcp_options DHCPREQUEST ip srv"
  let ?u = "udp_segment (g_net_ip s) 0xFFFFFFFF 68 67 ?d"
  let ?f = "dhcp_frame DHCPREQUEST ip srv s"
  have m: "length (g_net_mac s) = 6" "length net_bcast_mac = 6"
    using assms(1) by (simp_all add: net_wf_def net_bcast_mac_def)
  note f = ipv4_frame_bytes [OF m(2,1), of "0xFFFFFFFF" IP_PROTO_UDP ?u, folded dhcp_frame_def] and h = dhcp_hdr_bytes [OF m(1)]
  have d42: "drop 42 ?f = ?d"
    using udp_segment_bytes(2) [of "g_net_ip s" "0xFFFFFFFF" 68 67 ?d] f(5) by (metis drop_drop numeral_plus_numeral add_num_simps(1-9))
  have "length ?f = 34 + length ?u"
    unfolding dhcp_frame_def by (rule length_ipv4_frame [OF m(2,1)])
  then have op: "?f ! 42 = 1"
    using arg_cong [OF d42, of "\<lambda>xs. xs ! 0"] h by (simp add: nth_append)
  have "drop n ?f = drop (n - 42) ?d" if "42 \<le> n" for n
    unfolding d42 [symmetric] using that by simp
  from this [of 46] this [of 70] this [of 278] this [of 282]
  have "take 4 (drop 46 ?f) = be32 (dh_xid s)" "take 6 (drop 70 ?f) = g_net_mac s" "take 4 (drop 278 ?f) = [0x63, 0x82, 0x53, 0x63]"
    "drop 282 ?f = [53, 1, 3, 50, 4] @ be32 ip @ [54, 4] @ be32 srv @ [255]"
    using h assms(2,3) by (simp_all add: dhcp_options_def opt_put_def HTONL_bytes)
  moreover have "take 4 (drop 34 ?f) = [0, 68, 0, 67]"
    unfolding f(5) udp_segment_bytes(1) by (simp add: HTONS_bytes)
  moreover have "take 2 (drop 12 ?f) = [8, 0]"
    using m by (simp add: dhcp_frame_def ipv4_frame_def eth_hdr_def HTONS_bytes)
  moreover have "be32 0xFFFFFFFF = [0xFF, 0xFF, 0xFF, 0xFF]"
    by (simp add: be32_def)
  moreover have "replicate 4 x = [x, x, x, x]" for x :: u8
    by (simp add: numeral_eq_Suc)
  ultimately show ?thesis
    unfolding request_frame_def using f(1,2,4) op by (simp add: net_bcast_mac_def)
qed

text \<open>
  C25. A lease is obtained. Let a discovering client with a card receive an offer of its transaction: a message whose
  options, in any order, with padding and with unknown options among them, have the message type 2 and name a
  server. It answers with one frame and waits. The frame is a broadcast UDP datagram from port 68 to port 67 with
  a request (type 3) of the client's transaction and hardware address that names the offered address and the server. On an
  acknowledgement (type 5) of that address with a mask and a router it takes the address, the mask and the router and
  is bound. Bytes behind the messages in the receive buffer do not matter.
\<close>

theorem dhcp_lease:
  assumes "net_wf s" "n_dh s = DH_DISCOVERING" "g_netdev s = Some send" "ip \<noteq> 0" "srv \<noteq> 0"
    and "dhcp_msg (dh_xid s) ip os offer" "last_opt 53 os = Some [2]" "last_opt 54 os = Some (be32 srv)"
    and "dhcp_msg (dh_xid s) ip os' ack" "last_opt 53 os' = Some [5]" "last_opt 1 os' = Some (be32 nm)"
      "last_opt 3 os' = Some (be32 gw)"
  shows "\<exists>s1 s2 f. dhcp_rx (offer @ pad) (length offer) s = Some s1 \<and> n_dh s1 = DH_REQUESTING \<and>
    n_tx s1 = n_tx s @ [f] \<and> request_frame (g_net_mac s) (dh_xid s) ip srv f \<and>
    dhcp_rx (ack @ pad') (length ack) s1 = Some s2 \<and> dhcp_done s2 \<and> n_tx s2 = n_tx s1 \<and> g_net_ip s2 = ip \<and>
    g_net_mask s2 = nm \<and> g_net_gw s2 = gw"
proof -
  let ?s = "s\<lparr>dh_offer_ip := ip, dh_srv_id := srv\<rparr>"
  note os = fold_last(1) [OF assms(7), of no_opts] fold_last(4) [OF assms(8), of no_opts]
    and os' = fold_last(1) [OF assms(10), of no_opts] fold_last(2) [OF assms(11), of no_opts] fold_last(3) [OF assms(12), of no_opts]
  have "net_wf ?s"
    using assms(1) by (simp add: net_wf_def)
  moreover have "dhcp_frame mt a b ?s = dhcp_frame mt a b s" for mt a b
    by (simp add: dhcp_frame_def ipv4_frame_def dhcp_hdr_def)
  ultimately have send: "dhcp_send mt a b ?s =
      Some (send (dhcp_frame mt a b s), ?s\<lparr>n_tx := n_tx s @ [dhcp_frame mt a b s]\<rparr>)" for mt a b
    using assms(3) by (simp add: dhcp_send_frame netdev_send_def)
  define s1 where "s1 = ?s\<lparr>n_tx := n_tx s @ [dhcp_frame DHCPREQUEST ip srv s], n_dh := DH_REQUESTING,
      n_reads := n_reads s + 1, dh_next_try_ms := n_clock s (n_reads s) + 4000\<rparr>"
  have 1: "dhcp_rx (offer @ pad) (length offer) s = Some s1"
    unfolding dhcp_rx_msg [OF assms(6)] os using assms(2) by (simp add: send net_tsc_ms_def s1_def)
  have m: "dhcp_msg (dh_xid s1) ip os' ack" and r: "n_dh s1 = DH_REQUESTING"
    using assms(9) by (simp_all add: s1_def)
  have 2: "dhcp_rx (ack @ pad') (length ack) s1 = Some (s1\<lparr>g_net_ip := ip, g_net_mask := nm, g_net_gw := gw, n_dh := DH_BOUND\<rparr>)"
    unfolding dhcp_rx_msg [OF m] os' using assms(4) r by simp
  show ?thesis
    using 1 2 dhcp_frame_request [OF assms(1,4,5)] by (simp add: dhcp_done_def s1_def)
qed

text \<open>A message of a server.\<close>

definition server_msg :: "u32 \<Rightarrow> u32 \<Rightarrow> (u8 \<times> u8 list) option list \<Rightarrow> u8 list" where
  "server_msg xid ip os = [2, 1, 6, 0] @ be32 xid @ replicate 8 0 @ be32 ip @ replicate 216 0 @
     [0x63, 0x82, 0x53, 0x63] @ concat (map enc_opt os) @ [255]"

lemma server_msg:
  assumes "list_all opt_ok os" "2 \<le> length (concat (map enc_opt os))"
  shows "dhcp_msg xid ip os (server_msg xid ip os)"
  using assms by (simp add: dhcp_msg_def server_msg_def be32_def)

theorem dhcp_lease_witness:
  "\<exists>s1 s2 f. dhcp_rx (server_msg 7 0x0A00020F [Some (53, [2]), Some (54, be32 0x0A000202)] @ [1, 2]) 250
       (fresh_host [2, 0, 0, 0, 0, 1] 0\<lparr>n_dh := DH_DISCOVERING, dh_xid := 7\<rparr>) = Some s1 \<and> n_dh s1 = DH_REQUESTING \<and>
     n_tx s1 = [f] \<and> request_frame [2, 0, 0, 0, 0, 1] 7 0x0A00020F 0x0A000202 f \<and>
     dhcp_rx (server_msg 7 0x0A00020F [Some (53, [5]), None, Some (1, be32 0xFFFFFF00), Some (3, be32 0x0A000202)])
       257 s1 = Some s2 \<and> dhcp_done s2 \<and> g_net_ip s2 = 0x0A00020F \<and> g_net_mask s2 = 0xFFFFFF00 \<and> g_net_gw s2 = 0x0A000202"
proof -
  let ?s = "fresh_host [2, 0, 0, 0, 0, 1] 0\<lparr>n_dh := DH_DISCOVERING, dh_xid := 7\<rparr>"
  let ?os = "[Some (53, [2]), Some (54, be32 0x0A000202)]"
  let ?os' = "[Some (53, [5]), None, Some (1, be32 0xFFFFFF00), Some (3, be32 0x0A000202)]"
  let ?offer = "server_msg 7 0x0A00020F ?os" and ?ack = "server_msg 7 0x0A00020F ?os'"
  have l: "length ?offer = 250" "length ?ack = 257"
    by (simp_all add: server_msg_def)
  have s: "net_wf ?s" "n_dh ?s = DH_DISCOVERING" "g_netdev ?s = Some (\<lambda>f. 0)" "n_tx ?s = []" "g_net_mac ?s = [2, 0, 0, 0, 0, 1]" "dh_xid ?s = 7"
    by (simp_all add: net_wf_def fresh_host_def)
  have m: "dhcp_msg (dh_xid ?s) 0x0A00020F ?os ?offer" "dhcp_msg (dh_xid ?s) 0x0A00020F ?os' ?ack"
    unfolding s by (rule server_msg, simp_all add: opt_ok_def)+
  have o: "last_opt 53 ?os = Some [2]" "last_opt 54 ?os = Some (be32 0x0A000202)" "last_opt 53 ?os' = Some [5]"
      "last_opt 1 ?os' = Some (be32 0xFFFFFF00)" "last_opt 3 ?os' = Some (be32 0x0A000202)"
    by (simp_all add: last_opt_def map_filter_def)
  show ?thesis
    using dhcp_lease [OF s(1-3) _ _ m(1) o(1,2) m(2) o(3-5), of "[1, 2]" "[]"] unfolding l s append_Nil append_Nil2 by auto
qed

text \<open>
  Only the two messages of the exchange move the client: whatever is received, the client is unchanged
  unless the message is complete, has the cookie and its transaction number, and is an offer while discovering
  or an acknowledgement while requesting. So a bound client keeps its lease, and a refused request is never
  given up.
\<close>

theorem dhcp_rx_unchanged:
  assumes "len \<le> length data"
    and "len < DH_HDRSZ + 3 \<or> get32 data 236 \<noteq> NET_HTONL DHCP_COOKIE \<or> get32 data 4 \<noteq> NET_HTONL (dh_xid s) \<or>
    (n_dh s, map_option o_msgtype (opt_parse data len DH_HDRSZ no_opts)) \<notin> {(DH_DISCOVERING, Some DHCPOFFER), (DH_REQUESTING, Some DHCPACK)}"
  shows "dhcp_rx data len s = Some s"
proof -
  obtain r where "opt_parse data len DH_HDRSZ no_opts = Some r"
    using opt_parse_total [OF assms(1)] by blast
  then show ?thesis
    using assms by (cases "len < DH_HDRSZ + 3") (auto simp: dhcp_rx_def)
qed

theorem dhcp_rx_unchanged_witness: "dhcp_rx (replicate 300 0) 290 (net_boot of_nat) = Some (net_boot of_nat)"
proof -
  have "get32 (replicate 300 0) 236 = 0"
    by (simp add: get32_def)
  then show ?thesis
    by (intro dhcp_rx_unchanged) (simp_all add: NET_HTONL_def)
qed

section \<open>From boot on\<close>

fun ionet_run :: "(u16 \<times> u8 list \<times> u8 list) list list \<Rightarrow> net \<Rightarrow> net option" where
  "ionet_run [] s = Some s"
| "ionet_run (ds # dss) s = Option.bind (ionet_poll ds s) (ionet_run dss)"

lemma ionet_run_ok:
  "list_all descs_ok dss \<Longrightarrow> net_ok {DHCP_RX} s \<Longrightarrow> \<exists>s'. ionet_run dss s = Some s' \<and> net_ok {DHCP_RX} s'"
proof (induction dss arbitrary: s)
  case (Cons ds dss)
  then obtain s1 where "ionet_poll ds s = Some s1" "net_ok {DHCP_RX} s1"
    using ionet_poll_ok by force
  then show ?case
    using Cons by simp
qed simp

lemma ionet_init_ok:
  assumes "length mac = 6"
  shows "net_ok {DHCP_RX} (ionet_init (Some (mac, send)) (net_boot clock))"
proof -
  let ?s = "udp_init (arp_init (net_boot clock))\<lparr>g_net_mac := mac, g_netdev := Some send\<rparr>"
  have "net_ok {DHCP_RX} (dhcp_init ?s)"
    using assms by (simp add: dhcp_init_def udp_init_def arp_init_def net_boot_def udp_bind_def replicate_8 net_ok_def net_wf_def ports_in_def
        DHCP_RX_def)
  then show ?thesis
    by (simp add: ionet_init_def dhcp_start_def net_tsc_ms_def Let_def)
qed

text \<open>
  C16. The network stack is safe against every input. Started on a card and polled any number of times, with
  any frames of any length and content in the receive ring, every poll returns, and no step reads a byte outside of the
  buffers of the driver: every read of the receive path is checked. Only the DHCP handler is ever called, and the ARP
  and port tables stay well formed. In every state that is reached, receiving a frame of at most \<open>NET_FRAMESZ\<close> bytes touches
  no byte behind its length, with one exception: an ARP frame is answered from a buffer of 56 bytes, whatever
  the length of the frame.
\<close>

theorem ionet_safe:
  assumes "length mac = 6" "list_all descs_ok dss"
  shows "\<exists>s'. ionet_run dss (ionet_init (Some (mac, send)) (net_boot clock)) = Some s' \<and> net_wf s' \<and> ports_in {DHCP_RX} s' \<and>
    (\<forall>frame. length frame \<le> NET_FRAMESZ \<and> (take 2 (drop 12 frame) = [8, 6] \<longrightarrow> 56 \<le> length frame) \<longrightarrow>
      ether_rx dhcp_call frame (length frame) s' \<noteq> None)"
proof -
  obtain s' where s': "ionet_run dss (ionet_init (Some (mac, send)) (net_boot clock)) = Some s'" "net_ok {DHCP_RX} s'"
    using ionet_run_ok [OF assms(2) ionet_init_ok [OF assms(1)]] by blast
  have "ether_rx dhcp_call frame (length frame) s' \<noteq> None"
    if "length frame \<le> NET_FRAMESZ" "take 2 (drop 12 frame) = [8, 6] \<longrightarrow> 56 \<le> length frame" for frame
    using dhcp.ether_rx_safe [OF s'(2) order_refl that] by auto
  then show ?thesis
    using s' by (auto simp: net_ok_def)
qed

theorem ionet_safe_witness:
  "\<exists>s'. ionet_run [[(60, replicate 2048 0xFF, replicate 1518 0), (2000, replicate 2048 8, replicate 1518 1)], []]
     (ionet_init (Some ([2, 0, 0, 0, 0, 1], \<lambda>f. 0)) (net_boot of_nat)) = Some s' \<and> net_wf s' \<and> ports_in {DHCP_RX} s' \<and>
     ether_rx dhcp_call (replicate 40 8) 40 s' \<noteq> None"
proof -
  let ?dss = "[[(60, replicate 2048 0xFF, replicate 1518 0), (2000, replicate 2048 8, replicate 1518 1)], []]"
  have "length [2 :: u8, 0, 0, 0, 0, 1] = 6" "list_all descs_ok ?dss"
    by (simp_all add: descs_ok_def)
  from ionet_safe [OF this, of "\<lambda>f. 0" of_nat] obtain s' where
      "ionet_run ?dss (ionet_init (Some ([2, 0, 0, 0, 0, 1], \<lambda>f. 0)) (net_boot of_nat)) = Some s'" "net_wf s'" "ports_in {DHCP_RX} s'"
    and all: "\<forall>frame. length frame \<le> NET_FRAMESZ \<and> (take 2 (drop 12 frame) = [8, 6] \<longrightarrow> 56 \<le> length frame) \<longrightarrow>
      ether_rx dhcp_call frame (length frame) s' \<noteq> None"
    by blast
  moreover have "ether_rx dhcp_call (replicate 40 8) (length (replicate 40 (8 :: u8))) s' \<noteq> None"
    by (rule all [rule_format]) (simp add: numeral_eq_Suc)
  ultimately show ?thesis
    by (intro exI [of _ s']) simp
qed

end
