(* ===== verification/Ext3_Disk.thy ===== *)
theory Ext3_Disk
  imports Vm_Pmm Xk_Bytes Libkern_String
begin

text \<open>
  The lower half of the ext3 file system, bsd/ext3: sectors and blocks (disk.cpp), the superblock
  (superblock.cpp), the table of block groups (blk_group.cpp), inodes and the data of files (inode.cpp).
  A block device is a pair of functions, what its driver answers to a read and to a write. A buffer is
  the list of the bytes in it. A transfer that is larger than its destination, the use of bytes that
  nothing wrote, and a division by zero are \<open>Fault\<close>; a return of -1 is \<open>Fail\<close>.
\<close>

section \<open>Results\<close>

datatype 'a io = Fault | Fail | Ret 'a

primrec io_bind :: "'a io \<Rightarrow> ('a \<Rightarrow> 'b io) \<Rightarrow> 'b io" where
  "io_bind Fault f = Fault"
| "io_bind Fail f = Fail"
| "io_bind (Ret x) f = f x"

lemma io_bind_cong [fundef_cong]:
  "m = m' \<Longrightarrow> (\<And>x. m' = Ret x \<Longrightarrow> f x = g x) \<Longrightarrow> io_bind m f = io_bind m' g"
  by (cases m') simp_all

lemma io_bind_Ret_iff: "io_bind m f = Ret y \<longleftrightarrow> (\<exists>x. m = Ret x \<and> f x = Ret y)"
  by (cases m) simp_all

section \<open>Sectors and blocks\<close>

record block_dev =
  bd_read :: "u32 \<Rightarrow> u8 \<Rightarrow> u8 list option"
  bd_write :: "u32 \<Rightarrow> u8 \<Rightarrow> u8 list \<Rightarrow> bool"
  bd_block_size :: u32
  bd_block_count :: u32

record disk =
  d_dev :: "block_dev option"
  d_name :: cstr
  d_sector_size :: u32
  d_total_sectors :: u32
  d_open :: bool

definition disk_new :: disk where
  "disk_new = \<lparr>d_dev = None, d_name = [], d_sector_size = 512, d_total_sectors = 0, d_open = False\<rparr>"

text \<open>
  \<open>devfs_find\<close> looks a device up by its name. A name of 23 characters or more makes \<open>strncpy\<close> clear memory
  behind the field.
\<close>

definition disk_open :: "(cstr \<Rightarrow> block_dev option) \<Rightarrow> cstr \<Rightarrow> disk \<Rightarrow> unit io \<times> disk" where
  "disk_open devfs_find dev_name d =
     (case devfs_find dev_name of None \<Rightarrow> (Fail, d\<lparr>d_dev := None\<rparr>)
      | Some dev \<Rightarrow>
          (case strncpy_buf dev_name 23 of None \<Rightarrow> (Fault, d\<lparr>d_dev := Some dev\<rparr>)
           | Some name \<Rightarrow> (Ret (), \<lparr>d_dev = Some dev, d_name = name, d_sector_size = bd_block_size dev,
                              d_total_sectors = bd_block_count dev, d_open = True\<rparr>)))"

definition disk_close :: "disk \<Rightarrow> disk" where
  "disk_close d = d\<lparr>d_dev := None, d_open := False, d_name := []\<rparr>"

function read_batches :: "block_dev \<Rightarrow> u32 \<Rightarrow> nat \<Rightarrow> u8 list option" where
  "read_batches dev lba remaining =
     (if remaining = 0 then Some []
      else let batch = min 128 remaining
           in case bd_read dev lba (of_nat batch) of None \<Rightarrow> None
              | Some bs \<Rightarrow> map_option ((@) bs) (read_batches dev (lba + of_nat batch) (remaining - batch)))"
  by pat_completeness auto
termination
  by (relation "measure (\<lambda>(dev, lba, remaining). remaining)") auto

declare read_batches.simps [simp del]

text \<open>\<open>room\<close> is the size of the destination.\<close>

definition read_sectors :: "nat \<Rightarrow> disk \<Rightarrow> u32 \<Rightarrow> u32 \<Rightarrow> u8 list io" where
  "read_sectors room d lba cnt =
     (case (if d_open d then d_dev d else None) of None \<Rightarrow> Fail
      | Some dev \<Rightarrow>
          if d_total_sectors d < lba + cnt then Fail
          else if room < unat cnt * unat (d_sector_size d) then Fault
          else case read_batches dev lba (unat cnt) of None \<Rightarrow> Fail | Some bs \<Rightarrow> Ret bs)"

text \<open>Writing: the requests given to the driver, and whether all were accepted.\<close>

function write_batches :: "block_dev \<Rightarrow> nat \<Rightarrow> u32 \<Rightarrow> nat \<Rightarrow> u8 list \<Rightarrow> bool \<times> (u32 \<times> u8 list) list" where
  "write_batches dev ss lba remaining buf =
     (if remaining = 0 then (True, [])
      else let batch = min 128 remaining; bs = take (batch * ss) buf
           in if \<not> bd_write dev lba (of_nat batch) bs then (False, [(lba, bs)])
              else case write_batches dev ss (lba + of_nat batch) (remaining - batch) (drop (batch * ss) buf) of
                     (r, ws) \<Rightarrow> (r, (lba, bs) # ws))"
  by pat_completeness auto
termination
  by (relation "measure (\<lambda>(dev, ss, lba, remaining, buf). remaining)") auto

declare write_batches.simps [simp del]

definition write_sectors :: "disk \<Rightarrow> u32 \<Rightarrow> u32 \<Rightarrow> u8 list \<Rightarrow> int \<times> (u32 \<times> u8 list) list" where
  "write_sectors d lba cnt buf =
     (case (if d_open d then d_dev d else None) of None \<Rightarrow> (- 1, [])
      | Some dev \<Rightarrow>
          if d_total_sectors d < lba + cnt then (- 1, [])
          else case write_batches dev (unat (d_sector_size d)) lba (unat cnt) buf of (r, ws) \<Rightarrow> (if r then 0 else - 1, ws))"

definition read_blocks :: "nat \<Rightarrow> disk \<Rightarrow> u32 \<Rightarrow> u32 \<Rightarrow> u32 \<Rightarrow> u8 list io" where
  "read_blocks room d block_no cnt block_size =
     (if d_sector_size d = 0 then Fault
      else let spb = block_size div d_sector_size d in read_sectors room d (block_no * spb) (cnt * spb))"

definition read_block :: "nat \<Rightarrow> disk \<Rightarrow> u32 \<Rightarrow> u32 \<Rightarrow> u8 list io" where
  "read_block room d block_no block_size =
     (if d_sector_size d = 0 then Fault
      else let spb = block_size div d_sector_size d in read_sectors room d (block_no * spb) spb)"

section \<open>The superblock\<close>

abbreviation EXT3_MAGIC :: u16 where "EXT3_MAGIC \<equiv> 0xEF53"
abbreviation EXT3_MAX_BLOCK_SIZE :: nat where "EXT3_MAX_BLOCK_SIZE \<equiv> 65536"
abbreviation EXT3_DIRECT_BLOCKS :: nat where "EXT3_DIRECT_BLOCKS \<equiv> 12"
abbreviation EXT3_ROOT_INO :: u32 where "EXT3_ROOT_INO \<equiv> 2"
abbreviation PAGE_BYTES :: nat where "PAGE_BYTES \<equiv> 4096"

record superblock =
  s_inodes_count :: u32
  s_blocks_count :: u32
  s_first_data_block :: u32
  s_log_block_size :: u32
  s_blocks_per_group :: u32
  s_inodes_per_group :: u32
  s_magic :: u16
  s_rev_level :: u32
  s_first_ino :: u32
  s_inode_size :: u16
  s_feature_incompat :: u32
  sb_block_size :: u32
  sb_valid :: bool

definition sb_fields :: "u8 list \<Rightarrow> superblock \<Rightarrow> superblock" where
  "sb_fields b sb = sb\<lparr>s_inodes_count := get32 b 0, s_blocks_count := get32 b 4, s_first_data_block := get32 b 20,
     s_log_block_size := get32 b 24, s_blocks_per_group := get32 b 32, s_inodes_per_group := get32 b 40, s_magic := get16 b 56,
     s_rev_level := get32 b 76, s_first_ino := get32 b 84, s_inode_size := get16 b 88, s_feature_incompat := get32 b 96\<rparr>"

definition superblock_read :: "disk \<Rightarrow> superblock \<Rightarrow> unit io \<times> superblock" where
  "superblock_read d sb =
     (case read_sectors 1024 d 2 2 of Fault \<Rightarrow> (Fault, sb) | Fail \<Rightarrow> (Fail, sb)
      | Ret buf \<Rightarrow>
          if length buf < 264 then (Fault, sb)
          else let sb1 = sb_fields buf sb
               in if s_magic sb1 \<noteq> EXT3_MAGIC then (Fail, sb1\<lparr>sb_valid := False\<rparr>)
                  else if 32 \<le> s_log_block_size sb1 then (Fault, sb1)
                  else (Ret (), sb1\<lparr>sb_block_size := push_bit (unat (s_log_block_size sb1)) 1024, sb_valid := True\<rparr>))"

definition inode_size :: "superblock \<Rightarrow> u32" where
  "inode_size sb = (if 1 \<le> s_rev_level sb \<and> s_feature_incompat sb AND 0x80 \<noteq> 0 then ucast (s_inode_size sb) else 128)"

definition first_ino :: "superblock \<Rightarrow> u32" where
  "first_ino sb = (if 1 \<le> s_rev_level sb then s_first_ino sb else 11)"

definition groups_count :: "superblock \<Rightarrow> u32" where
  "groups_count sb =
     (let per = s_blocks_per_group sb
      in if per = 0 then 0 else (s_blocks_count sb - s_first_data_block sb + per - 1) div per)"

section \<open>Block groups\<close>

text \<open>The table: its frame and the bytes in it, and the number of groups.\<close>

record group_table =
  m_table :: "(u64 \<times> u8 list) option"
  m_count :: u32

abbreviation MAX_TABLE_GROUPS :: u32 where "MAX_TABLE_GROUPS \<equiv> 128"

definition bgt_read :: "disk \<Rightarrow> superblock \<Rightarrow> group_table \<Rightarrow> pmm \<Rightarrow> unit io \<times> group_table \<times> pmm" where
  "bgt_read d sb t pm =
     (let bs = sb_block_size sb; n = groups_count sb
      in if n = 0 then (Fail, t\<lparr>m_count := n\<rparr>, pm)
         else let n = (if MAX_TABLE_GROUPS < n then MAX_TABLE_GROUPS else n);
                  fsize = n * 32; t1 = t\<lparr>m_count := n\<rparr>;
                  (addr, pm1) = pmm_alloc pm
              in if addr = 0 then (Fail, t1, pm1)
                 else if bs = 0 then (Fault, t1, pm1)
                 else case read_blocks PAGE_BYTES d (s_first_data_block sb + 1) ((fsize + bs - 1) div bs) bs of
                        Fault \<Rightarrow> (Fault, t1, pm1)
                      | Fail \<Rightarrow> (Fail, t1\<lparr>m_table := None\<rparr>, pmm_free addr pm1)
                      | Ret bytes \<Rightarrow> (Ret (), t1\<lparr>m_table := Some (addr, splice 0 bytes (replicate PAGE_BYTES 0))\<rparr>, pm1))"

definition bgt_free :: "group_table \<Rightarrow> pmm \<Rightarrow> group_table \<times> pmm" where
  "bgt_free t pm =
     (case m_table t of None \<Rightarrow> (t\<lparr>m_count := 0\<rparr>, pm)
      | Some (addr, _) \<Rightarrow> (t\<lparr>m_table := None, m_count := 0\<rparr>, pmm_free addr pm))"

definition bgt_get :: "group_table \<Rightarrow> u32 \<Rightarrow> u8 list option" where
  "bgt_get t i = (if m_count t \<le> i then None else map_option (\<lambda>(_, bytes). drop (32 * unat i) bytes) (m_table t))"

definition block_bitmap :: "group_table \<Rightarrow> u32 \<Rightarrow> u32" where
  "block_bitmap t g = (case bgt_get t g of None \<Rightarrow> 0 | Some b \<Rightarrow> get32 b 0)"

definition inode_bitmap :: "group_table \<Rightarrow> u32 \<Rightarrow> u32" where
  "inode_bitmap t g = (case bgt_get t g of None \<Rightarrow> 0 | Some b \<Rightarrow> get32 b 4)"

definition inode_table :: "group_table \<Rightarrow> u32 \<Rightarrow> u32" where
  "inode_table t g = (case bgt_get t g of None \<Rightarrow> 0 | Some b \<Rightarrow> get32 b 8)"

definition free_blocks :: "group_table \<Rightarrow> u32 \<Rightarrow> u16" where
  "free_blocks t g = (case bgt_get t g of None \<Rightarrow> 0 | Some b \<Rightarrow> get16 b 12)"

definition free_inodes :: "group_table \<Rightarrow> u32 \<Rightarrow> u16" where
  "free_inodes t g = (case bgt_get t g of None \<Rightarrow> 0 | Some b \<Rightarrow> get16 b 14)"

definition dirs_count :: "group_table \<Rightarrow> u32 \<Rightarrow> u16" where
  "dirs_count t g = (case bgt_get t g of None \<Rightarrow> 0 | Some b \<Rightarrow> get16 b 16)"

section \<open>Inodes\<close>

record inode =
  i_mode :: u16
  i_uid :: u16
  i_size :: u32
  i_atime :: u32
  i_ctime :: u32
  i_mtime :: u32
  i_dtime :: u32
  i_gid :: u16
  i_links_count :: u16
  i_blocks :: u32
  i_flags :: u32
  i_block :: "u32 list"
  i_number :: u32

text \<open>The 124 bytes of the packed structure, without the fields behind the block pointers.\<close>

definition inode_disk :: "u8 list \<Rightarrow> u32 \<Rightarrow> inode" where
  "inode_disk b n = \<lparr>i_mode = get16 b 0, i_uid = get16 b 2, i_size = get32 b 4, i_atime = get32 b 8, i_ctime = get32 b 12,
     i_mtime = get32 b 16, i_dtime = get32 b 20, i_gid = get16 b 24, i_links_count = get16 b 26, i_blocks = get32 b 28,
     i_flags = get32 b 32, i_block = map (\<lambda>k. get32 b (36 + 4 * k)) [0..<15], i_number = n\<rparr>"

definition is_dir :: "inode \<Rightarrow> bool" where
  "is_dir ino \<longleftrightarrow> i_mode ino AND 0xF000 = 0x4000"

definition read_from_disk :: "disk \<Rightarrow> superblock \<Rightarrow> group_table \<Rightarrow> u32 \<Rightarrow> inode io" where
  "read_from_disk d sb t inode_no =
     (if inode_no = 0 then Fail
      else if s_inodes_per_group sb = 0 then Fault
      else let group = (inode_no - 1) div s_inodes_per_group sb; index = (inode_no - 1) mod s_inodes_per_group sb;
               table = inode_table t group; off = index * inode_size sb; bs = sb_block_size sb
           in if table = 0 then Fail
              else if bs = 0 then Fault
              else io_bind (read_block EXT3_MAX_BLOCK_SIZE d (table + off div bs) bs)
                     (\<lambda>buf. if length buf < unat (off mod bs) + 124 then Fault
                            else Ret (inode_disk (drop (unat (off mod bs)) buf) inode_no)))"

definition block_addr :: "inode \<Rightarrow> u32 \<Rightarrow> u32" where
  "block_addr ino logical = (if logical < 12 then i_block ino ! unat logical else 0)"

text \<open>The physical block of a logical block, 0 for none, and the bytes copied from it.\<close>

definition phys_block :: "disk \<Rightarrow> u32 \<Rightarrow> inode \<Rightarrow> u32 \<Rightarrow> u32 io" where
  "phys_block d bs ino logical =
     (if logical < 12 then Ret (i_block ino ! unat logical)
      else if logical < 12 + bs div 4
      then if i_block ino ! EXT3_DIRECT_BLOCKS = 0 then Ret 0
           else io_bind (read_block EXT3_MAX_BLOCK_SIZE d (i_block ino ! EXT3_DIRECT_BLOCKS) bs)
                  (\<lambda>ind. let i = 4 * unat (logical - 12) in if length ind < i + 4 then Fault else Ret (get32 ind i))
      else Ret 0)"

definition copy_block :: "disk \<Rightarrow> u32 \<Rightarrow> u32 \<Rightarrow> nat \<Rightarrow> nat \<Rightarrow> u8 list io" where
  "copy_block d bs phys off n =
     (if phys = 0 then Ret (replicate n 0)
      else io_bind (read_block EXT3_MAX_BLOCK_SIZE d phys bs)
             (\<lambda>tmp. if length tmp < off + n then Fault else Ret (take n (drop off tmp))))"

definition to_copy :: "u32 \<Rightarrow> u32 \<Rightarrow> u32 \<Rightarrow> u32 \<Rightarrow> u32" where
  "to_copy bs fsize file_off left =
     (let c = bs - file_off mod bs;
          c = (if left < c then left else c)
      in if fsize - file_off < c then fsize - file_off else c)"

lemma to_copy_unat:
  assumes "bs \<noteq> 0" "file_off < fsize" "0 < left"
  shows "unat (to_copy bs fsize file_off left) =
    min (min (unat bs - unat file_off mod unat bs) (unat left)) (unat fsize - unat file_off)"
    "0 < unat (to_copy bs fsize file_off left)"
proof -
  have b: "0 < unat bs"
    using assms(1) by (simp add: unat_gt_0)
  have m: "unat (file_off mod bs) = unat file_off mod unat bs"
    by (simp add: unat_mod)
  have "file_off mod bs \<le> bs"
    unfolding word_le_nat_alt m using mod_less_divisor [OF b, of "unat file_off"] by simp
  then have c: "unat (bs - file_off mod bs) = unat bs - unat file_off mod unat bs"
    by (simp add: unat_sub m)
  have s: "unat (fsize - file_off) = unat fsize - unat file_off" "unat file_off < unat fsize"
    using assms(2) unat_sub [OF less_imp_le [OF assms(2)]] by (simp_all add: word_less_nat_alt)
  have l: "0 < unat left"
    using assms(3) by (simp add: word_less_nat_alt)
  show e: "unat (to_copy bs fsize file_off left) =
      min (min (unat bs - unat file_off mod unat bs) (unat left)) (unat fsize - unat file_off)"
    by (simp add: to_copy_def Let_def word_less_nat_alt c s(1) min_def)
  show "0 < unat (to_copy bs fsize file_off left)"
    unfolding e using mod_less_divisor [OF b, of "unat file_off"] s(2) l by simp
qed

lemma read_data_progress:
  assumes "bs \<noteq> 0" "bytes_read < len" "file_off < fsize"
  shows "unat (bytes_read + to_copy bs fsize file_off (len - bytes_read)) =
      unat bytes_read + unat (to_copy bs fsize file_off (len - bytes_read))"
    "unat (bytes_read + to_copy bs fsize file_off (len - bytes_read)) \<le> unat len"
    "unat len - unat (bytes_read + to_copy bs fsize file_off (len - bytes_read)) < unat len - unat bytes_read"
proof -
  have r: "unat bytes_read < unat len" "unat (len - bytes_read) = unat len - unat bytes_read"
    using assms(2) unat_sub [OF less_imp_le [OF assms(2)]] by (simp_all add: word_less_nat_alt)
  then have "0 < len - bytes_read"
    by (simp add: word_less_nat_alt)
  note c = to_copy_unat [OF assms(1,3) this]
  have le: "unat (to_copy bs fsize file_off (len - bytes_read)) \<le> unat len - unat bytes_read"
    unfolding c(1) r(2) by simp
  then have "unat bytes_read + unat (to_copy bs fsize file_off (len - bytes_read)) < 2 ^ 32"
    using r(1) unsigned_less [of len, where ?'a = nat] by simp
  then show e: "unat (bytes_read + to_copy bs fsize file_off (len - bytes_read)) =
      unat bytes_read + unat (to_copy bs fsize file_off (len - bytes_read))"
    by (simp add: unat_word_ariths)
  show "unat (bytes_read + to_copy bs fsize file_off (len - bytes_read)) \<le> unat len"
    "unat len - unat (bytes_read + to_copy bs fsize file_off (len - bytes_read)) < unat len - unat bytes_read"
    unfolding e using le c(2) r(1) by linarith+
qed

function read_data_loop :: "disk \<Rightarrow> u32 \<Rightarrow> inode \<Rightarrow> u32 \<Rightarrow> u32 \<Rightarrow> u32 \<Rightarrow> u8 list \<Rightarrow> u8 list io" where
  "read_data_loop d bs ino offset len bytes_read out =
     (if bytes_read < len \<and> offset + bytes_read < i_size ino
      then if bs = 0 then Fault
           else let file_off = offset + bytes_read;
                    n = to_copy bs (i_size ino) file_off (len - bytes_read)
                in io_bind (io_bind (phys_block d bs ino (file_off div bs)) (\<lambda>phys. copy_block d bs phys (unat (file_off mod bs)) (unat n)))
                     (\<lambda>part. read_data_loop d bs ino offset len (bytes_read + n) (out @ part))
      else Ret out)"
  by pat_completeness auto
termination
  by (relation "measure (\<lambda>(d, bs, ino, offset, len, bytes_read, out). unat len - unat bytes_read)")
    (simp_all add: read_data_progress(3))

declare read_data_loop.simps [simp del]

definition read_data :: "disk \<Rightarrow> superblock \<Rightarrow> inode \<Rightarrow> u32 \<Rightarrow> u32 \<Rightarrow> u8 list io" where
  "read_data d sb ino offset len = read_data_loop d (sb_block_size sb) ino offset len 0 []"

lemma copy_block_length: "copy_block d bs phys off n = Ret r \<Longrightarrow> length r = n"
  by (auto simp: copy_block_def io_bind_Ret_iff split: if_splits)

lemma read_data_loop_length:
  assumes "read_data_loop d bs ino offset len bytes_read out = Ret r" "length out = unat bytes_read" "bytes_read \<le> len"
  shows "length r \<le> unat len"
  using assms
proof (induction d bs ino offset len bytes_read out rule: read_data_loop.induct)
  case (1 d bs ino offset len bytes_read out)
  show ?case
  proof (cases "bytes_read < len \<and> offset + bytes_read < i_size ino")
    case True
    let ?fo = "offset + bytes_read"
    let ?n = "to_copy bs (i_size ino) ?fo (len - bytes_read)"
    have bs: "bs \<noteq> 0"
      using "1.prems"(1) True by (subst (asm) read_data_loop.simps) (auto split: if_splits)
    note p = read_data_progress [OF bs conjunct1 [OF True] conjunct2 [OF True]]
    obtain part where part: "io_bind (phys_block d bs ino (?fo div bs)) (\<lambda>phys. copy_block d bs phys (unat (?fo mod bs)) (unat ?n)) = Ret part"
        "read_data_loop d bs ino offset len (bytes_read + ?n) (out @ part) = Ret r"
      using "1.prems"(1) True bs by (subst (asm) read_data_loop.simps) (auto simp: Let_def io_bind_Ret_iff)
    have "length part = unat ?n"
      using part(1) copy_block_length by (auto simp: io_bind_Ret_iff)
    then have "length (out @ part) = unat (bytes_read + ?n)" "bytes_read + ?n \<le> len"
      using p(1,2) "1.prems"(2) by (simp_all add: word_le_nat_alt)
    from "1.IH" [OF True bs refl refl part this] show ?thesis .
  next
    case False
    have "read_data_loop d bs ino offset len bytes_read out = Ret out"
      by (subst read_data_loop.simps) (rule if_not_P [OF False])
    then show ?thesis
      using "1.prems" by (simp add: word_le_nat_alt)
  qed
qed

end
