(* ===== verification/Ext3_File.thy ===== *)
theory Ext3_File
  imports Ext3_Disk
begin

text \<open>
  What reading a file returns, against the contents of the disk as one list of bytes.
\<close>

section \<open>A disk that works\<close>

text \<open>
  What the file system relies on from the driver of an open disk: a request inside the disk returns the
  bytes that are there.
\<close>

definition disk_img :: "disk \<Rightarrow> u8 list \<Rightarrow> bool" where
  "disk_img d img \<longleftrightarrow> d_open d \<and> d_sector_size d \<noteq> 0 \<and> length img = unat (d_total_sectors d) * unat (d_sector_size d) \<and>
     (\<exists>dev. d_dev d = Some dev \<and> (\<forall>lba n. unat lba + unat n \<le> unat (d_total_sectors d) \<longrightarrow>
        bd_read dev lba n = Some (take (unat n * unat (d_sector_size d)) (drop (unat lba * unat (d_sector_size d)) img))))"

lemma read_batches_img:
  assumes dev: "\<And>lba n. unat lba + unat n \<le> tot \<Longrightarrow> bd_read dev lba n = Some (take (unat n * ss) (drop (unat lba * ss) img))"
    and tot: "tot < 2 ^ 32"
  shows "unat lba + r \<le> tot \<Longrightarrow> read_batches dev lba r = Some (take (r * ss) (drop (unat lba * ss) img))"
proof (induction r arbitrary: lba rule: less_induct)
  case (less r)
  show ?case
  proof (cases "r = 0")
    case True
    then show ?thesis by (simp add: read_batches.simps)
  next
    case False
    let ?b = "min 128 r"
    have b8: "unat (of_nat ?b :: u8) = ?b"
      by (simp add: unat_of_nat)
    have "?b < 2 ^ 32" "unat lba + ?b < 2 ^ 32"
      using less.prems tot by auto
    then have l: "unat (lba + of_nat ?b) = unat lba + ?b"
      by (simp add: unat_word_ariths unat_of_nat)
    have "unat (lba + of_nat ?b) + (r - ?b) \<le> tot" "r - ?b < r"
      using less.prems False by (auto simp: l)
    then have "read_batches dev (lba + of_nat ?b) (r - ?b) =
        Some (take ((r - ?b) * ss) (drop (unat (lba + of_nat ?b) * ss) img))"
      using less.IH by blast
    moreover have "bd_read dev lba (of_nat ?b) = Some (take (?b * ss) (drop (unat lba * ss) img))"
      using dev [of lba "of_nat ?b"] less.prems by (simp add: b8)
    moreover have "take (?b * ss) (drop (unat lba * ss) img) @ take ((r - ?b) * ss) (drop ((unat lba + ?b) * ss) img) =
        take (r * ss) (drop (unat lba * ss) img)"
    proof -
      have "r * ss = ?b * ss + (r - ?b) * ss" "(unat lba + ?b) * ss = ?b * ss + unat lba * ss"
        by (simp_all flip: add_mult_distrib)
      then show ?thesis
        by (simp only: take_add drop_drop)
    qed
    ultimately show ?thesis
      using False by (subst read_batches.simps) (simp add: Let_def l)
  qed
qed

lemma read_sectors_img:
  assumes "disk_img d img" "unat lba + unat n \<le> unat (d_total_sectors d)" "unat n * unat (d_sector_size d) \<le> room"
  shows "read_sectors room d lba n =
    Ret (take (unat n * unat (d_sector_size d)) (drop (unat lba * unat (d_sector_size d)) img))"
proof -
  obtain dev where dev: "d_dev d = Some dev" "\<And>lba n. unat lba + unat n \<le> unat (d_total_sectors d) \<Longrightarrow>
        bd_read dev lba n = Some (take (unat n * unat (d_sector_size d)) (drop (unat lba * unat (d_sector_size d)) img))"
    using assms(1) by (auto simp: disk_img_def)
  have t: "unat (d_total_sectors d) < 2 ^ 32"
    using unsigned_less [of "d_total_sectors d", where ?'a = nat] by simp
  then have "unat (lba + n) = unat lba + unat n"
    using assms(2) by (simp add: unat_word_ariths)
  then have "\<not> d_total_sectors d < lba + n"
    using assms(2) by (simp add: word_less_nat_alt)
  moreover have "d_open d"
    using assms(1) by (simp add: disk_img_def)
  ultimately show ?thesis
    using read_batches_img [OF dev(2) t assms(2)] dev(1) assms(3) by (simp add: read_sectors_def)
qed

definition img_block :: "u8 list \<Rightarrow> nat \<Rightarrow> nat \<Rightarrow> u8 list" where
  "img_block img bs n = take bs (drop (n * bs) img)"

lemma read_block_img:
  assumes "disk_img d img" "unat (d_sector_size d) dvd unat bs" "(unat n + 1) * unat bs \<le> length img" "unat bs \<le> room"
  shows "read_block room d n bs = Ret (img_block img (unat bs) (unat n))"
proof -
  let ?ss = "unat (d_sector_size d)" and ?tot = "unat (d_total_sectors d)"
  have ss: "d_sector_size d \<noteq> 0" "0 < ?ss" and img: "length img = ?tot * ?ss"
    using assms(1) by (simp_all add: disk_img_def unat_gt_0)
  obtain k where k: "unat bs = ?ss * k"
    using assms(2) ..
  have spb: "unat (bs div d_sector_size d) = k"
    using ss by (simp add: unat_div k)
  have "((unat n + 1) * k) * ?ss \<le> ?tot * ?ss"
    using assms(3) unfolding k img by (simp only: mult.assoc mult.commute [of k])
  then have "(unat n + 1) * k \<le> ?tot"
    using ss(2) by (simp only: mult_le_cancel2)
  then have le: "unat n * k + k \<le> ?tot"
    by simp
  then have "unat n * k < 2 ^ 32"
    using unsigned_less [of "d_total_sectors d", where ?'a = nat] by simp
  then have l: "unat (n * (bs div d_sector_size d)) = unat n * k"
    by (simp only: unat_word_ariths(2) spb) simp
  have "read_sectors room d (n * (bs div d_sector_size d)) (bs div d_sector_size d) =
      Ret (take (k * ?ss) (drop (unat n * k * ?ss) img))"
    using read_sectors_img [OF assms(1), of "n * (bs div d_sector_size d)" "bs div d_sector_size d" room] le assms(4)
    by (simp add: l spb k mult.commute)
  then show ?thesis
    using ss by (simp add: read_block_def Let_def img_block_def k mult_ac)
qed

section \<open>The contents of a file\<close>

text \<open>
  The meaning of an inode in ext3: twelve blocks, and the leaves of trees of depth one, two and three whose nodes are
  blocks of block numbers. Block number 0 is a hole.
\<close>

fun tree_ptr :: "u8 list \<Rightarrow> nat \<Rightarrow> nat \<Rightarrow> u32 \<Rightarrow> nat \<Rightarrow> u32" where
  "tree_ptr img bs 0 p k = p"
| "tree_ptr img bs (Suc h) p k =
     (let n = (bs div 4) ^ h
      in if p = 0 then 0 else tree_ptr img bs h (get32 (img_block img bs (unat p)) (4 * (k div n))) (k mod n))"

definition ext3_ptr :: "u8 list \<Rightarrow> nat \<Rightarrow> inode \<Rightarrow> nat \<Rightarrow> u32" where
  "ext3_ptr img bs ino lb =
     (let n = bs div 4
      in if lb < 12 then i_block ino ! lb
         else if lb < 12 + n then tree_ptr img bs 1 (i_block ino ! 12) (lb - 12)
         else if lb < 12 + n + n ^ 2 then tree_ptr img bs 2 (i_block ino ! 13) (lb - 12 - n)
         else if lb < 12 + n + n ^ 2 + n ^ 3 then tree_ptr img bs 3 (i_block ino ! 14) (lb - 12 - n - n ^ 2)
         else 0)"

definition ext3_block :: "u8 list \<Rightarrow> nat \<Rightarrow> inode \<Rightarrow> nat \<Rightarrow> u8 list" where
  "ext3_block img bs ino lb =
     (let p = ext3_ptr img bs ino lb in if p = 0 then replicate bs 0 else img_block img bs (unat p))"

definition ext3_bytes :: "u8 list \<Rightarrow> nat \<Rightarrow> inode \<Rightarrow> u8 list" where
  "ext3_bytes img bs ino =
     take (unat (i_size ino)) (concat (map (ext3_block img bs ino) [0..<unat (i_size ino) div bs + 1]))"

text \<open>The part of it the kernel knows: everything behind the first indirect block is a hole.\<close>

definition file_ptr :: "u8 list \<Rightarrow> nat \<Rightarrow> inode \<Rightarrow> nat \<Rightarrow> u32" where
  "file_ptr img bs ino lb = (if lb < 12 + bs div 4 then ext3_ptr img bs ino lb else 0)"

lemma file_ptr_cases:
  "file_ptr img bs ino lb =
     (if lb < EXT3_DIRECT_BLOCKS then i_block ino ! lb
      else if lb < EXT3_DIRECT_BLOCKS + bs div 4 \<and> i_block ino ! EXT3_DIRECT_BLOCKS \<noteq> 0
      then get32 (img_block img bs (unat (i_block ino ! EXT3_DIRECT_BLOCKS))) (4 * (lb - EXT3_DIRECT_BLOCKS))
      else 0)"
  by (simp add: file_ptr_def ext3_ptr_def Let_def)

definition file_block :: "u8 list \<Rightarrow> nat \<Rightarrow> inode \<Rightarrow> nat \<Rightarrow> u8 list" where
  "file_block img bs ino lb =
     (let p = file_ptr img bs ino lb in if p = 0 then replicate bs 0 else img_block img bs (unat p))"

definition file_bytes :: "u8 list \<Rightarrow> nat \<Rightarrow> inode \<Rightarrow> u8 list" where
  "file_bytes img bs ino =
     take (unat (i_size ino)) (concat (map (file_block img bs ino) [0..<unat (i_size ino) div bs + 1]))"

text \<open>All blocks a file uses are on the disk.\<close>

definition block_in :: "u8 list \<Rightarrow> nat \<Rightarrow> u32 \<Rightarrow> bool" where
  "block_in img bs p \<longleftrightarrow> p = 0 \<or> (unat p + 1) * bs \<le> length img"

definition inode_ok :: "u8 list \<Rightarrow> nat \<Rightarrow> inode \<Rightarrow> bool" where
  "inode_ok img bs ino \<longleftrightarrow> block_in img bs (i_block ino ! EXT3_DIRECT_BLOCKS) \<and>
     (\<forall>lb \<le> unat (i_size ino) div bs. block_in img bs (file_ptr img bs ino lb))"

definition fs_geometry :: "disk \<Rightarrow> u32 \<Rightarrow> bool" where
  "fs_geometry d bs \<longleftrightarrow> bs \<noteq> 0 \<and> unat bs \<le> EXT3_MAX_BLOCK_SIZE \<and> 4 dvd unat bs \<and> unat (d_sector_size d) dvd unat bs"

lemma length_img_block: "(n + 1) * bs \<le> length img \<Longrightarrow> length (img_block img bs n) = bs"
  by (simp add: img_block_def)

lemma length_file_block: "block_in img bs (file_ptr img bs ino lb) \<Longrightarrow> length (file_block img bs ino lb) = bs"
  using length_img_block [of "unat (file_ptr img bs ino lb)" bs img] by (auto simp: file_block_def Let_def block_in_def)

lemma phys_block_img:
  assumes "disk_img d img" "fs_geometry d bs" "block_in img (unat bs) (i_block ino ! EXT3_DIRECT_BLOCKS)"
  shows "phys_block d bs ino lb = Ret (file_ptr img (unat bs) ino (unat lb))"
proof -
  have bs: "4 dvd unat bs" "unat bs \<le> 65536"
    using assms(2) by (simp_all add: fs_geometry_def)
  have "unat (12 + bs div 4) = 12 + unat bs div 4"
    using bs(2) by (simp add: unat_word_ariths unat_div)
  then have c: "(lb < 12 + bs div 4) = (unat lb < 12 + unat bs div 4)" "(lb < 12) = (unat lb < 12)"
    by (simp_all add: word_less_nat_alt)
  show ?thesis
  proof (cases "\<not> unat lb < 12 \<and> unat lb < 12 + unat bs div 4 \<and> i_block ino ! EXT3_DIRECT_BLOCKS \<noteq> 0")
    case True
    let ?p = "i_block ino ! EXT3_DIRECT_BLOCKS"
    have r: "(unat ?p + 1) * unat bs \<le> length img"
      using assms(3) True by (simp add: block_in_def)
    have "12 \<le> lb"
      using True by (simp add: word_le_nat_alt)
    then have i: "unat (lb - 12) = unat lb - 12"
      by (simp add: unat_sub)
    have "4 * (unat lb - 12) + 4 \<le> unat bs"
      using True bs(1) by auto
    then show ?thesis
      using True c read_block_img [OF assms(1) _ r] assms(2) r
      by (simp add: phys_block_def file_ptr_cases fs_geometry_def i Let_def length_img_block)
  next
    case False
    then show ?thesis
      by (auto simp: phys_block_def file_ptr_cases c)
  qed
qed

lemma copy_block_img:
  assumes "disk_img d img" "fs_geometry d bs" "block_in img (unat bs) p" "off + n \<le> unat bs"
  shows "copy_block d bs p off n =
    Ret (take n (drop off (if p = 0 then replicate (unat bs) 0 else img_block img (unat bs) (unat p))))"
proof (cases "p = 0")
  case True
  then show ?thesis
    using assms(4) by (simp add: copy_block_def)
next
  case False
  then have r: "(unat p + 1) * unat bs \<le> length img"
    using assms(3) by (simp add: block_in_def)
  then show ?thesis
    using False read_block_img [OF assms(1) _ r] assms(2,4)
    by (simp add: copy_block_def fs_geometry_def length_img_block)
qed

lemma concat_blocks_part:
  assumes "\<And>k. k < m \<Longrightarrow> length (f k) = bs" "lb < m" "off + n \<le> bs"
  shows "take n (drop (lb * bs + off) (concat (map f [0..<m]))) = take n (drop off (f lb))"
proof -
  have len: "length (concat (map f [0..<k])) = k * bs" if "k \<le> m" for k
    using that assms(1) by (induction k) simp_all
  have "[0..<m] = [0..<lb] @ lb # [Suc lb..<m]"
    using assms(2) upt_add_eq_append [of 0 lb "m - lb"] upt_conv_Cons by simp
  then have "concat (map f [0..<m]) = concat (map f [0..<lb]) @ f lb @ concat (map f [Suc lb..<m])"
    by simp
  then show ?thesis
    using len [of lb] assms by (simp add: add.commute)
qed

lemma file_part:
  assumes "inode_ok img bs ino" "0 < bs" "o' < unat (i_size ino)" "o' mod bs + n \<le> bs" "o' + n \<le> unat (i_size ino)"
  shows "take n (drop o' (file_bytes img bs ino)) = take n (drop (o' mod bs) (file_block img bs ino (o' div bs)))"
proof -
  let ?m = "unat (i_size ino) div bs + 1"
  let ?c = "concat (map (file_block img bs ino) [0..<?m])"
  have "o' div bs < ?m"
    using div_le_mono [OF less_imp_le [OF assms(3)], of bs] by linarith
  moreover have "length (file_block img bs ino k) = bs" if "k < ?m" for k
    using assms(1) that by (intro length_file_block) (simp add: inode_ok_def)
  ultimately have "take n (drop (o' div bs * bs + o' mod bs) ?c) = take n (drop (o' mod bs) (file_block img bs ino (o' div bs)))"
    using assms(4) by (intro concat_blocks_part)
  moreover have "take n (drop o' (file_bytes img bs ino)) = take n (drop o' ?c)"
  proof -
    have "min n (unat (i_size ino) - o') = n"
      using assms(5) by linarith
    then show ?thesis
      unfolding file_bytes_def drop_take take_take by (rule arg_cong)
  qed
  ultimately show ?thesis
    unfolding div_mult_mod_eq by (rule trans [rotated])
qed

lemma length_file_bytes:
  assumes "inode_ok img bs ino" "0 < bs"
  shows "length (file_bytes img bs ino) = unat (i_size ino)"
proof -
  let ?m = "unat (i_size ino) div bs + 1"
  have "length (file_block img bs ino k) = bs" if "k < ?m" for k
    using assms(1) that by (intro length_file_block) (simp add: inode_ok_def)
  then have "length (concat (map (file_block img bs ino) [0..<k])) = k * bs" if "k \<le> ?m" for k
    using that by (induction k) simp_all
  then have "length (concat (map (file_block img bs ino) [0..<?m])) = ?m * bs"
    by blast
  moreover have "unat (i_size ino) \<le> ?m * bs"
    using dividend_less_div_times [OF assms(2), of "unat (i_size ino)"] by simp
  ultimately show ?thesis
    unfolding file_bytes_def length_take by (simp only: min_absorb2)
qed

lemma read_data_loop_img:
  assumes "disk_img d img" "fs_geometry d bs" "inode_ok img (unat bs) ino"
  defines "F \<equiv> file_bytes img (unat bs) ino"
  shows "bytes_read \<le> len \<Longrightarrow> out = take (unat bytes_read) (drop (unat offset) F) \<Longrightarrow>
    bytes_read = 0 \<or> unat offset + unat bytes_read \<le> unat (i_size ino) \<Longrightarrow>
    read_data_loop d bs ino offset len bytes_read out = Ret (take (unat len) (drop (unat offset) F))"
proof (induction "unat len - unat bytes_read" arbitrary: bytes_read out rule: less_induct)
  case less
  let ?fo = "offset + bytes_read" and ?S = "unat (i_size ino)"
  have bs: "bs \<noteq> 0" "0 < unat bs"
    using assms(2) by (simp_all add: fs_geometry_def unat_gt_0)
  have F: "length F = ?S"
    unfolding F_def by (rule length_file_bytes [OF assms(3) bs(2)])
  have lt: "unat offset + unat bytes_read < 2 ^ 32"
    using less.prems(3) unsigned_less [of "i_size ino", where ?'a = nat] unsigned_less [of offset, where ?'a = nat] by auto
  then have fo: "unat ?fo = unat offset + unat bytes_read"
    by (simp add: unat_word_ariths)
  show ?case
  proof (cases "bytes_read < len \<and> ?fo < i_size ino")
    case True
    let ?n = "to_copy bs (i_size ino) ?fo (len - bytes_read)"
    let ?part = "take (unat ?n) (drop (unat ?fo) F)"
    have c: "bytes_read < len" "?fo < i_size ino" "0 < len - bytes_read" "unat ?fo < ?S"
      using True unat_sub [OF less.prems(1)] by (auto simp: word_less_nat_alt)
    note n = to_copy_unat [OF bs(1) c(2,3)] and p = read_data_progress [OF bs(1) c(1,2)]
    have n1: "unat ?fo mod unat bs + unat ?n \<le> unat bs" "unat ?fo + unat ?n \<le> ?S"
      unfolding n(1) using mod_less_divisor [OF bs(2), of "unat ?fo"] c(4) by simp_all
    have ok: "block_in img (unat bs) (i_block ino ! EXT3_DIRECT_BLOCKS)"
      "block_in img (unat bs) (file_ptr img (unat bs) ino (unat ?fo div unat bs))"
      using assms(3) div_le_mono [OF less_imp_le [OF c(4)], of "unat bs"] by (simp_all add: inode_ok_def)
    have "io_bind (phys_block d bs ino (?fo div bs)) (\<lambda>phys. copy_block d bs phys (unat (?fo mod bs)) (unat ?n)) =
        Ret (take (unat ?n) (drop (unat ?fo mod unat bs) (file_block img (unat bs) ino (unat ?fo div unat bs))))"
      unfolding phys_block_img [OF assms(1,2) ok(1)] io_bind.simps unat_div unat_mod
      by (subst copy_block_img [OF assms(1,2) ok(2) n1(1)]) (simp only: file_block_def Let_def)
    also have "\<dots> = Ret ?part"
      unfolding F_def by (subst file_part [OF assms(3) bs(2) c(4) n1]) (rule refl)
    finally have step: "read_data_loop d bs ino offset len bytes_read out =
        read_data_loop d bs ino offset len (bytes_read + ?n) (out @ ?part)"
      using True bs(1) by (subst read_data_loop.simps) (simp add: Let_def)
    have "out @ ?part = take (unat (bytes_read + ?n)) (drop (unat offset) F)"
      unfolding p(1) fo less.prems(2) take_add drop_drop by (simp only: add.commute)
    then show ?thesis
      unfolding step using p(1,2) n1(2) fo by (intro less.hyps p(3)) (simp_all add: word_le_nat_alt)
  next
    case False
    have "take (unat bytes_read) (drop (unat offset) F) = take (unat len) (drop (unat offset) F)"
    proof (cases "bytes_read < len")
      case True
      then have "?S \<le> unat offset + unat bytes_read" "unat bytes_read \<le> unat len"
        using False fo by (simp_all add: word_less_nat_alt)
      then show ?thesis
        using F by simp
    qed (use less.prems(1) in simp)
    moreover have "read_data_loop d bs ino offset len bytes_read out = Ret out"
      by (subst read_data_loop.simps) (rule if_not_P [OF False])
    ultimately show ?thesis
      using less.prems(2) by simp
  qed
qed

lemma read_data_file:
  assumes "disk_img d img" "fs_geometry d (sb_block_size sb)" "inode_ok img (unat (sb_block_size sb)) ino"
  shows "read_data d sb ino offset len =
    Ret (take (unat len) (drop (unat offset) (file_bytes img (unat (sb_block_size sb)) ino)))"
  unfolding read_data_def by (rule read_data_loop_img [OF assms]) simp_all

lemma concat_replicates: "concat (map (\<lambda>_. replicate bs x) [a..<b]) = replicate ((b - a) * bs) x"
  by (induction b) (simp_all add: Suc_diff_le replicate_add [symmetric] add.commute)

lemma file_bytes_ext3:
  assumes "inode_ok img bs ino" "0 < bs"
  defines "R \<equiv> (12 + bs div 4) * bs"
  shows "file_bytes img bs ino = take R (ext3_bytes img bs ino) @ replicate (unat (i_size ino) - R) 0"
proof -
  let ?S = "unat (i_size ino)" and ?K = "12 + bs div 4" and ?f = "file_block img bs ino" and ?e = "ext3_block img bs ino"
  let ?m = "?S div bs + 1"
  have same: "map ?f [0..<k] = map ?e [0..<k]" if "k \<le> ?K" for k
    using that by (simp add: file_block_def ext3_block_def file_ptr_def)
  have m: "?S < ?m * bs" "(?m - 1) * bs \<le> ?S"
    using dividend_less_div_times [OF assms(2), of ?S] by simp_all
  show ?thesis
  proof (cases "?m \<le> ?K")
    case True
    then have "?m * bs \<le> R"
      unfolding R_def by (rule mult_le_mono1)
    then have "?S \<le> R"
      using m(1) by linarith
    then show ?thesis
      unfolding file_bytes_def ext3_bytes_def same [OF True] by (simp add: min_absorb2)
  next
    case False
    let ?A = "concat (map ?f [0..<?K])"
    have split: "[0..<?m] = [0..<?K] @ [?K..<?m]"
      using False upt_add_eq_append [of 0 ?K "?m - ?K"] by simp
    have "length (?f k) = bs" if "k < ?K" for k
      using assms(1) that False by (intro length_file_block) (simp add: inode_ok_def)
    then have "length (concat (map ?f [0..<k])) = k * bs" if "k \<le> ?K" for k
      using that by (induction k) simp_all
    then have A: "length ?A = R"
      unfolding R_def by blast
    have "?K * bs \<le> (?m - 1) * bs"
      using False by (intro mult_le_mono1) simp
    then have R: "R \<le> ?S"
      using m(2) unfolding R_def by linarith
    have z: "map ?f [?K..<?m] = map (\<lambda>_. replicate bs 0) [?K..<?m]"
      by (simp add: file_block_def file_ptr_def)
    have c: "concat (map ?f [0..<?m]) = ?A @ replicate ((?m - ?K) * bs) 0"
      by (simp only: split map_append concat_append z concat_replicates)
    have "?S - R \<le> (?m - ?K) * bs"
      unfolding R_def diff_mult_distrib using m(1) by (intro diff_le_mono) (rule less_imp_le)
    then have "take (?S - R) (replicate ((?m - ?K) * bs) 0) = replicate (?S - R) (0 :: u8)"
      unfolding take_replicate by (simp only: min_absorb1)
    then have "file_bytes img bs ino = ?A @ replicate (?S - R) 0"
      unfolding file_bytes_def c take_append A using take_all [of ?A ?S] R A by (simp only: A)
    moreover have "take R (ext3_bytes img bs ino) = ?A"
      unfolding ext3_bytes_def split map_append concat_append same [OF order_refl, symmetric] take_take
      using R A by (simp add: min_absorb1)
    ultimately show ?thesis
      by simp
  qed
qed

text \<open>
  C22. Reading a file returns its bytes. Take a disk whose driver returns what is stored, with blocks of up to 64 KB, and
  an inode whose first twelve blocks, indirect block and blocks in it are on the disk. Then \<open>read_data\<close>
  returns for every offset and length exactly that part of the file that ext3 stores under the inode
  (direct blocks, and trees of depth one to three, with zeros for holes, cut at the size), as far as the part lies in
  the first 12 blocks and those of the indirect block, as it does for every file that is not larger. Behind them, where
  ext3 goes on with the double and triple indirect blocks, it returns zeros.
\<close>

theorem read_data_correct:
  assumes "disk_img d img" "fs_geometry d (sb_block_size sb)" "inode_ok img (unat (sb_block_size sb)) ino"
  defines "F \<equiv> ext3_bytes img (unat (sb_block_size sb)) ino"
    and "R \<equiv> (12 + unat (sb_block_size sb) div 4) * unat (sb_block_size sb)"
  shows "read_data d sb ino offset len =
      Ret (take (unat len) (drop (unat offset) (take R F @ replicate (unat (i_size ino) - R) 0))) \<and>
    (unat offset + unat len \<le> R \<or> unat (i_size ino) \<le> R \<longrightarrow>
      read_data d sb ino offset len = Ret (take (unat len) (drop (unat offset) F)))"
proof -
  have bs: "0 < unat (sb_block_size sb)"
    using assms(2) by (simp add: fs_geometry_def unat_gt_0)
  note e = file_bytes_ext3 [OF assms(3) bs, folded F_def R_def]
  have r: "read_data d sb ino offset len =
      Ret (take (unat len) (drop (unat offset) (take R F @ replicate (unat (i_size ino) - R) 0)))"
    unfolding e [symmetric] by (rule read_data_file [OF assms(1-3)])
  have "take n (drop i (take R F @ replicate (unat (i_size ino) - R) 0)) = take n (drop i F)"
    if "i + n \<le> R \<or> unat (i_size ino) \<le> R" for i n
  proof (cases "unat (i_size ino) \<le> R")
    case True
    moreover have "length F \<le> unat (i_size ino)"
      unfolding F_def ext3_bytes_def by simp
    ultimately show ?thesis
      by simp
  next
    case False
    have "length (take R F @ replicate (unat (i_size ino) - R) 0) = unat (i_size ino)"
      unfolding e [symmetric] by (rule length_file_bytes [OF assms(3) bs])
    then have "length (take R F) = R"
      using False by simp
    then show ?thesis
      using that False by (simp add: drop_take min_absorb1)
  qed
  then show ?thesis
    unfolding r by blast
qed

text \<open>A disk that holds an image, with sectors of 512 bytes.\<close>

definition sample_disk :: "u8 list \<Rightarrow> disk" where
  "sample_disk img = \<lparr>d_dev = Some \<lparr>bd_read = (\<lambda>lba n. Some (take (unat n * 512) (drop (unat lba * 512) img))),
     bd_write = (\<lambda>lba n bs. False), bd_block_size = 512, bd_block_count = of_nat (length img div 512)\<rparr>, d_name = [],
     d_sector_size = 512, d_total_sectors = of_nat (length img div 512), d_open = True\<rparr>"

lemma sample_disk:
  assumes "512 dvd length img" "length img < 2 ^ 32"
  shows "disk_img (sample_disk img) img"
proof -
  have "length img div 512 < 2 ^ 32"
    using assms(2) by (rule le_less_trans [OF div_le_dividend])
  then have "unat (of_nat (length img div 512) :: u32) = length img div 512"
    by (simp add: unat_of_nat)
  then show ?thesis
    using assms(1) by (simp add: disk_img_def sample_disk_def)
qed

abbreviation sample_sb :: superblock where
  "sample_sb \<equiv> \<lparr>s_inodes_count = 32, s_blocks_count = 64, s_first_data_block = 1, s_log_block_size = 0, s_blocks_per_group = 8192,
     s_inodes_per_group = 32, s_magic = EXT3_MAGIC, s_rev_level = 0, s_first_ino = 11, s_inode_size = 128, s_feature_incompat = 0,
     sb_block_size = 1024, sb_valid = True\<rparr>"

abbreviation sample_inode :: inode where
  "sample_inode \<equiv> \<lparr>i_mode = 0x8000, i_uid = 0, i_size = 1000, i_atime = 0, i_ctime = 0, i_mtime = 0, i_dtime = 0, i_gid = 0,
     i_links_count = 1, i_blocks = 2, i_flags = 0, i_block = 1 # replicate 14 0, i_number = 12\<rparr>"

theorem read_data_correct_witness:
  "read_data (sample_disk (replicate 2048 7)) sample_sb sample_inode 998 5 = Ret (replicate 2 7)"
proof -
  let ?d = "sample_disk (replicate 2048 7)" and ?img = "replicate 2048 (7 :: u8)"
  have p: "ext3_ptr ?img 1024 sample_inode 0 = 1"
    by (simp add: ext3_ptr_def)
  have ok: "disk_img ?d ?img" "fs_geometry ?d (sb_block_size sample_sb)"
      "inode_ok ?img (unat (sb_block_size sample_sb)) sample_inode"
    by (rule sample_disk) (simp_all add: fs_geometry_def sample_disk_def inode_ok_def block_in_def file_ptr_cases)
  have "read_data ?d sample_sb sample_inode 998 5 =
      Ret (take (unat (5 :: u32)) (drop (unat (998 :: u32)) (ext3_bytes ?img (unat (sb_block_size sample_sb)) sample_inode)))"
    using mp [OF conjunct2 [OF read_data_correct [OF ok, of 998 5]]] by simp
  moreover have "ext3_bytes ?img 1024 sample_inode = replicate 1000 7"
    by (simp add: ext3_bytes_def ext3_block_def p img_block_def)
  ultimately show ?thesis
    by simp
qed

section \<open>The layout of inodes\<close>

text \<open>
  An inode as ext3 has it on disk: 36 bytes up to the flags, the word \<open>i_osd1\<close> that belongs to the operating
  system, and the fifteen block pointers.
\<close>

definition ext3_inode :: "u8 list \<Rightarrow> u32 \<Rightarrow> u32 list \<Rightarrow> u8 list \<Rightarrow> u8 list" where
  "ext3_inode head osd1 blocks tail = head @ concat (map put32 (osd1 # blocks)) @ tail"

lemma length_concat_put32: "length (concat (map put32 xs)) = 4 * length xs"
  by (induction xs) simp_all

lemma get32_concat_put32:
  assumes "k < length xs" "i = length pre + 4 * k"
  shows "get32 (pre @ concat (map put32 xs) @ post) i = xs ! k"
proof -
  have "concat (map put32 xs) = concat (map put32 (take k xs)) @ put32 (xs ! k) @ concat (map put32 (drop (Suc k) xs))"
    using id_take_nth_drop [OF assms(1)] by (metis append_Cons append_Nil concat.simps(2) concat_append list.simps(9) map_append)
  moreover have "i = length (pre @ concat (map put32 (take k xs)))"
    using assms by (simp add: length_concat_put32)
  ultimately show ?thesis
    using get32_put32 [of i "pre @ concat (map put32 (take k xs))" "xs ! k"] by simp
qed

lemma inode_disk_blocks:
  assumes "length head = 36" "length blocks = 15"
  shows "i_block (inode_disk (ext3_inode head osd1 blocks tail) n) = osd1 # butlast blocks"
proof (rule nth_equalityI)
  show "length (i_block (inode_disk (ext3_inode head osd1 blocks tail) n)) = length (osd1 # butlast blocks)"
    using assms by (simp add: inode_disk_def)
  fix k assume "k < length (i_block (inode_disk (ext3_inode head osd1 blocks tail) n))"
  then have k: "k < 15"
    by (simp add: inode_disk_def)
  then have "i_block (inode_disk (ext3_inode head osd1 blocks tail) n) ! k = (osd1 # blocks) ! k"
    unfolding ext3_inode_def inode_disk_def using assms by (simp add: get32_concat_put32 [of k] del: list.map concat.simps)
  then show "i_block (inode_disk (ext3_inode head osd1 blocks tail) n) ! k = (osd1 # butlast blocks) ! k"
    using k assms by (cases k) (simp_all add: nth_butlast)
qed

lemma read_data_hole:
  assumes "i_block ino ! 0 = 0" "i_size ino \<noteq> 0" "i_size ino \<le> sb_block_size sb" "i_size ino \<le> len"
  shows "read_data d sb ino 0 len = Ret (replicate (unat (i_size ino)) 0)"
proof -
  let ?bs = "sb_block_size sb" and ?S = "i_size ino"
  have bs: "?bs \<noteq> 0" "0 < len" "0 < ?S"
    using assms(2-4) by (simp_all add: word_le_nat_alt word_less_nat_alt flip: unat_eq_0)
  have "unat (to_copy ?bs ?S 0 len) = unat ?S"
    using to_copy_unat(1) [OF bs(1,3,2)] assms(3,4) by (simp add: word_le_nat_alt)
  then have n: "to_copy ?bs ?S 0 len = ?S"
    by (simp add: word_unat_eq_iff)
  have "phys_block d ?bs ino 0 = Ret 0"
    using assms(1) by (simp add: phys_block_def)
  then have "read_data_loop d ?bs ino 0 len 0 [] = read_data_loop d ?bs ino 0 len ?S (replicate (unat ?S) 0)"
    using bs n by (subst read_data_loop.simps) (simp add: Let_def copy_block_def)
  then show ?thesis
    by (simp add: read_data_def read_data_loop.simps)
qed

text \<open>
  C30. The blocks of an inode are misread: the structure of the source has no \<open>i_osd1\<close>, so it takes that
  word for the first block pointer and every other pointer one place too early. With that word zero, a file or
  directory of at most one block reads as zeros, whatever is stored in it.
\<close>

theorem inode_blocks_misread:
  assumes "length head = 36" "length blocks = 15" "ino = inode_disk (ext3_inode head osd1 blocks tail) n"
  shows "i_block ino = osd1 # butlast blocks \<and>
    (osd1 = 0 \<and> i_size ino \<noteq> 0 \<and> i_size ino \<le> sb_block_size sb \<and> i_size ino \<le> len \<longrightarrow>
       read_data d sb ino 0 len = Ret (replicate (unat (i_size ino)) 0))"
proof -
  have b: "i_block ino = osd1 # butlast blocks"
    unfolding assms(3) by (rule inode_disk_blocks [OF assms(1,2)])
  then show ?thesis
    using read_data_hole [of ino sb len d] by simp
qed

theorem inode_blocks_misread_witness:
  "read_data (sample_disk (replicate 8192 7)) sample_sb
     (inode_disk (ext3_inode (replicate 4 0 @ put32 5 @ replicate 28 0) 0 (4 # replicate 14 0) []) 12) 0 5 = Ret (replicate 5 0)"
proof -
  let ?head = "replicate 4 0 @ put32 5 @ replicate 28 0"
  let ?ino = "inode_disk (ext3_inode ?head 0 (4 # replicate 14 0) []) 12"
  have "i_size ?ino = get32 (replicate 4 0 @ put32 5 @ replicate 28 0 @ concat (map put32 (0 # 4 # replicate 14 0))) 4"
    by (simp add: inode_disk_def ext3_inode_def)
  also have "\<dots> = 5"
    by (rule get32_put32) simp
  finally have s: "i_size ?ino = 5" .
  have "length ?head = 36" "length (4 # replicate 14 0 :: u32 list) = 15"
    by simp_all
  from inode_blocks_misread [OF this refl, of 0 "[]" 12 sample_sb 5 "sample_disk (replicate 8192 7)"]
  have "read_data (sample_disk (replicate 8192 7)) sample_sb ?ino 0 5 = Ret (replicate (unat (i_size ?ino)) 0)"
    by (simp add: s)
  then show ?thesis
    by (simp add: s)
qed

end
