(* ===== verification/Ext3_Fs.thy ===== *)
theory Ext3_Fs
  imports Ext3_File
begin

text \<open>
  The upper half of the ext3 file system, bsd/ext3: directories (dir.cpp), and mounting, paths and
  descriptors (fs.cpp). The contents of a directory are kept in one frame of the frame allocator, which
  is the list of its 4096 bytes.
\<close>

section \<open>Directories\<close>

record directory =
  m_data :: "(u64 \<times> u8 list) option"
  m_size :: u32
  m_entry_count :: nat

definition dir_new :: directory where
  "dir_new = \<lparr>m_data = None, m_size = 0, m_entry_count = 0\<rparr>"

definition dir_free :: "directory \<Rightarrow> pmm \<Rightarrow> directory \<times> pmm" where
  "dir_free dr pm = (dir_new, case m_data dr of None \<Rightarrow> pm | Some (addr, _) \<Rightarrow> pmm_free addr pm)"

text \<open>The loop that counts the entries.\<close>

function dir_entries :: "u8 list \<Rightarrow> nat \<Rightarrow> nat \<Rightarrow> nat \<Rightarrow> nat io" where
  "dir_entries data bytes pos n =
     (if bytes \<le> pos then Ret n
      else if length data < pos + 6 then Fault
      else let rec_len = unat (get16 data (pos + 4))
           in if rec_len = 0 then Ret n else dir_entries data bytes (pos + rec_len) (n + 1))"
  by pat_completeness auto
termination
  by (relation "measure (\<lambda>(data, bytes, pos, n). bytes - pos)") auto

declare dir_entries.simps [simp del]

definition dir_read :: "disk \<Rightarrow> superblock \<Rightarrow> inode \<Rightarrow> directory \<Rightarrow> pmm \<Rightarrow> unit io \<times> directory \<times> pmm" where
  "dir_read d sb ino dr pm =
     (let (dr, pm) = dir_free dr pm
      in if \<not> is_dir ino then (Fail, dr, pm)
         else let dr = dr\<lparr>m_size := i_size ino\<rparr>
              in if i_size ino = 0 then (Ret (), dr, pm)
                 else let (addr, pm1) = pmm_alloc pm
                      in if addr = 0 then (Fail, dr, pm1)
                         else if PAGE_BYTES < unat (i_size ino) then (Fault, dr, pm1)
                         else case read_data d sb ino 0 (i_size ino) of
                                Fault \<Rightarrow> (Fault, dr, pm1)
                              | Fail \<Rightarrow> (Fail, dr, pmm_free addr pm1)
                              | Ret bytes \<Rightarrow>
                                  if bytes = [] then (Fail, dr, pmm_free addr pm1)
                                  else let data = splice 0 bytes (replicate PAGE_BYTES 0)
                                       in case dir_entries data (length bytes) 0 0 of
                                            Ret n \<Rightarrow> (Ret (), dr\<lparr>m_data := Some (addr, data), m_entry_count := n\<rparr>, pm1)
                                          | _ \<Rightarrow> (Fault, dr, pm1))"

text \<open>
  Positions are 32-bit numbers in the source. The contents are one frame, and a read behind it is \<open>Fault\<close>, so the
  step to the next record never wraps and they are natural numbers here.
\<close>

lemma dir_step_no_wrap: "pos + 6 \<le> PAGE_BYTES \<Longrightarrow> unat (of_nat pos + ucast (rec_len :: u16) :: u32) = pos + unat rec_len"
  using unsigned_less [of rec_len, where ?'a = nat] by (simp add: unat_word_ariths unat_of_nat unsigned_ucast_eq take_bit_nat_eq_self)

text \<open>The comparison of a stored name with a string of the same length.\<close>

fun same_name :: "u8 list \<Rightarrow> nat \<Rightarrow> cstr \<Rightarrow> bool io" where
  "same_name data p [] = Ret True"
| "same_name data p (c # cs) =
     (if length data \<le> p then Fault else if data ! p = c then same_name data (p + 1) cs else Ret False)"

function dir_find :: "u8 list \<Rightarrow> nat \<Rightarrow> cstr \<Rightarrow> nat \<Rightarrow> u32 io" where
  "dir_find data sz name pos =
     (if sz \<le> pos then Fail
      else if length data < pos + 6 then Fault
      else let ino = get32 data pos; rec_len = unat (get16 data (pos + 4));
               next = (if rec_len = 0 then Fail else dir_find data sz name (pos + rec_len))
           in if ino = 0 then next
              else if length data < pos + 7 then Fault
              else if unat (data ! (pos + 6)) = length name
              then io_bind (same_name data (pos + 8) name) (\<lambda>same. if same then Ret ino else next)
              else next)"
  by pat_completeness auto
termination
  by (relation "measure (\<lambda>(data, sz, name, pos). sz - pos)") auto

declare dir_find.simps [simp del]

definition dir_lookup :: "directory \<Rightarrow> cstr \<Rightarrow> u32 io" where
  "dir_lookup dr name = (case m_data dr of None \<Rightarrow> Fail | Some (_, data) \<Rightarrow> dir_find data (unat (m_size dr)) name 0)"

record ext3_dirent =
  de_inode :: u32
  de_rec_len :: u16
  de_name_len :: u8
  de_file_type :: u8
  de_name :: cstr

function dir_nth :: "u8 list \<Rightarrow> nat \<Rightarrow> nat \<Rightarrow> nat \<Rightarrow> ext3_dirent io" where
  "dir_nth data sz index pos =
     (if sz \<le> pos then Fail
      else if length data < pos + 6 then Fault
      else let ino = get32 data pos; rec_len = unat (get16 data (pos + 4))
           in if ino = 0 then if rec_len = 0 then Fail else dir_nth data sz index (pos + rec_len)
              else if index = 0
              then let n = unat (data ! (pos + 6))
                   in if length data < pos + 7 \<or> length data < pos + 8 + n then Fault
                      else Ret \<lparr>de_inode = ino, de_rec_len = get16 data (pos + 4), de_name_len = data ! (pos + 6),
                                de_file_type = data ! (pos + 7), de_name = take n (drop (pos + 8) data)\<rparr>
              else if rec_len = 0 then Fail else dir_nth data sz (index - 1) (pos + rec_len))"
  by pat_completeness auto
termination
  by (relation "measure (\<lambda>(data, sz, index, pos). sz - pos)") auto

declare dir_nth.simps [simp del]

definition get_entry :: "directory \<Rightarrow> u32 \<Rightarrow> ext3_dirent io" where
  "get_entry dr index = (case m_data dr of None \<Rightarrow> Fail | Some (_, data) \<Rightarrow> dir_nth data (unat (m_size dr)) (unat index) 0)"

text \<open>The contents of a directory that was read are one frame, of which at most all bytes are used.\<close>

lemma dir_read_page:
  assumes "dir_read d sb ino dr pm = (Ret (), dr', pm')"
  shows "(case m_data dr' of None \<Rightarrow> True | Some (_, data) \<Rightarrow> length data = PAGE_BYTES) \<and> unat (m_size dr') \<le> PAGE_BYTES"
proof -
  have "length (splice 0 bytes (replicate PAGE_BYTES 0)) = PAGE_BYTES"
    if "read_data d sb ino 0 (i_size ino) = Ret bytes" "unat (i_size ino) \<le> PAGE_BYTES" for bytes
    using read_data_loop_length [of d "sb_block_size sb" ino 0 "i_size ino" 0 "[]" bytes] that by (simp add: read_data_def splice_def)
  then show ?thesis
    using assms by (auto simp: dir_read_def dir_free_def dir_new_def Let_def not_less split: if_splits io.splits prod.splits option.splits)
qed

section \<open>The file system\<close>

abbreviation SLASH :: u8 where "SLASH \<equiv> 0x2F"
abbreviation MAX_OPEN_FILES :: nat where "MAX_OPEN_FILES \<equiv> 16"

record ext3_file =
  f_inode_no :: u32
  f_inode :: inode
  f_pos :: u32
  f_in_use :: bool

record ext3 =
  x_sb :: superblock
  x_bgt :: group_table
  x_disk :: disk
  x_mounted :: bool
  x_dev :: cstr
  x_files :: "ext3_file list"
  x_pmm :: pmm

definition ext3_mount :: "(cstr \<Rightarrow> block_dev option) \<Rightarrow> disk \<Rightarrow> cstr \<Rightarrow> ext3 \<Rightarrow> unit io \<times> ext3" where
  "ext3_mount devfs_find d dev_name x =
     (if x_mounted x then (Fail, x)
      else case disk_open devfs_find dev_name d of (Fault, d) \<Rightarrow> (Fault, x) | (Fail, d) \<Rightarrow> (Fail, x)
      | (Ret _, d) \<Rightarrow> case superblock_read d (x_sb x) of (r, sb) \<Rightarrow>
          (case r of Fault \<Rightarrow> (Fault, x)
           | Fail \<Rightarrow> (Fail, x\<lparr>x_sb := sb, x_disk := disk_close d\<rparr>)
           | Ret _ \<Rightarrow>
               case bgt_read d sb (x_bgt x) (x_pmm x) of (r, t, pm) \<Rightarrow>
                 (case r of Fault \<Rightarrow> (Fault, x)
                  | Fail \<Rightarrow> (Fail, x\<lparr>x_sb := sb, x_bgt := t, x_pmm := pm, x_disk := disk_close d\<rparr>)
                  | Ret _ \<Rightarrow> (case strncpy_buf dev_name 23 of None \<Rightarrow> (Fault, x)
                     | Some name \<Rightarrow> (Ret (), x\<lparr>x_sb := sb, x_bgt := t, x_pmm := pm, x_disk := d, x_dev := name,
                                           x_mounted := True\<rparr>)))))"

definition ext3_unmount :: "ext3 \<Rightarrow> int \<times> ext3" where
  "ext3_unmount x =
     (if \<not> x_mounted x then (- 1, x)
      else case bgt_free (x_bgt x) (x_pmm x) of (t, pm) \<Rightarrow>
        (0, x\<lparr>x_files := map (\<lambda>f. f\<lparr>f_in_use := False\<rparr>) (x_files x), x_bgt := t, x_pmm := pm,
              x_disk := disk_close (x_disk x), x_mounted := False\<rparr>))"

lemma resolve_progress:
  assumes "takeWhile (\<lambda>c. c \<noteq> SLASH) p \<noteq> []"
  shows "length (dropWhile (\<lambda>c. c = SLASH) (dropWhile (\<lambda>c. c \<noteq> SLASH) p)) < length p"
proof -
  obtain c cs where p: "p = c # cs" "c \<noteq> SLASH"
    using assms by (cases p) (auto split: if_splits)
  have "length (dropWhile (\<lambda>c. c = SLASH) (dropWhile (\<lambda>c. c \<noteq> SLASH) cs)) \<le> length cs"
    using length_dropWhile_le [of "\<lambda>c. c = SLASH" "dropWhile (\<lambda>c. c \<noteq> SLASH) cs"] length_dropWhile_le [of "\<lambda>c. c \<noteq> SLASH" cs]
    by linarith
  then show ?thesis
    using p by simp
qed

function resolve_loop :: "disk \<Rightarrow> superblock \<Rightarrow> group_table \<Rightarrow> cstr \<Rightarrow> u32 \<Rightarrow> pmm \<Rightarrow> u32 io \<times> pmm" where
  "resolve_loop d sb t p current_ino pm =
     (let seg = takeWhile (\<lambda>c. c \<noteq> SLASH) p
      in if seg = [] then (Ret current_ino, pm)
         else if 256 \<le> length seg then (Fail, pm)
         else case read_from_disk d sb t current_ino of Fault \<Rightarrow> (Fault, pm) | Fail \<Rightarrow> (Fail, pm)
              | Ret ino \<Rightarrow>
                  if \<not> is_dir ino then (Fail, pm)
                  else case dir_read d sb ino dir_new pm of (r, dir, pm) \<Rightarrow>
                    (case r of Fault \<Rightarrow> (Fault, pm) | Fail \<Rightarrow> (Fail, pm)
                     | Ret _ \<Rightarrow>
                         case dir_lookup dir seg of Fault \<Rightarrow> (Fault, pm) | Fail \<Rightarrow> (Fail, pm)
                         | Ret child \<Rightarrow>
                             resolve_loop d sb t (dropWhile (\<lambda>c. c = SLASH) (dropWhile (\<lambda>c. c \<noteq> SLASH) p)) child pm))"
  by pat_completeness auto
termination
  by (relation "measure (\<lambda>(d, sb, t, p, current_ino, pm). length p)") (simp_all add: resolve_progress)

declare resolve_loop.simps [simp del]

definition resolve_path :: "cstr \<Rightarrow> ext3 \<Rightarrow> u32 io \<times> ext3" where
  "resolve_path path x =
     (if path = [] \<or> hd path \<noteq> SLASH then (Fail, x)
      else case resolve_loop (x_disk x) (x_sb x) (x_bgt x) (dropWhile (\<lambda>c. c = SLASH) path) EXT3_ROOT_INO (x_pmm x) of
             (r, pm) \<Rightarrow> (r, x\<lparr>x_pmm := pm\<rparr>))"

definition read_inode :: "u32 \<Rightarrow> ext3 \<Rightarrow> inode io" where
  "read_inode ino x = read_from_disk (x_disk x) (x_sb x) (x_bgt x) ino"

fun free_slot :: "nat \<Rightarrow> ext3_file list \<Rightarrow> nat option" where
  "free_slot i [] = None"
| "free_slot i (f # fs) = (if f_in_use f then free_slot (i + 1) fs else Some i)"

definition upd_file :: "nat \<Rightarrow> (ext3_file \<Rightarrow> ext3_file) \<Rightarrow> ext3 \<Rightarrow> ext3" where
  "upd_file i g x = x\<lparr>x_files := (x_files x)[i := g (x_files x ! i)]\<rparr>"

definition alloc_fd :: "ext3 \<Rightarrow> nat option \<times> ext3" where
  "alloc_fd x =
     (case free_slot 0 (x_files x) of None \<Rightarrow> (None, x)
      | Some i \<Rightarrow> (Some i, upd_file i (\<lambda>f. f\<lparr>f_in_use := True, f_pos := 0\<rparr>) x))"

definition ext3_open :: "cstr \<Rightarrow> ext3 \<Rightarrow> nat io \<times> ext3" where
  "ext3_open path x =
     (if \<not> x_mounted x then (Fail, x)
      else case resolve_path path x of (r, x1) \<Rightarrow>
        (case r of Fault \<Rightarrow> (Fault, x1) | Fail \<Rightarrow> (Fail, x1)
         | Ret ino \<Rightarrow>
             case alloc_fd x1 of (None, x2) \<Rightarrow> (Fail, x2)
             | (Some fd, x2) \<Rightarrow>
                 let x3 = upd_file fd (\<lambda>f. f\<lparr>f_inode_no := ino\<rparr>) x2
                 in case read_inode ino x3 of Fault \<Rightarrow> (Fault, x3)
                    | Fail \<Rightarrow> (Fail, upd_file fd (\<lambda>f. f\<lparr>f_in_use := False\<rparr>) x3)
                    | Ret inode \<Rightarrow> (Ret fd, upd_file fd (\<lambda>f. f\<lparr>f_inode := inode, f_pos := 0\<rparr>) x3)))"

definition fd_valid :: "int \<Rightarrow> ext3 \<Rightarrow> bool" where
  "fd_valid fd x \<longleftrightarrow> 0 \<le> fd \<and> fd < int MAX_OPEN_FILES \<and> f_in_use (x_files x ! nat fd)"

definition ext3_close :: "int \<Rightarrow> ext3 \<Rightarrow> int \<times> ext3" where
  "ext3_close fd x =
     (if \<not> fd_valid fd x then (- 1, x)
      else (0, upd_file (nat fd) (\<lambda>f. f\<lparr>f_in_use := False, f_inode_no := 0, f_pos := 0\<rparr>) x))"

text \<open>The bytes read; the number returned is their count as a signed integer.\<close>

definition ext3_read :: "int \<Rightarrow> u32 \<Rightarrow> ext3 \<Rightarrow> u8 list io \<times> ext3" where
  "ext3_read fd len x =
     (if \<not> fd_valid fd x then (Fail, x)
      else let f = x_files x ! nat fd; file_size = i_size (f_inode f)
           in if file_size \<le> f_pos f then (Ret [], x)
              else let len = (if file_size < f_pos f + len then file_size - f_pos f else len)
                   in case read_data (x_disk x) (x_sb x) (f_inode f) (f_pos f) len of
                        Ret bs \<Rightarrow> (Ret bs, if 0 < sint (of_nat (length bs) :: u32)
                                         then upd_file (nat fd) (\<lambda>f. f\<lparr>f_pos := f_pos f + of_nat (length bs)\<rparr>) x else x)
                      | r \<Rightarrow> (r, x))"

text \<open>\<open>offset\<close> is the two's complement of the signed argument.\<close>

definition ext3_seek :: "int \<Rightarrow> u32 \<Rightarrow> int \<Rightarrow> ext3 \<Rightarrow> int \<times> ext3" where
  "ext3_seek fd offset whence x =
     (if \<not> fd_valid fd x then (- 1, x)
      else let f = x_files x ! nat fd; file_size = i_size (f_inode f);
               go = (\<lambda>new_pos. if file_size < new_pos then (- 1, x) else (0, upd_file (nat fd) (\<lambda>f. f\<lparr>f_pos := new_pos\<rparr>) x))
           in if whence = 0 then go offset
              else if whence = 1 then go (f_pos f + offset)
              else if whence = 2 then if file_size < - offset then (- 1, x) else go (file_size - (- offset))
              else (- 1, x))"

record xstat =
  st_ino :: u32
  st_mode :: u32
  st_nlink :: u32
  st_uid :: u32
  st_gid :: u32
  st_size :: u32
  st_blksize :: u32
  st_blocks :: u32
  st_atime :: u32
  st_mtime :: u32
  st_ctime :: u32

definition inode_stat :: "u32 \<Rightarrow> inode \<Rightarrow> ext3 \<Rightarrow> xstat" where
  "inode_stat n ino x = \<lparr>st_ino = n, st_mode = ucast (i_mode ino), st_nlink = ucast (i_links_count ino), st_uid = ucast (i_uid ino),
     st_gid = ucast (i_gid ino), st_size = i_size ino, st_blksize = sb_block_size (x_sb x), st_blocks = i_blocks ino,
     st_atime = i_atime ino, st_mtime = i_mtime ino, st_ctime = i_ctime ino\<rparr>"

definition ext3_stat :: "cstr \<Rightarrow> ext3 \<Rightarrow> xstat io \<times> ext3" where
  "ext3_stat path x =
     (if \<not> x_mounted x then (Fail, x)
      else case resolve_path path x of (r, x1) \<Rightarrow> (io_bind r (\<lambda>ino. io_bind (read_inode ino x1) (\<lambda>inode. Ret (inode_stat ino inode x1))), x1))"

definition ext3_fstat :: "int \<Rightarrow> ext3 \<Rightarrow> xstat io" where
  "ext3_fstat fd x =
     (if \<not> fd_valid fd x then Fail else let f = x_files x ! nat fd in Ret (inode_stat (f_inode_no f) (f_inode f) x))"

text \<open>The name that is written, without its terminator; \<open>namelen\<close> is the size of the buffer.\<close>

definition ext3_getdents :: "cstr \<Rightarrow> u32 \<Rightarrow> u32 \<Rightarrow> ext3 \<Rightarrow> cstr io \<times> ext3" where
  "ext3_getdents path index namelen x =
     (if \<not> x_mounted x then (Fail, x)
      else case resolve_path path x of (r, x1) \<Rightarrow>
        (case io_bind r (\<lambda>ino. read_inode ino x1) of Fault \<Rightarrow> (Fault, x1) | Fail \<Rightarrow> (Fail, x1)
         | Ret inode \<Rightarrow>
             if \<not> is_dir inode then (Fail, x1)
             else case dir_read (x_disk x1) (x_sb x1) inode dir_new (x_pmm x1) of (r, dir, pm) \<Rightarrow>
               (io_bind r (\<lambda>_. io_bind (get_entry dir index)
                  (\<lambda>e. let n = (if namelen \<le> ucast (de_name_len e) then namelen - 1 else ucast (de_name_len e))
                       in if namelen = 0 then Fault else Ret (take (unat n) (de_name e)))),
                x1\<lparr>x_pmm := pm\<rparr>)))"

section \<open>Directories as lists of entries\<close>

text \<open>An entry as ext3 stores it; an entry with inode 0 is unused.\<close>

record dent =
  dn_ino :: u32
  dn_type :: u8
  dn_name :: cstr
  dn_pad :: "u8 list"

abbreviation dent_len :: "dent \<Rightarrow> nat" where
  "dent_len e \<equiv> 8 + length (dn_name e) + length (dn_pad e)"

definition dent_bytes :: "dent \<Rightarrow> u8 list" where
  "dent_bytes e = put32 (dn_ino e) @ put16 (of_nat (dent_len e)) @ [of_nat (length (dn_name e)), dn_type e] @ dn_name e @ dn_pad e"

definition dent_ok :: "dent \<Rightarrow> bool" where
  "dent_ok e \<longleftrightarrow> length (dn_name e) \<le> 255 \<and> dent_len e < 65536"

definition dir_bytes :: "dent list \<Rightarrow> u8 list" where
  "dir_bytes es = concat (map dent_bytes es)"

lemma dir_bytes_simps [simp]: "dir_bytes [] = []" "dir_bytes (e # es) = dent_bytes e @ dir_bytes es"
  by (simp_all add: dir_bytes_def)

lemma length_dent_bytes [simp]: "length (dent_bytes e) = dent_len e"
  by (simp add: dent_bytes_def)

lemma dent_fields:
  assumes "dent_ok e" "pos = length pre"
  shows "get32 (pre @ dent_bytes e @ post) pos = dn_ino e"
    "unat (get16 (pre @ dent_bytes e @ post) (pos + 4)) = dent_len e"
    "unat ((pre @ dent_bytes e @ post) ! (pos + 6)) = length (dn_name e)"
    "(pre @ dent_bytes e @ post) ! (pos + 6) = of_nat (length (dn_name e))"
    "(pre @ dent_bytes e @ post) ! (pos + 7) = dn_type e"
    "take (length (dn_name e)) (drop (pos + 8) (pre @ dent_bytes e @ post)) = dn_name e"
    "get16 (pre @ dent_bytes e @ post) (pos + 4) = of_nat (dent_len e)"
proof -
  have n: "unat (of_nat (length (dn_name e)) :: u8) = length (dn_name e)"
    using assms(1) by (simp add: dent_ok_def unat_of_nat)
  have r: "unat (of_nat (dent_len e) :: u16) = dent_len e"
    using assms(1) by (simp add: dent_ok_def unat_of_nat del: of_nat_add)
  show "get32 (pre @ dent_bytes e @ post) pos = dn_ino e"
    using get32_put32 [of pos pre "dn_ino e"] assms(2) by (simp add: dent_bytes_def)
  show g: "get16 (pre @ dent_bytes e @ post) (pos + 4) = of_nat (dent_len e)"
    using get16_put16 [of "pos + 4" "pre @ put32 (dn_ino e)" "of_nat (dent_len e)"] assms(2) by (simp add: dent_bytes_def)
  show "unat (get16 (pre @ dent_bytes e @ post) (pos + 4)) = dent_len e"
    unfolding g by (rule r)
  show i: "(pre @ dent_bytes e @ post) ! (pos + 6) = of_nat (length (dn_name e))"
    using assms(2) by (simp add: dent_bytes_def put32_def put16_def nth_append)
  show "unat ((pre @ dent_bytes e @ post) ! (pos + 6)) = length (dn_name e)"
    unfolding i by (rule n)
  show "(pre @ dent_bytes e @ post) ! (pos + 7) = dn_type e"
    using assms(2) by (simp add: dent_bytes_def put32_def put16_def nth_append)
  show "take (length (dn_name e)) (drop (pos + 8) (pre @ dent_bytes e @ post)) = dn_name e"
    using assms(2) by (simp add: dent_bytes_def)
qed

lemma same_name_eq:
  "p + length cs \<le> length data \<Longrightarrow> same_name data p cs = Ret (take (length cs) (drop p data) = cs)"
proof (induction cs arbitrary: p)
  case (Cons c cs)
  have "drop p data = data ! p # drop (p + 1) data"
    using Cons.prems by (simp add: Cons_nth_drop_Suc)
  then show ?case
    using Cons by simp
qed simp

text \<open>One step over an entry.\<close>

lemma dir_find_step:
  assumes "pos < sz" "pos + 8 + n \<le> length data" "get32 data pos = ino" "unat (get16 data (pos + 4)) = r" "r \<noteq> 0"
    and "unat (data ! (pos + 6)) = n"
  shows "dir_find data sz name pos =
    (if ino \<noteq> 0 \<and> take n (drop (pos + 8) data) = name then Ret ino else dir_find data sz name (pos + r))"
proof -
  have "length (take n (drop (pos + 8) data)) = n"
    using assms(2) by simp
  then have ne: "take n (drop (pos + 8) data) \<noteq> name" if "n \<noteq> length name"
    using that by metis
  have "same_name data (pos + 8) name = Ret (take n (drop (pos + 8) data) = name)" if "n = length name"
    using that same_name_eq [of "pos + 8" name data] assms(2) by simp
  with ne assms show ?thesis
    by (subst dir_find.simps) (simp add: Let_def)
qed

lemma dir_nth_step:
  assumes "pos < sz" "pos + 8 + n \<le> length data" "get32 data pos = ino" "unat (get16 data (pos + 4)) = r" "r \<noteq> 0"
    and "unat (data ! (pos + 6)) = n"
  shows "dir_nth data sz i pos =
    (if ino = 0 then dir_nth data sz i (pos + r)
     else if i = 0 then Ret \<lparr>de_inode = ino, de_rec_len = get16 data (pos + 4), de_name_len = data ! (pos + 6),
       de_file_type = data ! (pos + 7), de_name = take n (drop (pos + 8) data)\<rparr>
     else dir_nth data sz (i - 1) (pos + r))"
  using assms by (subst dir_nth.simps) (simp add: Let_def)

lemma dir_find_entries:
  assumes "list_all dent_ok es"
  shows "dir_find (pre @ dir_bytes es @ post) (length pre + length (dir_bytes es)) name (length pre) =
    (case List.find (\<lambda>e. dn_ino e \<noteq> 0 \<and> dn_name e = name) es of None \<Rightarrow> Fail | Some e \<Rightarrow> Ret (dn_ino e))"
  using assms
proof (induction es arbitrary: pre)
  case Nil
  then show ?case
    by (simp add: dir_find.simps)
next
  case (Cons e es)
  define data where "data = pre @ dent_bytes e @ dir_bytes es @ post"
  define sz where "sz = length pre + length (dir_bytes (e # es))"
  have ok: "dent_ok e"
    using Cons.prems by simp
  note f = dent_fields [OF ok refl, of pre "dir_bytes es @ post", folded data_def]
  have "dir_find data sz name (length pre) = (if dn_ino e \<noteq> 0 \<and> dn_name e = name then Ret (dn_ino e)
      else dir_find data sz name (length pre + dent_len e))"
    using dir_find_step [OF _ _ f(1,2) _ f(3), of sz name] f(6) by (simp add: data_def sz_def)
  moreover have "dir_find data sz name (length pre + dent_len e) =
      (case List.find (\<lambda>e. dn_ino e \<noteq> 0 \<and> dn_name e = name) es of None \<Rightarrow> Fail | Some e \<Rightarrow> Ret (dn_ino e))"
    using Cons.IH [of "pre @ dent_bytes e"] Cons.prems by (simp add: data_def sz_def add.assoc)
  ultimately show ?case
    by (simp add: data_def sz_def)
qed

definition dent_entry :: "dent \<Rightarrow> ext3_dirent" where
  "dent_entry e = \<lparr>de_inode = dn_ino e, de_rec_len = of_nat (dent_len e), de_name_len = of_nat (length (dn_name e)),
     de_file_type = dn_type e, de_name = dn_name e\<rparr>"

abbreviation live :: "dent list \<Rightarrow> dent list" where
  "live \<equiv> filter (\<lambda>e. dn_ino e \<noteq> 0)"

lemma dir_nth_entries:
  assumes "list_all dent_ok es"
  shows "dir_nth (pre @ dir_bytes es @ post) (length pre + length (dir_bytes es)) i (length pre) =
    (if i < length (live es) then Ret (dent_entry (live es ! i)) else Fail)"
  using assms
proof (induction es arbitrary: pre i)
  case Nil
  then show ?case
    by (simp add: dir_nth.simps)
next
  case (Cons e es)
  define data where "data = pre @ dent_bytes e @ dir_bytes es @ post"
  define sz where "sz = length pre + length (dir_bytes (e # es))"
  have ok: "dent_ok e"
    using Cons.prems by simp
  note f = dent_fields [OF ok refl, of pre "dir_bytes es @ post", folded data_def]
  have step: "dir_nth data sz i (length pre) =
      (if dn_ino e = 0 then dir_nth data sz i (length pre + dent_len e)
       else if i = 0 then Ret (dent_entry e) else dir_nth data sz (i - 1) (length pre + dent_len e))"
    using dir_nth_step [OF _ _ f(1,2) _ f(3), of sz i] f(4-7) by (simp add: data_def sz_def dent_entry_def)
  have "dir_nth data sz j (length pre + dent_len e) = (if j < length (live es) then Ret (dent_entry (live es ! j)) else Fail)" for j
    using Cons.IH [of "pre @ dent_bytes e" j] Cons.prems by (simp add: data_def sz_def add.assoc)
  with step have "dir_nth data sz i (length pre) =
      (if i < length (live (e # es)) then Ret (dent_entry (live (e # es) ! i)) else Fail)"
    by (cases i) auto
  then show ?case
    by (simp add: data_def sz_def)
qed

lemma dir_entries_count:
  assumes "list_all dent_ok es"
  shows "dir_entries (pre @ dir_bytes es @ post) (length pre + length (dir_bytes es)) (length pre) n = Ret (n + length es)"
  using assms
proof (induction es arbitrary: pre n)
  case Nil
  then show ?case
    by (simp add: dir_entries.simps)
next
  case (Cons e es)
  have ok: "dent_ok e"
    using Cons.prems by simp
  note f = dent_fields [OF ok refl, of pre "dir_bytes es @ post"]
  show ?case
    using Cons.IH [of "pre @ dent_bytes e" "n + 1"] Cons.prems
    by (subst dir_entries.simps) (simp add: f(2) Let_def add.assoc)
qed

text \<open>
  C39. Directories are searched and listed correctly: in a directory that holds a list of entries, of any record
  lengths, with unused entries and padding, a lookup returns the inode of the first used entry with exactly
  that name and fails if there is none, and the entry at an index is the used entry at that index.
\<close>

theorem directory_correct:
  assumes "list_all dent_ok es" "length (dir_bytes es) < 2 ^ 32" "m_size dr = of_nat (length (dir_bytes es))"
    and "m_data dr = Some (addr, dir_bytes es @ rest)"
  shows "dir_lookup dr name =
      (case List.find (\<lambda>e. dn_ino e \<noteq> 0 \<and> dn_name e = name) es of None \<Rightarrow> Fail | Some e \<Rightarrow> Ret (dn_ino e)) \<and>
    get_entry dr i = (if unat i < length (live es) then Ret (dent_entry (live es ! unat i)) else Fail)"
proof -
  have "unat (m_size dr) = length (dir_bytes es)"
    using assms(2,3) by (simp add: unat_of_nat)
  then show ?thesis
    using dir_find_entries [OF assms(1), of "[]" rest name] dir_nth_entries [OF assms(1), of "[]" rest "unat i"] assms(4)
    by (simp add: dir_lookup_def get_entry_def)
qed

abbreviation sample_dents :: "dent list" where
  "sample_dents \<equiv> [\<lparr>dn_ino = 2, dn_type = 2, dn_name = [0x2E], dn_pad = [0, 0, 0]\<rparr>, \<lparr>dn_ino = 0, dn_type = 1, dn_name = [0x62], dn_pad = [1, 2, 3]\<rparr>,
     \<lparr>dn_ino = 12, dn_type = 1, dn_name = [0x61, 0x62], dn_pad = [0, 0]\<rparr>]"

theorem directory_correct_witness:
  "dir_lookup \<lparr>m_data = Some (0x1000, dir_bytes sample_dents @ [9]), m_size = 36, m_entry_count = 3\<rparr> [0x61, 0x62] = Ret 12 \<and>
   get_entry \<lparr>m_data = Some (0x1000, dir_bytes sample_dents @ [9]), m_size = 36, m_entry_count = 3\<rparr> 1 = Ret (dent_entry (sample_dents ! 2))"
  (is "dir_lookup ?dr _ = _ \<and> _")
proof -
  have "list_all dent_ok sample_dents" "length (dir_bytes sample_dents) < 2 ^ 32" "m_size ?dr = of_nat (length (dir_bytes sample_dents))"
      "m_data ?dr = Some (0x1000, dir_bytes sample_dents @ [9])"
    by (simp_all add: dent_ok_def)
  from directory_correct [OF this, of "[0x61, 0x62]" 1] show ?thesis
    by simp
qed

section \<open>Paths\<close>

text \<open>What is assumed of a disk with a tree of directories: those that \<open>D\<close> gives have the entries it gives.\<close>

definition holds_dirs :: "disk \<Rightarrow> superblock \<Rightarrow> group_table \<Rightarrow> (u32 \<Rightarrow> dent list option) \<Rightarrow> bool" where
  "holds_dirs d sb t D \<longleftrightarrow> (\<forall>i es. D i = Some es \<longrightarrow> list_all dent_ok es \<and> es \<noteq> [] \<and> length (dir_bytes es) \<le> PAGE_BYTES \<and>
     (\<exists>ino. read_from_disk d sb t i = Ret ino \<and> is_dir ino \<and> i_size ino = of_nat (length (dir_bytes es)) \<and>
        read_data d sb ino 0 (i_size ino) = Ret (dir_bytes es)))"

definition name_in :: "dent list \<Rightarrow> cstr \<Rightarrow> u32 option" where
  "name_in es name = map_option dn_ino (List.find (\<lambda>e. dn_ino e \<noteq> 0 \<and> dn_name e = name) es)"

primrec walk :: "(u32 \<Rightarrow> dent list option) \<Rightarrow> cstr list \<Rightarrow> u32 \<Rightarrow> u32 option" where
  "walk D [] i = Some i"
| "walk D (c # cs) i = Option.bind (D i) (\<lambda>es. Option.bind (name_in es c) (walk D cs))"

definition path_of :: "cstr list \<Rightarrow> cstr" where
  "path_of cs = concat (map (\<lambda>c. SLASH # c) cs)"

definition comp_ok :: "cstr \<Rightarrow> bool" where
  "comp_ok c \<longleftrightarrow> c \<noteq> [] \<and> SLASH \<notin> set c \<and> length c < 256"

definition take_frames :: "nat \<Rightarrow> pmm \<Rightarrow> pmm" where
  "take_frames n pm = pm\<lparr>pmm_stack := take (length (pmm_stack pm) - n) (pmm_stack pm)\<rparr>"

lemma path_of_simps [simp]: "path_of [] = []" "path_of (c # cs) = SLASH # c @ path_of cs"
  by (simp_all add: path_of_def)

lemma length_dir_bytes_pos: "es \<noteq> [] \<Longrightarrow> 0 < length (dir_bytes es)"
  by (cases es) simp_all

lemma dir_read_frame:
  assumes "is_dir ino" "i_size ino = of_nat (length (dir_bytes es))" "read_data d sb ino 0 (i_size ino) = Ret (dir_bytes es)"
    and "list_all dent_ok es" "es \<noteq> []" "length (dir_bytes es) \<le> PAGE_BYTES" "pmm_stack pm \<noteq> []" "0 \<notin> set (pmm_stack pm)"
  shows "dir_read d sb ino dir_new pm =
    (Ret (), \<lparr>m_data = Some (last (pmm_stack pm), dir_bytes es @ replicate (PAGE_BYTES - length (dir_bytes es)) 0),
       m_size = i_size ino, m_entry_count = length es\<rparr>, take_frames 1 pm)"
proof -
  have sz: "unat (i_size ino) = length (dir_bytes es)"
    using assms(2,6) by (simp add: unat_of_nat)
  then have nz: "i_size ino \<noteq> 0" "dir_bytes es \<noteq> []"
    using length_dir_bytes_pos [OF assms(5)] by auto
  have "last (pmm_stack pm) \<noteq> 0"
    using assms(7,8) last_in_set by metis
  moreover have "dir_entries (dir_bytes es @ replicate (PAGE_BYTES - length (dir_bytes es)) 0) (length (dir_bytes es)) 0 0 = Ret (length es)"
    using dir_entries_count [OF assms(4), of "[]" _ 0] by simp
  moreover have "pm\<lparr>pmm_stack := butlast (pmm_stack pm)\<rparr> = take_frames 1 pm"
    by (simp add: take_frames_def butlast_conv_take)
  ultimately show ?thesis
    using assms nz sz by (simp add: dir_read_def dir_free_def dir_new_def pmm_alloc_def splice_def Let_def)
qed

lemma resolve_step:
  assumes "holds_dirs d sb t D" "D i = Some es" "comp_ok c" "pmm_stack pm \<noteq> []" "0 \<notin> set (pmm_stack pm)"
    and "rest = [] \<or> hd rest = SLASH"
  shows "resolve_loop d sb t (c @ rest) i pm =
    (case name_in es c of None \<Rightarrow> (Fail, take_frames 1 pm)
     | Some j \<Rightarrow> resolve_loop d sb t (dropWhile (\<lambda>c. c = SLASH) rest) j (take_frames 1 pm))"
proof -
  obtain ino where ino: "read_from_disk d sb t i = Ret ino" "is_dir ino" "i_size ino = of_nat (length (dir_bytes es))"
      "read_data d sb ino 0 (i_size ino) = Ret (dir_bytes es)"
    and es: "list_all dent_ok es" "es \<noteq> []" "length (dir_bytes es) \<le> PAGE_BYTES"
    using assms(1,2) unfolding holds_dirs_def by blast
  note dr = dir_read_frame [OF ino(2-4) es assms(4,5)]
  have sz: "unat (i_size ino) = length (dir_bytes es)"
    using ino(3) es(3) by (simp add: unat_of_nat)
  have look: "dir_lookup \<lparr>m_data = Some (a, dir_bytes es @ z), m_size = i_size ino, m_entry_count = n\<rparr> c =
      (case name_in es c of None \<Rightarrow> Fail | Some j \<Rightarrow> Ret j)" for a z n
    using dir_find_entries [OF es(1), of "[]" z c] by (simp add: dir_lookup_def sz name_in_def split: option.split)
  have seg: "takeWhile (\<lambda>c. c \<noteq> SLASH) (c @ rest) = c" "dropWhile (\<lambda>c. c \<noteq> SLASH) (c @ rest) = rest"
    using assms(3,6) by (cases rest; auto simp: comp_ok_def takeWhile_append dropWhile_append)+
  show ?thesis
    using assms(3) ino(1,2)
    by (subst resolve_loop.simps) (simp add: Let_def seg dr look comp_ok_def split: option.split)
qed

lemma take_frames_add: "take_frames m (take_frames n pm) = take_frames (n + m) pm"
  by (simp add: take_frames_def min_absorb1 min_absorb2)

lemma take_frames_stack:
  "length (pmm_stack (take_frames n pm)) = length (pmm_stack pm) - n" "set (pmm_stack (take_frames n pm)) \<subseteq> set (pmm_stack pm)"
  using set_take_subset by (simp_all add: take_frames_def)

lemma comp_path:
  assumes "list_all comp_ok cs"
  shows "dropWhile (\<lambda>c. c = SLASH) (path_of cs) = (case cs of [] \<Rightarrow> [] | c # cs' \<Rightarrow> c @ path_of cs')"
proof (cases cs)
  case (Cons c cs')
  then obtain x xs where "c = x # xs" "x \<noteq> SLASH"
    using assms by (cases c) (auto simp: comp_ok_def)
  with Cons show ?thesis
    by simp
qed simp

lemma path_of_start: "path_of cs = [] \<or> hd (path_of cs) = SLASH"
  by (cases cs) simp_all

text \<open>A path whose first part leads to a directory is resolved from that directory on.\<close>

lemma resolve_walk:
  assumes "holds_dirs d sb t D"
  shows "list_all comp_ok (cs @ cs') \<Longrightarrow> length cs \<le> length (pmm_stack pm) \<Longrightarrow> 0 \<notin> set (pmm_stack pm) \<Longrightarrow> walk D cs i = Some j \<Longrightarrow>
    resolve_loop d sb t (dropWhile (\<lambda>c. c = SLASH) (path_of (cs @ cs'))) i pm =
    resolve_loop d sb t (dropWhile (\<lambda>c. c = SLASH) (path_of cs')) j (take_frames (length cs) pm)"
proof (induction cs arbitrary: i pm)
  case Nil
  then show ?case
    by (simp add: take_frames_def)
next
  case (Cons c cs)
  obtain es k where es: "D i = Some es" "name_in es c = Some k" "walk D cs k = Some j"
    using Cons.prems(4) by (auto simp: Option.bind_eq_Some_conv)
  have c: "comp_ok c" "list_all comp_ok (cs @ cs')"
    using Cons.prems(1) by simp_all
  have "pmm_stack pm \<noteq> []"
    using Cons.prems(2) by auto
  then have "resolve_loop d sb t (c @ path_of (cs @ cs')) i pm =
      resolve_loop d sb t (dropWhile (\<lambda>c. c = SLASH) (path_of (cs @ cs'))) k (take_frames 1 pm)"
    using resolve_step [OF assms es(1) c(1) _ Cons.prems(3) path_of_start] es(2) by simp
  also have "\<dots> = resolve_loop d sb t (dropWhile (\<lambda>c. c = SLASH) (path_of cs')) j (take_frames (length cs) (take_frames 1 pm))"
    using Cons.prems(2,3) take_frames_stack [of 1 pm] by (intro Cons.IH c es(3)) auto
  finally show ?case
    using comp_path [OF Cons.prems(1)] by (simp add: take_frames_add)
qed

text \<open>
  C34. Paths are resolved through the tree of directories: on a disk that holds the directories \<open>D\<close>, a path whose
  components lead from the root to an inode resolves to that inode, and fails at the first name a directory does
  not have. Each directory on the way takes one frame from the allocator, and none is ever given back.
\<close>

theorem resolve_path_walks:
  assumes "holds_dirs (x_disk x) (x_sb x) (x_bgt x) D" "list_all comp_ok (cs @ c # cs')" "walk D cs EXT3_ROOT_INO = Some i"
    and "D i = Some es" "length cs < length (pmm_stack (x_pmm x))" "0 \<notin> set (pmm_stack (x_pmm x))"
  shows "(case name_in es c of
      None \<Rightarrow> resolve_path (path_of (cs @ c # cs')) x = (Fail, x\<lparr>x_pmm := take_frames (length cs + 1) (x_pmm x)\<rparr>)
    | Some j \<Rightarrow> resolve_path (path_of (cs @ [c])) x = (Ret j, x\<lparr>x_pmm := take_frames (length cs + 1) (x_pmm x)\<rparr>))"
proof -
  let ?loop = "resolve_loop (x_disk x) (x_sb x) (x_bgt x)" and ?pm = "x_pmm x"
  have path: "path_of (cs @ c # ds) \<noteq> []" "hd (path_of (cs @ c # ds)) = SLASH" for ds
    by (cases cs; simp)+
  have loop: "?loop (dropWhile (\<lambda>c. c = SLASH) (path_of (cs @ c # ds))) EXT3_ROOT_INO ?pm =
      (case name_in es c of None \<Rightarrow> (Fail, take_frames (length cs + 1) ?pm)
       | Some j \<Rightarrow> ?loop (dropWhile (\<lambda>c. c = SLASH) (path_of ds)) j (take_frames (length cs + 1) ?pm))"
    if ds: "list_all comp_ok (cs @ c # ds)" for ds
  proof -
    have c: "comp_ok c" "list_all comp_ok (c # ds)"
      using ds by simp_all
    have st: "pmm_stack (take_frames (length cs) ?pm) \<noteq> []" "0 \<notin> set (pmm_stack (take_frames (length cs) ?pm))"
      using take_frames_stack [of "length cs" ?pm] assms(5,6) by auto
    have "?loop (dropWhile (\<lambda>c. c = SLASH) (path_of (cs @ c # ds))) EXT3_ROOT_INO ?pm =
        ?loop (c @ path_of ds) i (take_frames (length cs) ?pm)"
      using resolve_walk [OF assms(1) ds _ assms(6,3)] assms(5) comp_path [OF c(2)] by simp
    also have "\<dots> = (case name_in es c of None \<Rightarrow> (Fail, take_frames (length cs + 1) ?pm)
       | Some j \<Rightarrow> ?loop (dropWhile (\<lambda>c. c = SLASH) (path_of ds)) j (take_frames (length cs + 1) ?pm))"
      unfolding resolve_step [OF assms(1,4) c(1) st path_of_start] take_frames_add ..
    finally show ?thesis .
  qed
  have end_: "?loop [] j pm = (Ret j, pm)" for j pm
    by (simp add: resolve_loop.simps)
  have "list_all comp_ok (cs @ [c])"
    using assms(2) by simp
  then show ?thesis
    using loop [OF assms(2)] loop [of "[]"] path end_ by (simp add: resolve_path_def split: option.split)
qed

text \<open>A disk with a root directory in block 6 and the table of inodes in block 5.\<close>

definition root_inode :: "u8 list" where
  "root_inode = put16 0x4000 @ put16 0 @ put32 36 @ replicate 28 0 @ put32 6 @ replicate 84 0"

definition sample_img :: "u8 list" where
  "sample_img = replicate 5120 0 @ (replicate 128 0 @ root_inode @ replicate 772 0) @ (dir_bytes sample_dents @ replicate 988 0)"

definition sample_fs :: ext3 where
  "sample_fs = \<lparr>x_sb = sample_sb, x_bgt = \<lparr>m_table = Some (0x2000, put32 3 @ put32 4 @ put32 5 @ replicate 4084 0), m_count = 1\<rparr>,
     x_disk = sample_disk sample_img, x_mounted = True, x_dev = [],
     x_files = replicate 16 \<lparr>f_inode_no = 0, f_inode = sample_inode, f_pos = 0, f_in_use = False\<rparr>,
     x_pmm = \<lparr>pmm_stack = [0x3000, 0x4000], pmm_total_memory = 0\<rparr>\<rparr>"

lemma root_inode_fields:
  "i_mode (inode_disk (root_inode @ z) 2) = 0x4000" "i_size (inode_disk (root_inode @ z) 2) = 36"
  "i_block (inode_disk (root_inode @ z) 2) ! 0 = 6" "i_block (inode_disk (root_inode @ z) 2) ! 12 = 0"
proof -
  have "get32 (root_inode @ z) 4 = 36"
    using get32_put32 [of 4 "put16 0x4000 @ put16 0" 36] by (simp add: root_inode_def)
  moreover have "get32 (root_inode @ z) 36 = 6"
    using get32_put32 [of 36 "put16 0x4000 @ put16 0 @ put32 36 @ replicate 28 0" 6] by (simp add: root_inode_def)
  moreover have "get16 (root_inode @ z) 0 = 0x4000"
    using get16_put16 [of 0 "[]" "0x4000"] by (simp add: root_inode_def)
  moreover have "get32 (root_inode @ z) 84 = 0"
    by (simp add: root_inode_def get32_def nth_append)
  ultimately show "i_mode (inode_disk (root_inode @ z) 2) = 0x4000" "i_size (inode_disk (root_inode @ z) 2) = 36"
    "i_block (inode_disk (root_inode @ z) 2) ! 0 = 6" "i_block (inode_disk (root_inode @ z) 2) ! 12 = 0"
    by (simp_all add: inode_disk_def)
qed

lemma sample_img_blocks:
  "length sample_img = 7168" "img_block sample_img 1024 5 = replicate 128 0 @ root_inode @ replicate 772 0"
  "img_block sample_img 1024 6 = dir_bytes sample_dents @ replicate 988 0"
  by (simp_all add: sample_img_def img_block_def root_inode_def)

lemma sample_fs_dirs: "holds_dirs (x_disk sample_fs) (x_sb sample_fs) (x_bgt sample_fs) [2 \<mapsto> sample_dents]"
proof -
  let ?d = "sample_disk sample_img" and ?t = "x_bgt sample_fs"
  let ?ino = "inode_disk (root_inode @ replicate 772 0) 2"
  have img: "disk_img ?d sample_img"
    by (rule sample_disk) (simp_all add: sample_img_blocks)
  have geo: "fs_geometry ?d 1024"
    by (simp add: fs_geometry_def sample_disk_def)
  have "get32 (put32 3 @ put32 4 @ put32 5 @ replicate 4084 0) 8 = 5"
    using get32_put32 [of 8 "put32 3 @ put32 4" 5] by simp
  then have t: "inode_table ?t 0 = 5"
    by (simp add: inode_table_def bgt_get_def sample_fs_def)
  have "read_block EXT3_MAX_BLOCK_SIZE ?d 5 1024 = Ret (img_block sample_img (unat (1024 :: u32)) (unat (5 :: u32)))"
    using img by (rule read_block_img) (simp_all add: sample_img_blocks, simp add: sample_disk_def)
  then have r: "read_from_disk ?d sample_sb ?t 2 = Ret ?ino"
    by (simp add: read_from_disk_def Let_def t inode_size_def sample_img_blocks root_inode_def)
  have ok: "inode_ok sample_img (unat (sb_block_size sample_sb)) ?ino"
    using root_inode_fields [of "replicate 772 0"] by (simp add: inode_ok_def block_in_def file_ptr_cases sample_img_blocks)
  have "file_bytes sample_img 1024 ?ino = dir_bytes sample_dents"
    using root_inode_fields [of "replicate 772 0"] by (simp add: file_bytes_def file_block_def file_ptr_cases sample_img_blocks)
  then have "read_data ?d sample_sb ?ino 0 (i_size ?ino) = Ret (dir_bytes sample_dents)"
    using read_data_file [OF img _ ok, of 0 "i_size ?ino"] geo root_inode_fields [of "replicate 772 0"] by simp
  then show ?thesis
    using r root_inode_fields [of "replicate 772 0"] by (auto simp: holds_dirs_def dent_ok_def is_dir_def sample_fs_def)
qed

theorem resolve_path_walks_witness:
  "resolve_path (path_of [[0x61, 0x62]]) sample_fs =
     (Ret 12, sample_fs\<lparr>x_pmm := \<lparr>pmm_stack = [0x3000], pmm_total_memory = 0\<rparr>\<rparr>)"
proof -
  have f: "pmm_stack (x_pmm sample_fs) = [0x3000, 0x4000]" "take_frames 1 (x_pmm sample_fs) = \<lparr>pmm_stack = [0x3000], pmm_total_memory = 0\<rparr>"
    by (simp_all add: sample_fs_def take_frames_def)
  have "list_all comp_ok ([] @ [0x61, 0x62] # [])" "walk [2 \<mapsto> sample_dents] [] EXT3_ROOT_INO = Some 2"
      "[2 \<mapsto> sample_dents] 2 = Some sample_dents" "length [] < length (pmm_stack (x_pmm sample_fs))" "0 \<notin> set (pmm_stack (x_pmm sample_fs))"
    by (simp_all add: comp_ok_def f)
  from resolve_path_walks [OF sample_fs_dirs this] show ?thesis
    by (simp add: name_in_def f del: One_nat_def)
qed

section \<open>Reading through a descriptor\<close>

fun ext3_reads :: "int \<Rightarrow> u32 list \<Rightarrow> ext3 \<Rightarrow> u8 list io \<times> ext3" where
  "ext3_reads fd [] x = (Ret [], x)"
| "ext3_reads fd (n # ns) x =
     (case ext3_read fd n x of (r, x1) \<Rightarrow>
        (case r of Ret bs \<Rightarrow> (case ext3_reads fd ns x1 of (r, x2) \<Rightarrow> (io_bind r (\<lambda>cs. Ret (bs @ cs)), x2)) | _ \<Rightarrow> (r, x1)))"

text \<open>A descriptor that is open on a file of less than 2 GB whose blocks are on the disk, at a position in it.\<close>

definition open_on :: "int \<Rightarrow> u8 list \<Rightarrow> nat \<Rightarrow> ext3 \<Rightarrow> bool" where
  "open_on fd img pos x \<longleftrightarrow> length (x_files x) = MAX_OPEN_FILES \<and> fd_valid fd x \<and> disk_img (x_disk x) img \<and>
     fs_geometry (x_disk x) (sb_block_size (x_sb x)) \<and>
     (let f = x_files x ! nat fd in inode_ok img (unat (sb_block_size (x_sb x))) (f_inode f) \<and> unat (f_pos f) = pos \<and>
        pos \<le> unat (i_size (f_inode f)) \<and> unat (i_size (f_inode f)) < 2 ^ 31)"

abbreviation fd_bytes :: "int \<Rightarrow> u8 list \<Rightarrow> ext3 \<Rightarrow> u8 list" where
  "fd_bytes fd img x \<equiv> file_bytes img (unat (sb_block_size (x_sb x))) (f_inode (x_files x ! nat fd))"

definition at_pos :: "int \<Rightarrow> nat \<Rightarrow> ext3 \<Rightarrow> ext3" where
  "at_pos fd n x = upd_file (nat fd) (\<lambda>f. f\<lparr>f_pos := of_nat n\<rparr>) x"

lemma sint_of_nat_small: "n < 2 ^ 31 \<Longrightarrow> sint (of_nat n :: u32) = int n"
  by (simp add: signed_of_nat signed_take_bit_int_eq_self)

lemma read_limit:
  fixes pos len fsize :: u32
  assumes "pos < fsize" "length F = unat fsize"
  shows "take (unat (if fsize < pos + len then fsize - pos else len)) (drop (unat pos) F) = take (unat len) (drop (unat pos) F)"
proof (cases "fsize < pos + len")
  case True
  have le: "unat (fsize - pos) = unat fsize - unat pos"
    using unat_sub [OF less_imp_le [OF assms(1)]] .
  have "unat (pos + len) \<le> unat pos + unat len"
    by (simp add: unat_word_ariths)
  then have "unat fsize - unat pos \<le> unat len"
    using True by (simp add: word_less_nat_alt)
  then show ?thesis
    using True assms(2) by (simp add: le)
qed simp

lemma ext3_read_part:
  assumes "open_on fd img pos x"
  defines "F \<equiv> fd_bytes fd img x"
  shows "ext3_read fd len x = (Ret (take (unat len) (drop pos F)), at_pos fd (min (length F) (pos + unat len)) x)"
proof -
  let ?f = "x_files x ! nat fd" and ?bs = "sb_block_size (x_sb x)"
  have o: "fd_valid fd x" "disk_img (x_disk x) img" "fs_geometry (x_disk x) ?bs" "inode_ok img (unat ?bs) (f_inode ?f)"
      "unat (f_pos ?f) = pos" "pos \<le> unat (i_size (f_inode ?f))" "unat (i_size (f_inode ?f)) < 2 ^ 31"
      "length (x_files x) = MAX_OPEN_FILES"
    using assms(1) by (simp_all add: open_on_def Let_def)
  have fd: "nat fd < length (x_files x)"
    using o(1,8) by (simp add: fd_valid_def nat_less_iff)
  have "0 < unat ?bs"
    using o(3) by (simp add: fs_geometry_def unat_gt_0)
  then have F: "length F = unat (i_size (f_inode ?f))"
    unfolding F_def using length_file_bytes [OF o(4)] by blast
  have same: "at_pos fd pos x = x"
    using o(5) fd by (simp add: at_pos_def upd_file_def flip: o(5))
  show ?thesis
  proof (cases "f_pos ?f < i_size (f_inode ?f)")
    case True
    let ?len = "if i_size (f_inode ?f) < f_pos ?f + len then i_size (f_inode ?f) - f_pos ?f else len"
    have "read_data (x_disk x) (x_sb x) (f_inode ?f) (f_pos ?f) ?len = Ret (take (unat len) (drop pos F))"
      unfolding read_data_file [OF o(2-4)] using read_limit [OF True F] by (simp add: F_def o(5))
    moreover have n: "pos + length (take (unat len) (drop pos F)) = min (length F) (pos + unat len)"
      using o(6) F by simp
    moreover have "length (take (unat len) (drop pos F)) < 2 ^ 31"
      using o(7) F by simp
    ultimately have "ext3_read fd len x = (Ret (take (unat len) (drop pos F)),
        if 0 < length (take (unat len) (drop pos F)) then upd_file (nat fd) (\<lambda>f. f\<lparr>f_pos := f_pos f + of_nat (length (take (unat len) (drop pos F)))\<rparr>) x else x)"
      using True o(1) by (simp add: ext3_read_def Let_def sint_of_nat_small not_le)
    moreover have "upd_file (nat fd) (\<lambda>f. f\<lparr>f_pos := f_pos f + of_nat m\<rparr>) x = at_pos fd (pos + m) x" for m
      using o(5) by (simp add: upd_file_def at_pos_def flip: o(5))
    ultimately show ?thesis
      using n same by (cases "length (take (unat len) (drop pos F)) = 0") (simp_all only: add_0_right if_True if_False less_irrefl neq0_conv)
  next
    case False
    then have "pos = length F"
      using o(5,6) F by (simp add: word_less_nat_alt)
    then show ?thesis
      using False o(1) same by (simp add: ext3_read_def Let_def not_less)
  qed
qed

lemma at_pos_frame:
  "x_disk (at_pos fd n x) = x_disk x" "x_sb (at_pos fd n x) = x_sb x" "length (x_files (at_pos fd n x)) = length (x_files x)"
  by (simp_all add: at_pos_def upd_file_def)

lemma at_pos_file:
  "nat fd < length (x_files x) \<Longrightarrow> x_files (at_pos fd n x) ! nat fd = (x_files x ! nat fd)\<lparr>f_pos := of_nat n\<rparr>"
  "nat fd < length (x_files x) \<Longrightarrow> at_pos fd m (at_pos fd n x) = at_pos fd m x"
  by (simp_all add: at_pos_def upd_file_def)

lemma open_on_at_pos:
  assumes "open_on fd img pos x" "n \<le> length (fd_bytes fd img x)"
  shows "open_on fd img n (at_pos fd n x)" "fd_bytes fd img (at_pos fd n x) = fd_bytes fd img x"
proof -
  let ?f = "x_files x ! nat fd" and ?bs = "sb_block_size (x_sb x)"
  have o: "fd_valid fd x" "disk_img (x_disk x) img" "fs_geometry (x_disk x) ?bs" "inode_ok img (unat ?bs) (f_inode ?f)"
      "unat (i_size (f_inode ?f)) < 2 ^ 31" "length (x_files x) = MAX_OPEN_FILES"
    using assms(1) by (simp_all add: open_on_def Let_def)
  have fd: "nat fd < length (x_files x)"
    using o(1,6) by (simp add: fd_valid_def nat_less_iff)
  have "0 < unat ?bs"
    using o(3) by (simp add: fs_geometry_def unat_gt_0)
  then have n: "n \<le> unat (i_size (f_inode ?f))"
    using assms(2) length_file_bytes [OF o(4)] by simp
  then have "unat (of_nat n :: u32) = n"
    using o(5) by (simp add: unat_of_nat)
  then show "open_on fd img n (at_pos fd n x)"
    using o n fd by (simp add: open_on_def Let_def at_pos_frame at_pos_file fd_valid_def)
  show "fd_bytes fd img (at_pos fd n x) = fd_bytes fd img x"
    using fd by (simp add: at_pos_frame at_pos_file)
qed

text \<open>
  C40. Reads through a descriptor deliver the file in order: any sequence of reads returns the bytes from the
  position of the descriptor on, each once and none behind the end of the file, and leaves the position behind
  the last byte returned. Behind the blocks of the indirect block the bytes of the file count as zeros.
\<close>

theorem ext3_reads_in_order:
  assumes "open_on fd img pos x"
  shows "ext3_reads fd ns x = (Ret (take (sum_list (map unat ns)) (drop pos (fd_bytes fd img x))),
    at_pos fd (min (length (fd_bytes fd img x)) (pos + sum_list (map unat ns))) x)"
  using assms
proof (induction ns arbitrary: pos x)
  case Nil
  let ?f = "x_files x ! nat fd"
  have "nat fd < length (x_files x)" "unat (f_pos ?f) = pos"
    using Nil by (simp_all add: open_on_def Let_def fd_valid_def nat_less_iff)
  then have "at_pos fd pos x = x"
    by (simp add: at_pos_def upd_file_def flip: \<open>unat (f_pos ?f) = pos\<close>)
  moreover have "pos \<le> length (fd_bytes fd img x)"
    using Nil length_file_bytes [of img "unat (sb_block_size (x_sb x))" "f_inode ?f"]
    by (simp add: open_on_def Let_def fs_geometry_def unat_gt_0)
  ultimately show ?case
    by simp
next
  case (Cons n ns)
  let ?F = "fd_bytes fd img x" and ?p = "min (length (fd_bytes fd img x)) (pos + unat n)" and ?s = "sum_list (map unat ns)"
  have fd: "nat fd < length (x_files x)"
    using Cons.prems by (simp add: open_on_def fd_valid_def nat_less_iff)
  note o = open_on_at_pos [OF Cons.prems, of ?p, OF min.cobounded1]
  have "ext3_reads fd ns (at_pos fd ?p x) = (Ret (take ?s (drop ?p ?F)), at_pos fd (min (length ?F) (?p + ?s)) x)"
    using Cons.IH [OF o(1)] at_pos_file(2) [OF fd] unfolding o(2) by simp
  moreover have "take (unat n) (drop pos ?F) @ take ?s (drop ?p ?F) = take (unat n + ?s) (drop pos ?F)"
    by (cases "length ?F \<le> pos + unat n") (simp_all add: take_add add.commute)
  moreover have "min (length ?F) (?p + ?s) = min (length ?F) (pos + (unat n + ?s))"
    by linarith
  ultimately show ?case
    unfolding ext3_reads.simps ext3_read_part [OF Cons.prems] by simp
qed

theorem ext3_reads_in_order_witness:
  "ext3_reads 0 [600, 600, 600] (sample_fs\<lparr>x_files := \<lparr>f_inode_no = 12, f_inode = sample_inode\<lparr>i_block := 6 # replicate 14 0\<rparr>, f_pos = 0,
       f_in_use = True\<rparr> # replicate 15 \<lparr>f_inode_no = 0, f_inode = sample_inode, f_pos = 0, f_in_use = False\<rparr>\<rparr>) =
   (Ret (dir_bytes sample_dents @ replicate 964 0), sample_fs\<lparr>x_files := \<lparr>f_inode_no = 12,
       f_inode = sample_inode\<lparr>i_block := 6 # replicate 14 0\<rparr>, f_pos = 1000, f_in_use = True\<rparr> #
       replicate 15 \<lparr>f_inode_no = 0, f_inode = sample_inode, f_pos = 0, f_in_use = False\<rparr>\<rparr>)"
  (is "ext3_reads 0 _ ?x = _")
proof -
  let ?ino = "sample_inode\<lparr>i_block := 6 # replicate 14 0\<rparr>"
  have d: "x_disk sample_fs = sample_disk sample_img" "x_sb sample_fs = sample_sb"
    by (simp_all add: sample_fs_def)
  have img: "disk_img (sample_disk sample_img) sample_img"
    by (rule sample_disk) (simp_all add: sample_img_blocks)
  have "inode_ok sample_img 1024 ?ino"
    by (simp add: inode_ok_def block_in_def file_ptr_cases sample_img_blocks)
  then have "open_on 0 sample_img 0 ?x"
    using img by (simp add: open_on_def fd_valid_def d fs_geometry_def sample_disk_def)
  moreover have "fd_bytes 0 sample_img ?x = dir_bytes sample_dents @ replicate 964 0"
    by (simp add: d file_bytes_def file_block_def file_ptr_cases sample_img_blocks)
  ultimately show ?thesis
    using ext3_reads_in_order [of 0 sample_img 0 ?x "[600, 600, 600]"] by (simp add: at_pos_def upd_file_def)
qed

end
