(* ===== verification/Io_Service.thy ===== *)
theory Io_Service
  imports Xk_Prelude
begin

text \<open>
  The registry of services, iokit/IOServiceFamily/io_service.c. A service is known by its address; the
  registry is the list of the first \<open>reg_count\<close> slots. What the \<open>init\<close> of a service returns is an argument that
  may depend on the calls made before; the calls of \<open>init\<close> and \<open>exit\<close> are recorded in order and are taken not to
  call the registry. A name is the text before its terminator, so that \<open>strcmp\<close> gives 0 exactly on equal names;
  a null name is \<open>None\<close>. A call through a null function pointer makes the whole operation \<open>None\<close>. The description and
  the log output are left out.
\<close>

section \<open>Model\<close>

record io_service =
  sv_name :: "cstr option"
  sv_init :: bool
  sv_exit :: bool
  sv_registered :: bool
  sv_started :: bool

datatype sv_event = Init u64 | Exit u64

record registry =
  rg_svc :: "u64 \<Rightarrow> io_service"
  rg_reg :: "u64 list"
  rg_log :: "sv_event list"

abbreviation IO_SERVICE_MAX :: nat where "IO_SERVICE_MAX \<equiv> 32"
abbreviation IOSVC_OK :: int where "IOSVC_OK \<equiv> 0"
abbreviation IOSVC_ERR :: int where "IOSVC_ERR \<equiv> - 1"
abbreviation IOSVC_E_FULL :: int where "IOSVC_E_FULL \<equiv> - 2"
abbreviation IOSVC_E_DUP :: int where "IOSVC_E_DUP \<equiv> - 3"
abbreviation IOSVC_E_NOENT :: int where "IOSVC_E_NOENT \<equiv> - 4"
abbreviation IOSVC_E_STATE :: int where "IOSVC_E_STATE \<equiv> - 5"

definition upd_svc :: "u64 \<Rightarrow> (io_service \<Rightarrow> io_service) \<Rightarrow> registry \<Rightarrow> registry" where
  "upd_svc p f s = s\<lparr>rg_svc := (rg_svc s)(p := f (rg_svc s p))\<rparr>"

definition io_service_init :: "registry \<Rightarrow> int \<times> registry" where
  "io_service_init s = (IOSVC_OK, s\<lparr>rg_reg := []\<rparr>)"

definition io_service_find :: "cstr option \<Rightarrow> registry \<Rightarrow> u64 option" where
  "io_service_find name s =
     (if name = None then None
      else List.find (\<lambda>p. sv_name (rg_svc s p) \<noteq> None \<and> sv_name (rg_svc s p) = name) (rg_reg s))"

definition io_service_count :: "registry \<Rightarrow> nat" where
  "io_service_count s = length (rg_reg s)"

definition io_service_register :: "u64 \<Rightarrow> registry \<Rightarrow> int \<times> registry" where
  "io_service_register p s =
     (if p = 0 \<or> sv_name (rg_svc s p) = None \<or> \<not> sv_init (rg_svc s p) then (IOSVC_ERR, s)
      else if IO_SERVICE_MAX \<le> length (rg_reg s) then (IOSVC_E_FULL, s)
      else if io_service_find (sv_name (rg_svc s p)) s \<noteq> None then (IOSVC_E_DUP, s)
      else (IOSVC_OK, (upd_svc p (\<lambda>v. v\<lparr>sv_registered := True, sv_started := False\<rparr>) s)\<lparr>rg_reg := rg_reg s @ [p]\<rparr>))"

definition io_service_start :: "(sv_event list \<Rightarrow> u64 \<Rightarrow> int) \<Rightarrow> cstr option \<Rightarrow> registry \<Rightarrow> (int \<times> registry) option" where
  "io_service_start rc name s =
     (case io_service_find name s of None \<Rightarrow> Some (IOSVC_E_NOENT, s)
      | Some p \<Rightarrow>
          if sv_started (rg_svc s p) then Some (IOSVC_E_STATE, s)
          else if \<not> sv_init (rg_svc s p) then None
          else let r = rc (rg_log s) p; s1 = s\<lparr>rg_log := rg_log s @ [Init p]\<rparr>
               in if r \<noteq> IOSVC_OK then Some (r, s1)
                  else Some (IOSVC_OK, upd_svc p (\<lambda>v. v\<lparr>sv_started := True\<rparr>) s1))"

definition io_service_stop :: "cstr option \<Rightarrow> registry \<Rightarrow> (int \<times> registry) option" where
  "io_service_stop name s =
     (case io_service_find name s of None \<Rightarrow> Some (IOSVC_E_NOENT, s)
      | Some p \<Rightarrow>
          if \<not> sv_started (rg_svc s p) then Some (IOSVC_E_STATE, s)
          else if \<not> sv_exit (rg_svc s p) then None
          else Some (IOSVC_OK, upd_svc p (\<lambda>v. v\<lparr>sv_started := False\<rparr>) (s\<lparr>rg_log := rg_log s @ [Exit p]\<rparr>)))"

definition io_service_unregister :: "cstr option \<Rightarrow> registry \<Rightarrow> (int \<times> registry) option" where
  "io_service_unregister name s =
     (case io_service_find name s of None \<Rightarrow> Some (IOSVC_E_NOENT, s)
      | Some p \<Rightarrow>
          map_option (\<lambda>s1. (IOSVC_OK, (upd_svc p (\<lambda>v. v\<lparr>sv_registered := False\<rparr>) s1)\<lparr>rg_reg := remove1 p (rg_reg s1)\<rparr>))
            (if sv_started (rg_svc s p) then map_option snd (io_service_stop name s) else Some s))"

fun start_each :: "(sv_event list \<Rightarrow> u64 \<Rightarrow> int) \<Rightarrow> u64 list \<Rightarrow> nat \<Rightarrow> registry \<Rightarrow> (nat \<times> registry) option" where
  "start_each rc [] ok s = Some (ok, s)"
| "start_each rc (p # ps) ok s =
     (if sv_started (rg_svc s p) then start_each rc ps ok s
      else Option.bind (io_service_start rc (sv_name (rg_svc s p)) s)
             (\<lambda>(r, s1). start_each rc ps (if r = IOSVC_OK then ok + 1 else ok) s1))"

definition io_service_start_all :: "(sv_event list \<Rightarrow> u64 \<Rightarrow> int) \<Rightarrow> registry \<Rightarrow> (nat \<times> registry) option" where
  "io_service_start_all rc s = start_each rc (rg_reg s) 0 s"

fun stop_each :: "u64 list \<Rightarrow> nat \<Rightarrow> registry \<Rightarrow> (nat \<times> registry) option" where
  "stop_each [] ok s = Some (ok, s)"
| "stop_each (p # ps) ok s =
     (if \<not> sv_started (rg_svc s p) then stop_each ps ok s
      else Option.bind (io_service_stop (sv_name (rg_svc s p)) s)
             (\<lambda>(r, s1). stop_each ps (if r = IOSVC_OK then ok + 1 else ok) s1))"

definition io_service_stop_all :: "registry \<Rightarrow> (nat \<times> registry) option" where
  "io_service_stop_all s = stop_each (rev (rg_reg s)) 0 s"

section \<open>The registry invariant\<close>

text \<open>Services in the registry are named, complete, marked as registered, and no name occurs twice.\<close>

definition registry_wf :: "registry \<Rightarrow> bool" where
  "registry_wf s \<longleftrightarrow> length (rg_reg s) \<le> IO_SERVICE_MAX \<and> distinct (map (\<lambda>p. sv_name (rg_svc s p)) (rg_reg s)) \<and>
     (\<forall>p \<in> set (rg_reg s). p \<noteq> 0 \<and> sv_name (rg_svc s p) \<noteq> None \<and> sv_init (rg_svc s p) \<and> sv_registered (rg_svc s p))"

lemma upd_svc_simps [simp]:
  "rg_reg (upd_svc p f s) = rg_reg s" "rg_log (upd_svc p f s) = rg_log s"
  "rg_svc (upd_svc p f s) q = (if q = p then f (rg_svc s p) else rg_svc s q)"
  by (simp_all add: upd_svc_def)

lemma find_none_iff: "io_service_find name s = None \<longleftrightarrow> name = None \<or> (\<forall>p \<in> set (rg_reg s). sv_name (rg_svc s p) \<noteq> name)"
  by (cases name) (auto simp: io_service_find_def find_None_iff)

lemma find_registered:
  assumes "registry_wf s" "p \<in> set (rg_reg s)" "sv_name (rg_svc s p) = name"
  shows "io_service_find name s = Some p"
proof -
  have inj: "inj_on (\<lambda>p. sv_name (rg_svc s p)) (set (rg_reg s))"
    using assms(1) by (simp add: registry_wf_def distinct_map)
  have name: "name \<noteq> None"
    using assms by (auto simp: registry_wf_def)
  then obtain q where q: "io_service_find name s = Some q"
    using assms(2,3) by (cases "io_service_find name s") (auto simp: find_none_iff)
  with name have "q \<in> set (rg_reg s)" "sv_name (rg_svc s q) = sv_name (rg_svc s p)"
    using assms(3) by (auto simp: io_service_find_def find_Some_iff)
  then have "q = p"
    using inj_onD [OF inj] assms(2) by simp
  with q show ?thesis by simp
qed

lemma registry_wf_same:
  assumes "registry_wf s" "rg_reg s' = rg_reg s"
    and "\<And>p. sv_name (rg_svc s' p) = sv_name (rg_svc s p) \<and> sv_init (rg_svc s' p) = sv_init (rg_svc s p) \<and>
      sv_registered (rg_svc s' p) = sv_registered (rg_svc s p)"
  shows "registry_wf s'"
  using assms by (simp add: registry_wf_def)

lemma registry_wf_start: "registry_wf s \<Longrightarrow> io_service_start rc name s = Some (r, s') \<Longrightarrow> registry_wf s'"
  by (erule registry_wf_same) (auto simp: io_service_start_def Let_def split: option.splits if_splits)

lemma registry_wf_stop: "registry_wf s \<Longrightarrow> io_service_stop name s = Some (r, s') \<Longrightarrow> registry_wf s'"
  by (erule registry_wf_same) (auto simp: io_service_stop_def split: option.splits if_splits)

lemma registry_wf_register:
  assumes "registry_wf s"
  shows "registry_wf (snd (io_service_register p s))"
proof (cases "fst (io_service_register p s) = IOSVC_OK")
  case True
  then have n: "sv_name (rg_svc s p) \<noteq> None" "p \<noteq> 0" "sv_init (rg_svc s p)" "length (rg_reg s) < IO_SERVICE_MAX"
      "io_service_find (sv_name (rg_svc s p)) s = None"
    by (auto simp: io_service_register_def split: if_splits)
  then have new: "p \<notin> set (rg_reg s)" "sv_name (rg_svc s p) \<notin> (\<lambda>q. sv_name (rg_svc s q)) ` set (rg_reg s)"
    unfolding find_none_iff by (auto simp: image_iff)
  define s' where "s' = snd (io_service_register p s)"
  have s': "rg_reg s' = rg_reg s @ [p]"
      "rg_svc s' q = (if q = p then (rg_svc s p)\<lparr>sv_registered := True, sv_started := False\<rparr> else rg_svc s q)" for q
    using n by (auto simp: s'_def io_service_register_def)
  have "(\<lambda>q. sv_name (rg_svc s' q)) = (\<lambda>q. sv_name (rg_svc s q))"
    by (simp add: s'(2) fun_eq_iff)
  then have "registry_wf s'"
    using n new assms s' by (simp add: registry_wf_def)
  then show ?thesis by (simp add: s'_def)
next
  case False
  then have "snd (io_service_register p s) = s"
    by (auto simp: io_service_register_def split: option.splits if_splits)
  with assms show ?thesis by simp
qed

lemma registry_wf_unregister:
  assumes "registry_wf s" "io_service_unregister name s = Some (r, s')"
  shows "registry_wf s'"
proof (cases "io_service_find name s")
  case (Some p)
  obtain s1 where s1: "(if sv_started (rg_svc s p) then map_option snd (io_service_stop name s) else Some s) = Some s1"
      "s' = (upd_svc p (\<lambda>v. v\<lparr>sv_registered := False\<rparr>) s1)\<lparr>rg_reg := remove1 p (rg_reg s1)\<rparr>"
    using assms(2) Some by (auto simp: io_service_unregister_def)
  have "registry_wf s1"
    using s1(1) assms(1) registry_wf_stop by (auto split: if_splits)
  then have wf: "length (rg_reg s1) \<le> IO_SERVICE_MAX" "distinct (map (\<lambda>p. sv_name (rg_svc s1 p)) (rg_reg s1))" "distinct (rg_reg s1)"
      "\<And>q. q \<in> set (rg_reg s1) \<Longrightarrow> q \<noteq> 0 \<and> sv_name (rg_svc s1 q) \<noteq> None \<and> sv_init (rg_svc s1 q) \<and> sv_registered (rg_svc s1 q)"
    by (auto simp: registry_wf_def distinct_map)
  have "(\<lambda>q. sv_name (rg_svc s' q)) = (\<lambda>q. sv_name (rg_svc s1 q))"
    by (simp add: s1(2) fun_eq_iff)
  moreover have "distinct (map (\<lambda>q. sv_name (rg_svc s1 q)) (remove1 p (rg_reg s1)))"
    using wf(2,3) by (auto simp: distinct_map inj_on_def)
  ultimately show ?thesis
    using wf by (auto simp: registry_wf_def s1(2) length_remove1)
qed (use assms in \<open>simp add: io_service_unregister_def\<close>)

section \<open>Order of starting and stopping\<close>

lemma start_each_order:
  assumes "\<forall>l. \<forall>p \<in> set ps. rc l p = IOSVC_OK"
  shows "registry_wf s \<Longrightarrow> set ps \<subseteq> set (rg_reg s) \<Longrightarrow> distinct ps \<Longrightarrow> \<forall>p \<in> set ps. \<not> sv_started (rg_svc s p) \<Longrightarrow>
    \<exists>s'. start_each rc ps n s = Some (n + length ps, s') \<and> rg_log s' = rg_log s @ map Init ps \<and> rg_reg s' = rg_reg s \<and> registry_wf s' \<and>
      (\<forall>p. rg_svc s' p = (if p \<in> set ps then (rg_svc s p)\<lparr>sv_started := True\<rparr> else rg_svc s p))"
  using assms
proof (induction ps arbitrary: n s)
  case (Cons p ps)
  have p: "p \<in> set (rg_reg s)" "sv_init (rg_svc s p)"
    using Cons.prems(1,2) by (auto simp: registry_wf_def)
  define s1 where "s1 = upd_svc p (\<lambda>v. v\<lparr>sv_started := True\<rparr>) (s\<lparr>rg_log := rg_log s @ [Init p]\<rparr>)"
  have st: "io_service_start rc (sv_name (rg_svc s p)) s = Some (IOSVC_OK, s1)" "rg_log s1 = rg_log s @ [Init p]" "rg_reg s1 = rg_reg s"
      "\<And>q. rg_svc s1 q = (if q = p then (rg_svc s p)\<lparr>sv_started := True\<rparr> else rg_svc s q)"
    using Cons.prems p find_registered [OF Cons.prems(1) p(1) refl] by (auto simp: io_service_start_def s1_def)
  have wf: "registry_wf s1"
    using registry_wf_start [OF Cons.prems(1) st(1)] .
  have "p \<notin> set ps"
    using Cons.prems(3) by simp
  then have "\<forall>q \<in> set ps. \<not> sv_started (rg_svc s1 q)"
    using Cons.prems(4) st(4) by auto
  then obtain s' where "start_each rc ps (n + 1) s1 = Some (n + 1 + length ps, s')" "rg_log s' = rg_log s1 @ map Init ps"
      "rg_reg s' = rg_reg s1" "registry_wf s'"
      "\<forall>q. rg_svc s' q = (if q \<in> set ps then (rg_svc s1 q)\<lparr>sv_started := True\<rparr> else rg_svc s1 q)"
    using Cons.IH [OF wf, of "n + 1"] Cons.prems(2,3,5) st(3) by auto
  then show ?case
    using Cons.prems(4) st \<open>p \<notin> set ps\<close> by auto
qed simp

lemma stop_each_order:
  "registry_wf s \<Longrightarrow> set ps \<subseteq> set (rg_reg s) \<Longrightarrow> distinct ps \<Longrightarrow> \<forall>p \<in> set ps. sv_started (rg_svc s p) \<and> sv_exit (rg_svc s p) \<Longrightarrow>
    \<exists>s'. stop_each ps n s = Some (n + length ps, s') \<and> rg_log s' = rg_log s @ map Exit ps \<and> rg_reg s' = rg_reg s \<and> registry_wf s' \<and>
      (\<forall>p. rg_svc s' p = (if p \<in> set ps then (rg_svc s p)\<lparr>sv_started := False\<rparr> else rg_svc s p))"
proof (induction ps arbitrary: n s)
  case (Cons p ps)
  have p: "p \<in> set (rg_reg s)" "sv_init (rg_svc s p)"
    using Cons.prems(1,2) by (auto simp: registry_wf_def)
  define s1 where "s1 = upd_svc p (\<lambda>v. v\<lparr>sv_started := False\<rparr>) (s\<lparr>rg_log := rg_log s @ [Exit p]\<rparr>)"
  have st: "io_service_stop (sv_name (rg_svc s p)) s = Some (IOSVC_OK, s1)" "rg_log s1 = rg_log s @ [Exit p]" "rg_reg s1 = rg_reg s"
      "\<And>q. rg_svc s1 q = (if q = p then (rg_svc s p)\<lparr>sv_started := False\<rparr> else rg_svc s q)"
    using Cons.prems p find_registered [OF Cons.prems(1) p(1) refl] by (auto simp: io_service_stop_def s1_def)
  have wf: "registry_wf s1"
    using registry_wf_stop [OF Cons.prems(1) st(1)] .
  have "p \<notin> set ps"
    using Cons.prems(3) by simp
  then have "\<forall>q \<in> set ps. sv_started (rg_svc s1 q) \<and> sv_exit (rg_svc s1 q)"
    using Cons.prems(4) st(4) by auto
  then obtain s' where "stop_each ps (n + 1) s1 = Some (n + 1 + length ps, s')" "rg_log s' = rg_log s1 @ map Exit ps"
      "rg_reg s' = rg_reg s1" "registry_wf s'"
      "\<forall>q. rg_svc s' q = (if q \<in> set ps then (rg_svc s1 q)\<lparr>sv_started := False\<rparr> else rg_svc s1 q)"
    using Cons.IH [OF wf, of "n + 1"] Cons.prems(2,3) st(3) by auto
  then show ?case
    using Cons.prems(4) st \<open>p \<notin> set ps\<close> by auto
qed simp

text \<open>
  Starting all services of a registry in which none is started calls each \<open>init\<close> once, in the order of registration;
  stopping all then calls each \<open>exit\<close> once, in the opposite order, and nothing is left started.
\<close>

lemma services_lifo:
  assumes "registry_wf s" "\<forall>p \<in> set (rg_reg s). \<not> sv_started (rg_svc s p) \<and> sv_exit (rg_svc s p)"
    and "\<forall>l. \<forall>p \<in> set (rg_reg s). rc l p = IOSVC_OK"
  shows "\<exists>s1 s2. io_service_start_all rc s = Some (length (rg_reg s), s1) \<and> rg_log s1 = rg_log s @ map Init (rg_reg s) \<and>
    io_service_stop_all s1 = Some (length (rg_reg s), s2) \<and> rg_log s2 = rg_log s1 @ map Exit (rev (rg_reg s)) \<and>
    (\<forall>p \<in> set (rg_reg s). \<not> sv_started (rg_svc s2 p)) \<and> registry_wf s2"
proof -
  have d: "distinct (rg_reg s)"
    using assms(1) by (auto simp: registry_wf_def distinct_map)
  obtain s1 where s1: "start_each rc (rg_reg s) 0 s = Some (0 + length (rg_reg s), s1)" "rg_log s1 = rg_log s @ map Init (rg_reg s)"
      "rg_reg s1 = rg_reg s" "registry_wf s1"
      "\<forall>p. rg_svc s1 p = (if p \<in> set (rg_reg s) then (rg_svc s p)\<lparr>sv_started := True\<rparr> else rg_svc s p)"
    using start_each_order [of "rg_reg s" rc s 0] assms d by blast
  have "\<forall>p \<in> set (rev (rg_reg s)). sv_started (rg_svc s1 p) \<and> sv_exit (rg_svc s1 p)"
    using s1(5) assms(2) by simp
  then obtain s2 where "stop_each (rev (rg_reg s)) 0 s1 = Some (0 + length (rev (rg_reg s)), s2)"
      "rg_log s2 = rg_log s1 @ map Exit (rev (rg_reg s))" "registry_wf s2"
      "\<forall>p. rg_svc s2 p = (if p \<in> set (rev (rg_reg s)) then (rg_svc s1 p)\<lparr>sv_started := False\<rparr> else rg_svc s1 p)"
    using stop_each_order [OF s1(4), of "rev (rg_reg s)" 0] s1(3) d by auto
  then show ?thesis
    using s1 by (auto simp: io_service_start_all_def io_service_stop_all_def)
qed

section \<open>Refused and unsafe operations\<close>

text \<open>
  Registration succeeds exactly for a complete service under a fresh name while a slot is free, and a service
  that was just registered is found under its name and is not started.
\<close>

lemma register_ok_iff:
  "fst (io_service_register p s) = IOSVC_OK \<longleftrightarrow>
    p \<noteq> 0 \<and> sv_name (rg_svc s p) \<noteq> None \<and> sv_init (rg_svc s p) \<and> io_service_count s < IO_SERVICE_MAX \<and>
    io_service_find (sv_name (rg_svc s p)) s = None"
  by (auto simp: io_service_register_def io_service_count_def)

lemma register_find:
  assumes "registry_wf s" "io_service_register p s = (IOSVC_OK, s')"
  shows "io_service_find (sv_name (rg_svc s p)) s' = Some p" "\<not> sv_started (rg_svc s' p)"
    "io_service_count s' = io_service_count s + 1"
proof -
  have s': "s' = (upd_svc p (\<lambda>v. v\<lparr>sv_registered := True, sv_started := False\<rparr>) s)\<lparr>rg_reg := rg_reg s @ [p]\<rparr>"
    using assms(2) by (auto simp: io_service_register_def split: if_splits)
  have "registry_wf s'"
    using registry_wf_register [OF assms(1), of p] assms(2) by simp
  then show "io_service_find (sv_name (rg_svc s p)) s' = Some p"
    by (rule find_registered) (simp_all add: s')
  show "\<not> sv_started (rg_svc s' p)" "io_service_count s' = io_service_count s + 1"
    by (simp_all add: s' io_service_count_def)
qed

text \<open>
  Registration does not ask for an \<open>exit\<close>: stopping a started service without one calls a null pointer, and so
  does taking it out of the registry.
\<close>

lemma stop_without_exit:
  assumes "registry_wf s" "p \<in> set (rg_reg s)" "sv_started (rg_svc s p)" "\<not> sv_exit (rg_svc s p)"
  shows "io_service_stop (sv_name (rg_svc s p)) s = None" "io_service_unregister (sv_name (rg_svc s p)) s = None"
  using find_registered [OF assms(1,2) refl] assms(3,4)
  by (simp_all add: io_service_stop_def io_service_unregister_def)

end
