(* ===== verification/Spec2Isabelle.thy ===== *)
theory Spec2Isabelle
  imports Xk_Prelude Xk_Bytes Vm_Pmm Vm_Paging Libkern_String Libkern_Div Libkern_Stdio Crypto_Hash Crypto_Aes
    Crypto_Util Bsd_Ramfs Kern_Elf Getty_Fs Osfmk_Isr Getty_Proc Getty_Syscall
    Getty_Steps Getty_Script Net_Stack Net_Proto Net_Dhcp
    Ext3_Disk Ext3_File Ext3_Fs Io_Service
begin

text \<open>
  A verification development for xkern, a 64-bit kernel for the PC in C, C++ and assembly.

  \<^bold>\<open>The program.\<close> At boot the kernel collects the free physical memory, builds page tables, and
  unpacks the boot archive into a file system in memory; disks are read through ext3. It then creates tasks that run ELF programs
  or scripts from that file system. A timer interrupt switches between the tasks; programs enter the
  kernel with a system call instruction. A polled network stack obtains an address with DHCP and answers
  pings. A library of C functions, formatted output and
  cryptographic functions serves all parts.

  \<^bold>\<open>Theories.\<close> Names of definitions are those of the source; a helper carved out of a function has
  a name of its own.

    \<^item> \<open>Xk_Prelude\<close>: integer types, page arithmetic, generic facts and the simp collections.
    \<^item> \<open>Xk_Bytes\<close>: 16-bit and 32-bit fields in buffers, and reads that are checked against their end.
    \<^item> \<open>Vm_Pmm\<close> (osfmk/vm/pmm.c): the stack of free frames as a list. The locale
      \<open>frame_allocator\<close> is what clients rely on, interpreted on the allocator itself.
    \<^item> \<open>Vm_Paging\<close> (osfmk/vm/paging.c): page tables as 64-bit cells of physical memory, against \<open>mmu\<close>,
      the translation of the processor, which is written from the architecture.
    \<^item> \<open>Libkern_String\<close>, \<open>Libkern_Div\<close>, \<open>Libkern_Stdio\<close> (libkern/libkern): memory and strings over
      byte-addressed memory, 64-bit division, number parsing, formatted output and input.
    \<^item> \<open>Crypto_Hash\<close>, \<open>Crypto_Aes\<close>, \<open>Crypto_Util\<close> (bsd/crypto): hashes and HMAC over the locale
      \<open>block_hash\<close>, AES with its modes over the locale \<open>block_cipher\<close>, keys and text encodings.
    \<^item> \<open>Bsd_Ramfs\<close> (bsd/fs/ramfs): the file table, in its two versions through the locale
      \<open>file_table\<close>, and the unpacking of cpio archives.
    \<^item> \<open>Kern_Elf\<close> (bsd/kern/elf/elf.c): loading a program through the page tables into memory.
    \<^item> \<open>Osfmk_Isr\<close> (osfmk/x86_64/isr.asm): the interrupt, exception, system call and context switch
      stubs on a machine with registers and a stack.
    \<^item> \<open>Getty_Fs\<close> (init_ram_getty/fs.c): descriptors, directories, argument vectors.
    \<^item> \<open>Getty_Proc\<close> (init_ram_getty/proc.c): the task table and the scheduler; the record \<open>ker\<close>
      is the state of the kernel.
    \<^item> \<open>Getty_Syscall\<close> (init_ram_getty/syscall.c and the start of programs in script.c).
    \<^item> \<open>Getty_Steps\<close>: ticks and system calls as a step relation over \<open>ker\<close>.
    \<^item> \<open>Getty_Script\<close> (init_ram_getty/script.c, valid.c and the boot module of init.c).
    \<^item> \<open>Net_Stack\<close> (iokit/IONetFamily: ether.c, arp.c, ipv4.c, icmp.c, udp.c): the protocols on lists of
      bytes, with the interface as the record \<open>net\<close>, and the arithmetic of checksums.
    \<^item> \<open>Net_Proto\<close>: what the protocols guarantee between two hosts, and the locale \<open>udp_handlers\<close>, the
      contract between the stack and the functions bound to ports.
    \<^item> \<open>Net_Dhcp\<close> (dhcp.c, ionet.c and the receive loop of e1000.c): the DHCP client, which interprets
      \<open>udp_handlers\<close>, and polling from boot on.
    \<^item> \<open>Ext3_Disk\<close> (bsd/ext3: disk.cpp, superblock.cpp, blk_group.cpp, inode.cpp): sectors, blocks, inodes and
      the data of files, with results of the type \<open>io\<close>: a fault, a failure or a value.
    \<^item> \<open>Ext3_File\<close>: reading against the contents of the disk as one list of bytes, and against the meaning of an
      inode in ext3 with its trees of blocks.
    \<^item> \<open>Ext3_Fs\<close> (dir.cpp, fs.cpp): directories, mounting, paths and descriptors.
    \<^item> \<open>Io_Service\<close> (io_service.c): the registry of services.

  \<^bold>\<open>What is shown.\<close>

    \<^item> Memory: the allocator starts with usable frames only and never loses or duplicates one;
      reserving removes exactly the frames of a region; mapping a page or a region gives the
      requested translation and keeps all others; the two ways to clone an address space give the
      address space they should.
    \<^item> Library: copying with overlap, division, truncating output, and that printed numbers are
      read back.
    \<^item> Cryptography: decryption undoes encryption, hashing in pieces equals hashing at once, and
      encodings are undone by decoding. The hashes and the cipher are not compared with their
      published standards.
    \<^item> Files: unpacking returns the files of an archive, the table implements a map from names to
      lists of contents, of which a lookup sees the oldest, reads deliver a file in order, a listing outside of
      /proc names each entry once.
    \<^item> Programs: the loader gives the image the headers describe; arguments arrive as quoted.
    \<^item> Tasks: interrupts other than page faults leave the interrupted program as it was; a task that has been switched
      away continues where it was; every runnable task runs within one round; the table invariant
      holds in all reachable states; a vfork parent stays off the processor until its child is done.
    \<^item> ext3: reading returns the bytes of the file, as far as they lie in the direct blocks and those of the
      indirect block, and zeros behind them; directories agree with their lists of
      entries, paths lead through the tree of directories, reads through a descriptor deliver a file in order.
    \<^item> Network: a datagram arrives at the handler of its port as it was sent; a ping is answered; the
      Internet checksum is that of RFC 1071; ARP packets teach the cache; a DHCP exchange binds the client,
      and nothing else moves it; whatever frames arrive, the stack returns and reads nothing outside of its buffers.
    \<^item> Services: no name is registered twice; services start in the order of registration and stop in the
      opposite order; stopping a service that was registered without an \<open>exit\<close> calls a null pointer.
    \<^item> Faults of the code, each as a theorem about the model: the system call registers arrive in the
      wrong order, with what that does to scripts; new tasks start at address 0; the page fault stub
      shifts the registers; a context switch to the same task loses a register; an archive can make
      unpacking run forever; \<open>strncpy\<close> writes past its bound; a memory map entry without a page
      boundary puts frames outside of it on the free stack;
      the answer to an ARP request is overwritten by its own header, so no host learns from it; the UDP
      checksum is wrong for almost every length; the block pointers of ext3 inodes are read at the wrong
      offset, so on a disk written by another system small files read as zeros; resolving a path loses a
      frame of memory for each directory.

  The theorems on tasks describe each part under its own assumptions. They do not say that the whole
  system runs: by the theorem on new tasks, a task created by this code does not reach its entry
  point.

  \<^bold>\<open>Conventions.\<close> Machine integers are words of their width, and wrap. A panic, a fault, an access
  outside of an array and undefined behaviour are the value \<open>None\<close>, or \<open>Fault\<close> in the ext3 theories. Loops that may not end are partial
  functions into \<open>option\<close>, where not ending is \<open>None\<close>; theorems that a result is produced state the
  result. No fuel is used. Bounds are those of the source (32 tasks, 16 descriptors, 15 words in a
  command, 256 bytes in a line, 16 addresses in the ARP cache, 8 ports, frames of 1518 bytes).

  \<^bold>\<open>Simplifications.\<close> Log lines are left out. Operations of tasks are single steps: a timer interrupt
  in the middle of one is not described, although the system call gate leaves interrupts enabled.
  Kernel memory, the frames of programs and the kernel stacks are separate stores, so overlaps between
  them are not described; in particular a pointer in a system call is followed in kernel memory and
  not through the page tables of the caller. Floating-point formatting is a parameter. The C functions
  called by the stubs are parameters with the calling convention as a hypothesis. The network card is a
  function from frames to results together with the frames it received, and the clock is a sequence of
  readings; both are arguments. So are the answers of a block device, and the theorems on ext3 assume that it
  returns what is stored.

  \<^bold>\<open>Not modelled.\<close> \<open>initram_getty_init\<close>, which stores 64-bit values through pointers to 32-bit
  variables; the programming of interrupt controllers, timers and other processors; the drivers under
  iokit, whose other half is the device, among them the registers and rings of the network card; the graphics kits and the game. Not modelled so far, although
  they could be: the device file system, DMA buffers
  and the boot protocol parsers under pexpert.
\<close>

end
